(* ===== verification/Prelude.thy ===== *)
theory Prelude
  imports Main "HOL-Library.Word" "HOL-Library.Monad_Syntax" "HOL-Library.Multiset"
begin

unbundle bit_operations_syntax

text \<open>
  Shared vocabulary of the development: the types that stand for Rust's machine types, the
  operations of Rust that can panic (\<open>None\<close> is the panic), loops over index ranges that leave
  early, and the generic lemmas on words, lists and options that the components share.

  \<^item> \<open>usize\<close> values (addresses, sizes, counters) are naturals; where the source's arithmetic can
    leave the 64-bit range the wrap-around is written out.
  \<^item> \<open>u64\<close> values whose bits matter (object headers, bitmap words) are \<open>64 word\<close>.
  \<^item> \<open>u16\<close> values (offsets into a block) are naturals; the cast \<open>as u16\<close> is \<open>as_u16\<close> and a
    subtraction that would underflow is \<open>None\<close>.
\<close>

section \<open>Machine types\<close>

type_synonym usize = nat
type_synonym u64 = "64 word"
type_synonym u16 = nat
type_synonym u32 = nat

named_theorems bitmap_simps \<open>what a bitmap operation does to the bit of an index\<close>
named_theorems const_simps \<open>the constants of the collector, unfolded\<close>

definition as_u16 :: "usize \<Rightarrow> u16" where
  "as_u16 n = n mod 2 ^ 16"

lemma as_u16_id [simp]: "n < 2 ^ 16 \<Longrightarrow> as_u16 n = n"
  by (simp add: as_u16_def)

lemma as_u16_less [simp]: "as_u16 n < 65536"
  by (simp add: as_u16_def)

text \<open>Subtraction of unsigned integers: an underflow is a panic.\<close>

definition usub :: "nat \<Rightarrow> nat \<Rightarrow> nat option" where
  "usub a b = (if b \<le> a then Some (a - b) else None)"

lemma usub_Some [simp]: "b \<le> a \<Longrightarrow> usub a b = Some (a - b)"
  by (simp add: usub_def)

lemma usub_add [simp]: "usub (a + b) a = Some b"
  by (simp add: usub_def)

text \<open>Indexing of a slice or array: out of range is a panic.\<close>

definition at_index :: "'a list \<Rightarrow> nat \<Rightarrow> 'a option" where
  "at_index xs i = (if i < length xs then Some (xs ! i) else None)"

definition put_index :: "'a list \<Rightarrow> nat \<Rightarrow> 'a \<Rightarrow> 'a list option" where
  "put_index xs i x = (if i < length xs then Some (xs[i := x]) else None)"

lemma at_index_Some [simp]: "i < length xs \<Longrightarrow> at_index xs i = Some (xs ! i)"
  by (simp add: at_index_def)

lemma put_index_Some [simp]: "i < length xs \<Longrightarrow> put_index xs i x = Some (xs[i := x])"
  by (simp add: put_index_def)

section \<open>Loops over an index range\<close>

text \<open>Ranges with numeral bounds (the 64 bits of a word, the 256 lines of a block) stay folded.\<close>

declare upt_rec_numeral [simp del]

text \<open>
  \<open>for_find p is\<close> is the loop \<open>for i in is { if p(i) { found = i; break } }\<close> whose condition may
  panic; \<open>for_each f is s\<close> is a loop whose body updates a state and may panic.
\<close>

fun for_find :: "(nat \<Rightarrow> bool option) \<Rightarrow> nat list \<Rightarrow> nat option option" where
  "for_find p [] = Some None"
| "for_find p (i # is) = do { b \<leftarrow> p i; if b then Some (Some i) else for_find p is }"

fun for_each :: "('i \<Rightarrow> 's \<Rightarrow> 's option) \<Rightarrow> 'i list \<Rightarrow> 's \<Rightarrow> 's option" where
  "for_each f [] s = Some s"
| "for_each f (i # is) s = do { s' \<leftarrow> f i s; for_each f is s' }"

lemma for_find_total:
  "(\<And>i. i \<in> set is \<Longrightarrow> p i = Some (q i)) \<Longrightarrow> for_find p is = Some (List.find q is)"
  by (induction "is") auto

lemma for_each_append:
  "for_each f (is @ js) s = do { s' \<leftarrow> for_each f is s; for_each f js s' }"
proof (induction "is" arbitrary: s)
  case (Cons i "is")
  then show ?case by (cases "f i s") auto
qed simp

lemma for_each_total:
  assumes "\<And>i s. i \<in> set is \<Longrightarrow> P s \<Longrightarrow> f i s = Some (g i s)"
    and "\<And>i s. i \<in> set is \<Longrightarrow> P s \<Longrightarrow> P (g i s)" and "P s"
  shows "for_each f is s = Some (fold g is s) \<and> P (fold g is s)"
  using assms by (induction "is" arbitrary: s) auto

text \<open>The first index of a range that satisfies a predicate.\<close>

lemma find_upt_Some:
  "List.find p [a..<b] = Some i \<longleftrightarrow> a \<le> i \<and> i < b \<and> p i \<and> (\<forall>j. a \<le> j \<and> j < i \<longrightarrow> \<not> p j)"
  (is "?l \<longleftrightarrow> ?r")
proof
  assume ?l
  then obtain k where k: "k < b - a" "p (a + k)" "i = a + k" "\<forall>j<k. \<not> p (a + j)"
    by (auto simp: find_Some_iff)
  have "\<not> p j" if "a \<le> j" "j < i" for j
  proof -
    have "j - a < k" using that k(3) by simp
    then have "\<not> p (a + (j - a))" using k(4) by blast
    then show ?thesis using that by simp
  qed
  then show ?r using k by auto
next
  assume ?r
  then have "i - a < b - a" "p (a + (i - a))" "i = a + (i - a)" "\<forall>j<i - a. \<not> p (a + j)"
    by auto
  then show ?l
    by (auto simp: find_Some_iff intro!: exI [of _ "i - a"])
qed

lemma find_upt_None: "List.find p [a..<b] = None \<longleftrightarrow> (\<forall>j. a \<le> j \<and> j < b \<longrightarrow> \<not> p j)"
  by (auto simp: find_None_iff)

section \<open>Single-bit masks on words\<close>

text \<open>\<open>one_shl n\<close> is \<open>1 << n\<close> on a 64-bit word.\<close>

definition one_shl :: "nat \<Rightarrow> u64" where
  "one_shl n = push_bit n 1"

lemma bit_one_shl [simp]: "bit (one_shl n) m = (m = n \<and> n < 64)"
  by (auto simp: one_shl_def bit_exp_iff)

lemma bit_or_mask: "n < 64 \<Longrightarrow> bit ((w::u64) OR one_shl n) m = (m = n \<or> bit w m)"
  by (auto simp: bit_or_iff)

lemma bit_and_not_mask: "bit ((w::u64) AND NOT (one_shl n)) m = (m \<noteq> n \<and> bit w m)"
  by (cases "m < 64") (auto simp: bit_and_iff bit_not_iff dest: bit_imp_le_length)

lemma and_mask_bit_zero: "n < 64 \<Longrightarrow> ((w::u64) AND one_shl n = 0) = (\<not> bit w n)"
  using bit_iff_and_push_bit_not_eq_0 [of w n] by (simp add: one_shl_def)

lemma and_mask_bit: "n < 64 \<Longrightarrow> ((w::u64) AND one_shl n \<noteq> 0) = bit w n"
  by (simp add: and_mask_bit_zero)

lemma and_mask_eq_mask: "n < 64 \<Longrightarrow> ((w::u64) AND one_shl n = one_shl n) = bit w n"
proof
  assume n: "n < 64" and eq: "w AND one_shl n = one_shl n"
  then have "bit (w AND one_shl n) n"
    by simp
  then show "bit w n" by (simp add: bit_and_iff)
next
  assume "bit w n"
  then show "w AND one_shl n = one_shl n"
    by (intro bit_word_eqI) (auto simp: bit_and_iff)
qed

lemma word_eq_0_iff_bits: "(w::u64) = 0 \<longleftrightarrow> (\<forall>n < 64. \<not> bit w n)"
proof
  assume "\<forall>n < 64. \<not> bit w n"
  then show "w = 0" by (intro bit_word_eqI) simp
qed simp

section \<open>Lists of blocks\<close>

text \<open>\<open>Vec::push\<close> and \<open>Vec::pop\<close> work at the end of the vector.\<close>

definition vec_push :: "'a list \<Rightarrow> 'a \<Rightarrow> 'a list" where
  "vec_push xs x = xs @ [x]"

definition vec_pop :: "'a list \<Rightarrow> 'a option \<times> 'a list" where
  "vec_pop xs = (if xs = [] then (None, []) else (Some (last xs), butlast xs))"

lemma vec_pop_Nil [simp]: "vec_pop [] = (None, [])"
  by (simp add: vec_pop_def)

lemma vec_pop_snoc [simp]: "vec_pop (xs @ [x]) = (Some x, xs)"
  by (simp add: vec_pop_def)

lemma vec_push_simps [simp]:
  "set (vec_push xs x) = insert x (set xs)" "mset (vec_push xs x) = add_mset x (mset xs)"
  "length (vec_push xs x) = Suc (length xs)" "distinct (vec_push xs x) = (x \<notin> set xs \<and> distinct xs)"
  by (auto simp: vec_push_def)

lemma filter_partition_mset: "mset (filter P xs) + mset (filter (\<lambda>x. \<not> P x) xs) = mset xs"
  by (induction xs) auto

lemma mset_take_drop: "mset (take n xs) + mset (drop n xs) = mset xs"
  by (metis append_take_drop_id mset_append)

end
