(* ===== verification/Util.thy ===== *)
theory Util
  imports Prelude
begin

unbundle bit_operations_syntax

text \<open>
  The constants of \<open>src/constants.rs\<close> and the helpers of \<open>src/util.rs\<close> (bit tags on pointers,
  rounding, \<open>Address\<close> and \<open>Region\<close>), with \<open>align_usize\<close> of \<open>src/object.rs\<close>. A raw pointer that
  carries tag bits is a \<open>u64\<close> word; an \<open>Address\<close> is a natural.
\<close>

section \<open>Constants\<close>

definition BLOCK_SIZE :: usize where [const_simps]: "BLOCK_SIZE = 32 * 1024"
definition LINE_SIZE :: usize where [const_simps]: "LINE_SIZE = 128"
definition NUM_LINES_PER_BLOCK :: usize where
  [const_simps]: "NUM_LINES_PER_BLOCK = BLOCK_SIZE div LINE_SIZE"
definition MEDIUM_OBJECT :: usize where [const_simps]: "MEDIUM_OBJECT = LINE_SIZE"
definition LARGE_OBJECT :: usize where [const_simps]: "LARGE_OBJECT = 8 * 1024"
definition USE_EVACUATION :: bool where [const_simps]: "USE_EVACUATION = True"
definition EVAC_HEADROOM :: usize where [const_simps]: "EVAC_HEADROOM = 5"

section \<open>Alignment and rounding\<close>

text \<open>\<open>align_usize\<close> with the 64-bit addition of the source: it wraps in a release build.\<close>

definition align_usize :: "usize \<Rightarrow> usize \<Rightarrow> usize" where
  "align_usize value align =
     (if align = 0 then value else (((value + align - 1) mod 2 ^ 64) div align) * align)"

definition round_down :: "u64 \<Rightarrow> u64 \<Rightarrow> u64" where
  "round_down x n = x AND NOT n"

definition round_up :: "u64 \<Rightarrow> u64 \<Rightarrow> u64" where
  "round_up x n = round_down (x + n - 1) n"

section \<open>Tagged pointers\<close>

definition UNTAG_MASK :: u64 where "UNTAG_MASK = NOT 7"

definition bit_is_set :: "u64 \<Rightarrow> nat \<Rightarrow> bool" where
  "bit_is_set pointer b = (pointer AND one_shl b = one_shl b)"

definition with_bit :: "u64 \<Rightarrow> nat \<Rightarrow> u64" where
  "with_bit pointer b = pointer OR one_shl b"

definition without_bit :: "u64 \<Rightarrow> nat \<Rightarrow> u64" where
  "without_bit pointer b = pointer AND NOT (one_shl b)"

definition untagged :: "u64 \<Rightarrow> u64" where
  "untagged pointer = pointer AND UNTAG_MASK"

record TaggedPointer =
  raw :: u64

definition TaggedPointer_new :: "u64 \<Rightarrow> TaggedPointer" where
  "TaggedPointer_new p = \<lparr>raw = p\<rparr>"

definition TaggedPointer_null :: TaggedPointer where
  "TaggedPointer_null = \<lparr>raw = 0\<rparr>"

definition TaggedPointer_untagged :: "TaggedPointer \<Rightarrow> u64" where
  "TaggedPointer_untagged t = untagged (raw t)"

definition TaggedPointer_bit_is_set :: "TaggedPointer \<Rightarrow> nat \<Rightarrow> bool" where
  "TaggedPointer_bit_is_set t b = bit_is_set (raw t) b"

definition TaggedPointer_set_bit :: "TaggedPointer \<Rightarrow> nat \<Rightarrow> TaggedPointer" where
  "TaggedPointer_set_bit t b = t\<lparr>raw := with_bit (raw t) b\<rparr>"

definition TaggedPointer_with_bit :: "u64 \<Rightarrow> nat \<Rightarrow> TaggedPointer" where
  "TaggedPointer_with_bit p b = TaggedPointer_set_bit (TaggedPointer_new p) b"

definition TaggedPointer_set_bit_x :: "TaggedPointer \<Rightarrow> bool \<Rightarrow> nat \<Rightarrow> TaggedPointer" where
  "TaggedPointer_set_bit_x t x b =
     t\<lparr>raw := (raw t AND NOT (one_shl b)) OR (if x then one_shl b else 0)\<rparr>"

definition TaggedPointer_toggle :: "TaggedPointer \<Rightarrow> nat \<Rightarrow> bool \<times> TaggedPointer" where
  "TaggedPointer_toggle t b =
     (TaggedPointer_bit_is_set t b, t\<lparr>raw := raw t XOR one_shl b\<rparr>)"

definition TaggedPointer_clear_bit :: "TaggedPointer \<Rightarrow> nat \<Rightarrow> TaggedPointer" where
  "TaggedPointer_clear_bit t b = t\<lparr>raw := without_bit (raw t) b\<rparr>"

definition TaggedPointer_without_tags :: "TaggedPointer \<Rightarrow> TaggedPointer" where
  "TaggedPointer_without_tags t = TaggedPointer_new (TaggedPointer_untagged t)"

definition TaggedPointer_is_null :: "TaggedPointer \<Rightarrow> bool" where
  "TaggedPointer_is_null t \<longleftrightarrow> TaggedPointer_untagged t = 0"

section \<open>Addresses and regions\<close>

type_synonym Address = usize

definition Address_offset_from :: "Address \<Rightarrow> Address \<Rightarrow> usize option" where
  "Address_offset_from self base = usub self base"

definition Address_offset :: "Address \<Rightarrow> usize \<Rightarrow> Address" where
  "Address_offset self off = self + off"

definition Address_sub :: "Address \<Rightarrow> usize \<Rightarrow> Address option" where
  "Address_sub self off = usub self off"

definition Address_add_ptr :: "Address \<Rightarrow> usize \<Rightarrow> Address" where
  "Address_add_ptr self words = self + words * 8"

definition Address_sub_ptr :: "Address \<Rightarrow> usize \<Rightarrow> Address option" where
  "Address_sub_ptr self words = usub self (words * 8)"

definition Address_null :: Address where "Address_null = 0"

definition Address_is_null :: "Address \<Rightarrow> bool" where
  "Address_is_null self \<longleftrightarrow> self = 0"

definition Address_is_non_null :: "Address \<Rightarrow> bool" where
  "Address_is_non_null self \<longleftrightarrow> self \<noteq> 0"

record Region =
  region_start :: Address
  region_end :: Address

text \<open>\<open>Region::new\<close> asserts (in debug builds) that the bounds are in order.\<close>

definition Region_new :: "Address \<Rightarrow> Address \<Rightarrow> Region option" where
  "Region_new s e = (if s \<le> e then Some \<lparr>region_start = s, region_end = e\<rparr> else None)"

definition Address_region_start :: "Address \<Rightarrow> usize \<Rightarrow> Region option" where
  "Address_region_start self sz = Region_new self (Address_offset self sz)"

definition Region_contains :: "Region \<Rightarrow> Address \<Rightarrow> bool" where
  "Region_contains r a \<longleftrightarrow> region_start r \<le> a \<and> a < region_end r"

definition Region_valid_top :: "Region \<Rightarrow> Address \<Rightarrow> bool" where
  "Region_valid_top r a \<longleftrightarrow> region_start r \<le> a \<and> a \<le> region_end r"

definition Region_size :: "Region \<Rightarrow> usize option" where
  "Region_size r = usub (region_end r) (region_start r)"

definition Region_empty :: "Region \<Rightarrow> bool" where
  "Region_empty r \<longleftrightarrow> region_start r = region_end r"

definition Region_disjunct :: "Region \<Rightarrow> Region \<Rightarrow> bool" where
  "Region_disjunct r other \<longleftrightarrow>
     region_end r \<le> region_start other \<or> region_start r \<ge> region_end other"

definition Region_overlaps :: "Region \<Rightarrow> Region \<Rightarrow> bool" where
  "Region_overlaps r other \<longleftrightarrow> \<not> Region_disjunct r other"

definition Region_fully_contains :: "Region \<Rightarrow> Region \<Rightarrow> bool" where
  "Region_fully_contains r other \<longleftrightarrow>
     Region_contains r (region_start other) \<and> Region_valid_top r (region_end other)"

definition Region_default :: Region where
  "Region_default = \<lparr>region_start = Address_null, region_end = Address_null\<rparr>"

section \<open>Lemmas\<close>

lemma align_usize_eq:
  "0 < align \<Longrightarrow> value + align \<le> 2 ^ 64 \<Longrightarrow>
   align_usize value align = ((value + align - 1) div align) * align"
  by (simp add: align_usize_def)

lemma align_usize_bounds:
  assumes "0 < p" "n + p \<le> 2 ^ 64"
  shows "p dvd align_usize n p" "n \<le> align_usize n p" "align_usize n p < n + p"
proof -
  have eq: "align_usize n p = (n + p - 1) div p * p" using assms by (rule align_usize_eq)
  then show "p dvd align_usize n p" by simp
  have "n + p - 1 = (n + p - 1) div p * p + (n + p - 1) mod p" by simp
  moreover have "(n + p - 1) mod p < p" using assms(1) by simp
  ultimately show "n \<le> align_usize n p" "align_usize n p < n + p" unfolding eq using assms(1) by linarith+
qed

lemma align_usize_16: "value + 16 \<le> 2 ^ 64 \<Longrightarrow> align_usize value 16 = (value + 15) div 16 * 16"
  by (simp add: align_usize_eq)

lemma align_usize_16_id: "16 dvd value \<Longrightarrow> value + 16 \<le> 2 ^ 64 \<Longrightarrow> align_usize value 16 = value"
  by (auto simp: align_usize_16)

lemma align_usize_16_dvd [simp]: "16 dvd align_usize value 16"
  by (simp add: align_usize_def)

lemma align_usize_16_ge: "value + 16 \<le> 2 ^ 64 \<Longrightarrow> value \<le> align_usize value 16"
  by (simp add: align_usize_16)

lemma align_usize_16_less: "value + 16 \<le> 2 ^ 64 \<Longrightarrow> align_usize value 16 < value + 16"
  by (simp add: align_usize_16)

text \<open>The tag operations, bit by bit.\<close>

lemma bit_is_set_iff [simp]: "b < 64 \<Longrightarrow> bit_is_set p b = bit p b"
  by (simp add: bit_is_set_def and_mask_eq_mask)

lemma bit_with_bit: "b < 64 \<Longrightarrow> bit (with_bit p b) i = (i = b \<or> bit p i)"
  by (simp add: with_bit_def bit_or_mask)

lemma bit_without_bit: "bit (without_bit p b) i = (i \<noteq> b \<and> bit p i)"
  by (simp add: without_bit_def bit_and_not_mask)

lemma untagged_eq: "untagged p = push_bit 3 (drop_bit 3 p)"
proof -
  have "UNTAG_MASK = push_bit 3 (NOT 0)"
    by (simp add: UNTAG_MASK_def push_bit_eq_mult)
  then have "untagged p = p AND NOT (mask 3)"
    by (simp add: untagged_def UNTAG_MASK_def mask_eq_exp_minus_1)
  also have "\<dots> = push_bit 3 (drop_bit 3 p)"
    by (rule bit_word_eqI) (auto simp: bit_and_iff bit_not_iff bit_mask_iff bit_push_bit_iff bit_drop_bit_eq)
  finally show ?thesis .
qed

lemma bit_untagged: "bit (untagged p) i = (3 \<le> i \<and> bit p i)"
  by (auto simp: untagged_eq bit_push_bit_iff bit_drop_bit_eq dest: bit_imp_le_length)

lemma bit_set_bit_x:
  "b < 64 \<Longrightarrow> bit (raw (TaggedPointer_set_bit_x t x b)) i = (if i = b then x else bit (raw t) i)"
  by (auto simp: TaggedPointer_set_bit_x_def bit_or_iff bit_and_not_mask bit_or_mask)

lemmas tag_bits = bit_with_bit bit_without_bit bit_untagged bit_set_bit_x

lemma untagged_idem [simp]: "untagged (untagged p) = untagged p"
  by (rule bit_word_eqI) (simp add: bit_untagged)

lemma untagged_with_bit [simp]: "b < 3 \<Longrightarrow> untagged (with_bit p b) = untagged p"
  by (rule bit_word_eqI) (auto simp: tag_bits)

lemma untagged_without_bit [simp]: "b < 3 \<Longrightarrow> untagged (without_bit p b) = untagged p"
  by (rule bit_word_eqI) (auto simp: tag_bits)

lemma untagged_set_bit_x [simp]:
  "b < 3 \<Longrightarrow> untagged (raw (TaggedPointer_set_bit_x t x b)) = untagged (raw t)"
  by (rule bit_word_eqI) (auto simp: tag_bits)

lemma untagged_aligned: "8 dvd n \<Longrightarrow> n < 2 ^ 64 \<Longrightarrow> untagged (of_nat n) = of_nat n"
proof (rule bit_word_eqI)
  fix i assume "8 dvd n" "n < 2 ^ 64" "i < LENGTH(64)"
  then obtain k where n: "n = push_bit 3 k" by (auto simp: push_bit_eq_mult)
  have "bit n i \<Longrightarrow> 3 \<le> i"
    unfolding n by (simp add: bit_push_bit_iff)
  then show "bit (untagged (of_nat n)) i = bit (of_nat n :: u64) i"
    by (auto simp: bit_untagged bit_of_nat_iff)
qed

text \<open>Rounding with a mask of one bit, for a power of two.\<close>

lemma unat_drop_bit_clear_bit:
  "unat ((w::u64) AND NOT (one_shl k)) div 2 ^ k = 2 * (unat w div 2 ^ Suc k)" if "k < 63"
proof -
  have "drop_bit k (w AND NOT (one_shl k)) = push_bit 1 (drop_bit (Suc k) w)"
  proof (rule bit_word_eqI)
    fix n assume "n < LENGTH(64)"
    show "bit (drop_bit k (w AND NOT (one_shl k))) n = bit (push_bit 1 (drop_bit (Suc k) w)) n"
      using \<open>n < LENGTH(64)\<close>
      by (cases n) (simp_all only: bit_drop_bit_eq o_def bit_and_not_mask bit_push_bit_iff, auto)
  qed
  then have "unat (drop_bit k (w AND NOT (one_shl k))) = unat (push_bit 1 (drop_bit (Suc k) w))"
    by (rule arg_cong)
  moreover have "2 * (unat w div 2 ^ Suc k) < 2 ^ 64"
  proof -
    have "2 * (unat w div 2 ^ Suc k) \<le> unat w"
    proof -
      have "unat w div 2 ^ Suc k = unat w div 2 div 2 ^ k"
        by (simp add: div_mult2_eq)
      also have "\<dots> \<le> unat w div 2" by (rule div_le_dividend)
      finally show ?thesis by linarith
    qed
    then show ?thesis using unsigned_less [of w, where ?'a = nat] by simp
  qed
  moreover have "unat (drop_bit k (w AND NOT (one_shl k))) = unat (w AND NOT (one_shl k)) div 2 ^ k"
    by (simp only: unat_drop_bit_eq drop_bit_eq_div [where ?'a = nat])
  moreover have "unat (push_bit 1 (drop_bit (Suc k) w)) = take_bit 64 (2 * (unat w div 2 ^ Suc k))"
    by (simp only: unsigned_push_bit_eq unat_drop_bit_eq drop_bit_eq_div [where ?'a = nat]
        push_bit_eq_mult [where ?'a = nat]) (simp add: mult.commute)
  ultimately show ?thesis
    by (simp only: take_bit_nat_eq_self)
qed

lemma round_up_one_shl:
  assumes "k < 63" and "x + 2 ^ k \<le> 2 ^ 64"
  shows "unat (round_up (of_nat x) (one_shl k)) div 2 ^ k = 2 * ((x + 2 ^ k - 1) div 2 ^ k div 2)"
proof -
  have ge: "1 \<le> x + 2 ^ k" by (rule trans_le_add2) simp
  have le: "x + 2 ^ k - 1 < (2::nat) ^ 64" using assms(2) ge by linarith
  have "of_nat x + one_shl k - 1 = (of_nat (x + 2 ^ k - 1) :: u64)"
    using of_nat_diff [OF ge, where ?'a = u64] by (simp add: one_shl_def)
  then have "unat (of_nat x + one_shl k - 1) = x + 2 ^ k - 1"
    using le by (simp only: unat_of_nat len_bit0 len_num1) simp
  then show ?thesis
    using unat_drop_bit_clear_bit [OF assms(1), of "of_nat x + one_shl k - 1"]
    by (simp add: round_up_def round_down_def mult.commute flip: div_mult2_eq)
qed

section \<open>Properties\<close>

text \<open>
  \<open>round_up x n\<close> for a power of two \<open>n = 2 ^ k\<close> does not round up to the next multiple of \<open>n\<close>:
  the mask \<open>!n\<close> only clears bit \<open>k\<close>. In units of \<open>n\<close> the result is the quotient
  \<open>(x + n - 1) / n\<close> with its lowest bit cleared, so it is right exactly when that quotient is even.
\<close>

lemma round_up_power_of_two:
  assumes "k < 63" and "x + 2 ^ k \<le> 2 ^ 64"
  shows "unat (round_up (of_nat x) (one_shl k)) div 2 ^ k = 2 * ((x + 2 ^ k - 1) div 2 ^ k div 2)"
  using assms by (rule round_up_one_shl)

text \<open>
  Setting a tag bit of a tagged pointer to \<open>x\<close> makes exactly that bit \<open>x\<close>, keeps every other
  bit, and never changes the pointer itself.
\<close>

lemma set_bit_x_exact:
  assumes "b < 3"
  shows "TaggedPointer_bit_is_set (TaggedPointer_set_bit_x t x b) b = x \<and>
    (\<forall>i < 64. i \<noteq> b \<longrightarrow>
       TaggedPointer_bit_is_set (TaggedPointer_set_bit_x t x b) i = TaggedPointer_bit_is_set t i) \<and>
    TaggedPointer_untagged (TaggedPointer_set_bit_x t x b) = TaggedPointer_untagged t"
  using assms by (auto simp: TaggedPointer_bit_is_set_def TaggedPointer_untagged_def bit_set_bit_x)

text \<open>
  Two non-empty regions overlap, in the sense of \<open>Region::overlaps\<close>, exactly when some address
  is contained in both.
\<close>

lemma region_overlaps_iff_common_address:
  assumes "region_start r < region_end r" and "region_start s < region_end s"
  shows "Region_overlaps r s \<longleftrightarrow> (\<exists>a. Region_contains r a \<and> Region_contains s a)"
proof
  assume "Region_overlaps r s"
  then have "Region_contains r (max (region_start r) (region_start s)) \<and>
      Region_contains s (max (region_start r) (region_start s))"
    using assms by (auto simp: Region_overlaps_def Region_disjunct_def Region_contains_def)
  then show "\<exists>a. Region_contains r a \<and> Region_contains s a" by blast
next
  assume "\<exists>a. Region_contains r a \<and> Region_contains s a"
  then show "Region_overlaps r s"
    by (auto simp: Region_overlaps_def Region_disjunct_def Region_contains_def)
qed

end
