(* ===== verification/Bit_Table.thy ===== *)
theory Bit_Table
  imports Prelude
begin

unbundle bit_operations_syntax

text \<open>
  What the two bitmaps of the collector (\<open>LineMap\<close>, generated by the macro of
  \<open>src/util/bitmap_const.rs\<close>, and \<open>SpaceBitmap\<close> of \<open>src/space_bitmap.rs\<close>) have in common: a vector
  of 64-bit words read as a set of bit indices, the loop that visits the set bits of one word, and
  the interface \<open>bit_table\<close> their clients use, with the lemmas on loops that mark or scan a range.
\<close>

section \<open>A vector of words as a set of indices\<close>

definition words_bit :: "u64 list \<Rightarrow> nat \<Rightarrow> bool" where
  "words_bit ws i \<longleftrightarrow> i div 64 < length ws \<and> bit (ws ! (i div 64)) (i mod 64)"

lemma words_bit_update:
  assumes "i div 64 < length ws"
    and "\<And>m. bit w m = (if m = i mod 64 then x else bit (ws ! (i div 64)) m)"
  shows "words_bit (ws[i div 64 := w]) j = (if j = i then x else words_bit ws j)"
proof (cases "j div 64 = i div 64")
  case True
  have "j = i \<longleftrightarrow> j mod 64 = i mod 64"
    using True by (metis div_mult_mod_eq)
  then show ?thesis
    using True assms by (auto simp: words_bit_def)
next
  case False
  then have "j \<noteq> i" by auto
  then show ?thesis
    using False by (simp add: words_bit_def)
qed

lemma words_bit_or:
  "i div 64 < length ws \<Longrightarrow>
   words_bit (ws[i div 64 := ws ! (i div 64) OR one_shl (i mod 64)]) j = (j = i \<or> words_bit ws j)"
  by (subst words_bit_update [where x = True]) (auto simp: bit_or_mask)

lemma words_bit_and_not:
  "i div 64 < length ws \<Longrightarrow>
   words_bit (ws[i div 64 := ws ! (i div 64) AND NOT (one_shl (i mod 64))]) j
     = (j \<noteq> i \<and> words_bit ws j)"
  by (subst words_bit_update [where x = False]) (auto simp: bit_and_not_mask)

lemma words_bit_zero: "words_bit (replicate n 0) i = False"
  by (simp add: words_bit_def)

lemma words_bit_less: "words_bit ws i \<Longrightarrow> i < 64 * length ws"
  by (simp add: words_bit_def div_less_iff_less_mult mult.commute)

lemma all_words_zero_iff: "(\<forall>w \<in> set ws. w = 0) \<longleftrightarrow> (\<forall>i. \<not> words_bit ws i)"
proof
  assume "\<forall>i. \<not> words_bit ws i"
  show "\<forall>w \<in> set ws. w = 0"
  proof
    fix w assume "w \<in> set ws"
    then obtain k where k: "k < length ws" "w = ws ! k" by (auto simp: in_set_conv_nth)
    have "\<not> bit w n" if "n < 64" for n
    proof -
      have "(64 * k + n) div 64 = k" "(64 * k + n) mod 64 = n" using that by auto
      then show ?thesis
        using \<open>\<forall>i. \<not> words_bit ws i\<close> [THEN spec, of "64 * k + n"] k by (simp add: words_bit_def)
    qed
    then show "w = 0" by (simp add: word_eq_0_iff_bits)
  qed
next
  assume "\<forall>w \<in> set ws. w = 0"
  then have "ws ! k = 0" if "k < length ws" for k using that nth_mem by blast
  then show "\<forall>i. \<not> words_bit ws i" by (simp add: words_bit_def)
qed

section \<open>Visiting the set bits of a word\<close>

text \<open>
  \<open>trailing_zeros\<close> of a non-zero word, and the loop
  \<open>while { let shift = w.trailing_zeros(); visitor(base + shift * align); w ^= 1 << shift; w != 0 }\<close>
  that the walks share; the result is the list of the addresses passed to the visitor.
\<close>

definition trailing_zeros :: "u64 \<Rightarrow> nat" where
  "trailing_zeros w = length (takeWhile (\<lambda>i. \<not> bit w i) [0..<64])"

lemma trailing_zeros_bit:
  assumes "(w::u64) \<noteq> 0"
  shows "trailing_zeros w < 64 \<and> bit w (trailing_zeros w) \<and> (\<forall>i < trailing_zeros w. \<not> bit w i)"
proof -
  let ?t = "takeWhile (\<lambda>i. \<not> bit w i) [0..<64]"
  have ex: "\<exists>i \<in> set [0..<64]. \<not> \<not> bit w i"
    using assms by (auto simp: word_eq_0_iff_bits)
  have lt: "length ?t < 64"
  proof (rule ccontr)
    assume "\<not> length ?t < 64"
    then have "?t = [0..<64]"
      using takeWhile_eq_take [of "\<lambda>i. \<not> bit w i" "[0..<64]"] by simp
    moreover obtain i where "i \<in> set [0..<64]" "bit w i" using ex by blast
    ultimately have "i \<in> set ?t" by (simp only:)
    then show False using \<open>bit w i\<close> by (blast dest: set_takeWhileD)
  qed
  have "\<not> \<not> bit w ([0..<64] ! length ?t)"
    by (rule nth_length_takeWhile) (use lt in simp)
  moreover have "\<not> bit w i" if "i < length ?t" for i
  proof -
    have "?t ! i = i" using that lt by (simp add: takeWhile_nth)
    moreover have "?t ! i \<in> set ?t" using that by simp
    ultimately show ?thesis by (auto dest: set_takeWhileD)
  qed
  ultimately show ?thesis using lt by (simp add: trailing_zeros_def)
qed

lemma unat_clear_lowest:
  assumes "(w::u64) \<noteq> 0"
  shows "unat (w XOR one_shl (trailing_zeros w)) < unat w"
proof -
  let ?t = "trailing_zeros w"
  have t: "?t < 64" "bit w ?t" using trailing_zeros_bit [OF assms] by auto
  have "w XOR one_shl ?t \<le> w"
  proof -
    have "w XOR one_shl ?t = w AND NOT (one_shl ?t)"
      using t by (intro bit_word_eqI) (auto simp: bit_and_iff bit_xor_iff bit_not_iff)
    then show ?thesis by (simp add: word_and_le2)
  qed
  moreover have "w XOR one_shl ?t \<noteq> w"
  proof
    assume "w XOR one_shl ?t = w"
    then have "bit (w XOR one_shl ?t) ?t" using t by (simp only:)
    then show False using t by (simp add: bit_xor_iff)
  qed
  ultimately show ?thesis by (simp add: word_le_nat_alt order_less_le word_unat_eq_iff)
qed

function visit_word :: "usize \<Rightarrow> usize \<Rightarrow> u64 \<Rightarrow> usize list" where
  "visit_word ptr_base align w =
     (if w = 0 then []
      else let shift = trailing_zeros w
           in (ptr_base + shift * align) # visit_word ptr_base align (w XOR one_shl shift))"
  by pat_completeness auto
termination
  by (relation "measure (\<lambda>(_, _, w). unat w)") (auto simp: unat_clear_lowest)

declare visit_word.simps [simp del]

lemma filter_upt_first:
  assumes "t < n" and "P t" and "\<forall>i < t. \<not> P i"
  shows "filter P [0..<n] = t # filter (\<lambda>i. P i \<and> i \<noteq> t) [0..<n]"
proof -
  have "[0..<n] = [0..<t] @ t # [Suc t..<n]"
    using assms(1) upt_add_eq_append [of 0 t "n - t"] upt_conv_Cons [of t n] by simp
  moreover have "filter P [0..<t] = []" "filter (\<lambda>i. P i \<and> i \<noteq> t) [0..<t] = []"
    using assms(3) by (auto simp: filter_empty_conv)
  moreover have "filter (\<lambda>i. P i \<and> i \<noteq> t) [Suc t..<n] = filter P [Suc t..<n]"
    by (rule filter_cong) auto
  ultimately show ?thesis using assms(2) by simp
qed

lemma visit_word_eq:
  "visit_word ptr_base align w = map (\<lambda>i. ptr_base + i * align) (filter (bit w) [0..<64])"
proof (induction ptr_base align w rule: visit_word.induct)
  case (1 ptr_base align w)
  show ?case
  proof (cases "w = 0")
    case True
    then show ?thesis by (simp add: visit_word.simps)
  next
    case False
    let ?t = "trailing_zeros w"
    have t: "?t < 64" "bit w ?t" "\<forall>i < ?t. \<not> bit w i"
      using trailing_zeros_bit [OF False] by auto
    have "filter (bit (w XOR one_shl ?t)) [0..<64] = filter (\<lambda>i. bit w i \<and> i \<noteq> ?t) [0..<64]"
      using t by (intro filter_cong) (auto simp: bit_xor_iff)
    then have "filter (bit w) [0..<64] = ?t # filter (bit (w XOR one_shl ?t)) [0..<64]"
      using filter_upt_first [of ?t 64 "bit w"] t by simp
    then show ?thesis
      using False 1 by (simp add: visit_word.simps [of ptr_base align w] Let_def)
  qed
qed

lemma visit_words_eq:
  assumes "n \<le> length ws"
  shows "concat (map (\<lambda>k. visit_word (k * al * 64 + base) al (ws ! k)) [0..<n])
    = map (\<lambda>i. base + i * al) (filter (words_bit ws) [0..<64 * n])"
  using assms
proof (induction n)
  case (Suc n)
  have upt: "[0..<64 * Suc n] = [0..<64 * n] @ map (\<lambda>i. 64 * n + i) [0..<64]"
    using upt_add_eq_append [of 0 "64 * n" 64] map_add_upt [of "64 * n" 64]
    by (simp add: add.commute)
  have "words_bit ws (64 * n + i) = bit (ws ! n) i" if "i < 64" for i
    using that Suc.prems by (simp add: words_bit_def)
  then have "filter (\<lambda>i. words_bit ws (64 * n + i)) [0..<64] = filter (bit (ws ! n)) [0..<64]"
    by (intro filter_cong) auto
  then have "map (\<lambda>i. base + i * al) (filter (words_bit ws) (map (\<lambda>i. 64 * n + i) [0..<64]))
      = visit_word (n * al * 64 + base) al (ws ! n)"
    by (simp add: visit_word_eq filter_map o_def algebra_simps)
  then show ?case using Suc by (simp add: upt del: mult_Suc_right)
qed simp

section \<open>Visiting a range\<close>

text \<open>
  \<open>1 << n\<close> for a shift that may exceed the width: a panic with overflow checks, the shift by
  \<open>n mod 64\<close> without them.
\<close>

definition shl1 :: "bool \<Rightarrow> nat \<Rightarrow> u64 option" where
  "shl1 overflow_checks n =
     (if n < 64 then Some (one_shl n)
      else if overflow_checks then None else Some (one_shl (n mod 64)))"

text \<open>
  \<open>visit_marked_range\<close>, the same text in \<open>bitmap_const.rs\<close> and \<open>space_bitmap.rs\<close>, over the words
  \<open>ws\<close> of a bitmap with one bit for \<open>align\<close> bytes; the result lists the visited addresses in order.
\<close>

definition visit_marked_range_words ::
    "bool \<Rightarrow> usize \<Rightarrow> u64 list \<Rightarrow> usize \<Rightarrow> usize \<Rightarrow> usize \<Rightarrow> usize list option" where
  "visit_marked_range_words overflow_checks align ws heap_begin visit_begin visit_end = do {
     offset_start \<leftarrow> usub visit_begin heap_begin;
     offset_end \<leftarrow> usub visit_end heap_begin;
     let index_start = offset_start div align div (8 * 8);
     let index_end = offset_end div align div (8 * 8);
     let bit_start = (offset_start div align) * (8 * 8);
     let bit_end = (offset_end div align) * (8 * 8);
     let base = (\<lambda>i. i * align * (8 * 8) + heap_begin);
     left0 \<leftarrow> at_index ws index_start;
     shifted \<leftarrow> shl1 overflow_checks bit_start;
     let left_edge = left0 AND NOT (shifted - 1);
     (visited, right_edge) \<leftarrow>
       (if index_start < index_end then do {
          let first = visit_word (base index_start) align left_edge;
          mid \<leftarrow> for_each (\<lambda>i acc. do { w \<leftarrow> at_index ws i; Some (acc @ visit_word (base i) align w) })
                 [index_start + 1..<index_end] first;
          right \<leftarrow> (if bit_end = 0 then Some 0 else at_index ws index_end);
          Some (mid, right) }
        else Some ([], left_edge));
     shifted_end \<leftarrow> shl1 overflow_checks bit_end;
     let right_edge = right_edge AND (shifted_end - 1);
     Some (visited @ visit_word (base index_end) align right_edge) }"

lemma shl1_mult_64:
  "shl1 chk (n * 64) = (if n = 0 \<or> \<not> chk then Some 1 else None)"
  by (auto simp: shl1_def one_shl_def)

lemma for_each_visit:
  assumes "\<forall>i \<in> set is. i < length ws"
  shows "for_each (\<lambda>i acc. do { w \<leftarrow> at_index ws i; Some (acc @ visit_word (base i) align w) }) is acc
    = Some (acc @ concat (map (\<lambda>i. visit_word (base i) align (ws ! i)) is))"
  using assms by (induction "is" arbitrary: acc) auto

lemma visit_word_zero [simp]: "visit_word b al 0 = []"
  by (simp add: visit_word.simps)

text \<open>
  What the code does without overflow checks: it visits the whole words from the word of
  \<open>visit_begin\<close> up to, but not including, the word of \<open>visit_end\<close>.
\<close>

lemma visit_marked_range_words_unchecked:
  assumes "heap_begin \<le> visit_begin" and "visit_begin \<le> visit_end"
    and "(visit_end - heap_begin) div align div 64 < length ws"
  shows "visit_marked_range_words False align ws heap_begin visit_begin visit_end
    = Some (concat (map (\<lambda>i. visit_word (i * align * 64 + heap_begin) align (ws ! i))
        [(visit_begin - heap_begin) div align div 64..<(visit_end - heap_begin) div align div 64]))"
proof -
  let ?s = "(visit_begin - heap_begin) div align div 64"
  let ?e = "(visit_end - heap_begin) div align div 64"
  have le: "?s \<le> ?e"
    using assms(2) by (intro div_le_mono) simp
  have s: "?s < length ws" using le assms(3) by simp
  show ?thesis
  proof (cases "?s < ?e")
    case True
    then have "[?s..<?e] = ?s # [Suc ?s..<?e]" by (rule upt_conv_Cons)
    then show ?thesis
      using assms True s
      by (simp add: visit_marked_range_words_def Let_def shl1_mult_64 for_each_visit)
  next
    case False
    then show ?thesis
      using assms s by (simp add: visit_marked_range_words_def Let_def shl1_mult_64)
  qed
qed

text \<open>With overflow checks the shift panics as soon as the range does not start in the first cell.\<close>

lemma visit_marked_range_words_checked:
  assumes "0 < align" and "heap_begin + align \<le> visit_begin"
  shows "visit_marked_range_words True align ws heap_begin visit_begin visit_end = None"
proof -
  have "0 < (visit_begin - heap_begin) div align"
    using assms by (simp add: div_greater_zero_iff)
  then have "shl1 True ((visit_begin - heap_begin) div align * (8 * 8)) = None"
    by (simp add: shl1_def)
  then show ?thesis
    using assms by (simp add: visit_marked_range_words_def Let_def bind_eq_None_conv)
qed

section \<open>The interface of a bitmap\<close>

text \<open>
  A client sees a bitmap as a finite set \<open>marked m\<close> of indices below \<open>cap m\<close>. Reading or writing an
  index below \<open>cap m\<close> never panics.
\<close>

locale bit_table =
  fixes valid :: "'m \<Rightarrow> bool"
    and cap :: "'m \<Rightarrow> nat"
    and marked :: "'m \<Rightarrow> nat \<Rightarrow> bool"
    and test :: "nat \<Rightarrow> 'm \<Rightarrow> bool option"
    and put :: "bool \<Rightarrow> nat \<Rightarrow> 'm \<Rightarrow> 'm option"
  assumes test_marked: "valid m \<Longrightarrow> i < cap m \<Longrightarrow> test i m = Some (marked m i)"
    and put_total: "valid m \<Longrightarrow> i < cap m \<Longrightarrow> \<exists>m'. put x i m = Some m'"
    and put_valid: "valid m \<Longrightarrow> i < cap m \<Longrightarrow> put x i m = Some m' \<Longrightarrow> valid m'"
    and put_cap: "valid m \<Longrightarrow> i < cap m \<Longrightarrow> put x i m = Some m' \<Longrightarrow> cap m' = cap m"
    and put_marked: "valid m \<Longrightarrow> i < cap m \<Longrightarrow> put x i m = Some m' \<Longrightarrow>
      marked m' j = (if j = i then x else marked m j)"
begin

lemma put_range:
  assumes "valid m" and "\<forall>i \<in> set is. i < cap m"
  shows "\<exists>m'. for_each (put x) is m = Some m' \<and> valid m' \<and> cap m' = cap m \<and>
    (\<forall>j. marked m' j = (if j \<in> set is then x else marked m j))"
  using assms
proof (induction "is" arbitrary: m)
  case Nil
  then show ?case by simp
next
  case (Cons i "is")
  have i: "valid m" "i < cap m" using Cons.prems by auto
  obtain m1 where m1: "put x i m = Some m1" using put_total [OF i] by blast
  note v = put_valid [OF i m1] put_cap [OF i m1]
  have mk: "marked m1 j = (if j = i then x else marked m j)" for j by (rule put_marked [OF i m1])
  obtain m2 where m2: "for_each (put x) is m1 = Some m2" "valid m2" "cap m2 = cap m1"
      "\<forall>j. marked m2 j = (if j \<in> set is then x else marked m1 j)"
    using Cons.IH [of m1] Cons.prems v by auto
  then show ?case using m1 mk v by auto
qed

lemma for_find_marked:
  assumes "valid m" and "\<forall>i \<in> set is. i < cap m"
  shows "for_find (\<lambda>i. test i m) is = Some (List.find (marked m) is)"
  by (rule for_find_total) (use assms test_marked in auto)

lemma for_find_unmarked:
  assumes "valid m" and "\<forall>i \<in> set is. i < cap m"
  shows "for_find (\<lambda>i. map_option Not (test i m)) is = Some (List.find (\<lambda>i. \<not> marked m i) is)"
  by (rule for_find_total) (use assms test_marked in auto)

lemma for_each_test:
  assumes "valid m" and "\<forall>i \<in> set is. i < cap m"
  shows "for_each (\<lambda>i s. do { b \<leftarrow> test i m; Some (g b s) }) is s
    = Some (fold (\<lambda>i. g (marked m i)) is s)"
  using assms by (induction "is" arbitrary: s) (auto simp: test_marked)

end

end
