(* ===== verification/Line_Map.thy ===== *)
theory Line_Map
  imports Util Bit_Table
begin

unbundle bit_operations_syntax

text \<open>
  The bitmap that the macro \<open>space_bitmap_gen!\<close> of \<open>src/util/bitmap_const.rs\<close> generates for
  \<open>LineMap\<close> in \<open>src/block.rs\<close>: one bit for each line of \<open>LINE_SIZE\<close> bytes of a block of \<open>BLOCK_SIZE\<close>
  bytes. Array accesses are bounds-checked by Rust, so an address outside the block is a panic.
\<close>

record LineMap =
  bitmap_words :: "u64 list"

definition LineMap_BITMAP_SIZE :: usize where
  "LineMap_BITMAP_SIZE =
     (let bytes_covered_per_word = LINE_SIZE * (8 * 8)
      in (unat (round_up (of_nat BLOCK_SIZE) (of_nat bytes_covered_per_word))
            div bytes_covered_per_word) * 8)"

definition LineMap_new :: LineMap where
  "LineMap_new = \<lparr>bitmap_words = replicate (LineMap_BITMAP_SIZE div 8) 0\<rparr>"

definition LineMap_clear_all :: "LineMap \<Rightarrow> LineMap" where
  "LineMap_clear_all m = m\<lparr>bitmap_words := map (\<lambda>_. 0) (bitmap_words m)\<rparr>"

definition LineMap_is_empty :: "LineMap \<Rightarrow> bool" where
  "LineMap_is_empty m = list_all (\<lambda>byte. byte = 0) (bitmap_words m)"

definition LineMap_offset_bit_index :: "usize \<Rightarrow> usize" where
  "LineMap_offset_bit_index offset = (offset div LINE_SIZE) mod (8 * 8)"

definition LineMap_offset_to_index :: "usize \<Rightarrow> usize" where
  "LineMap_offset_to_index offset = offset div LINE_SIZE div (8 * 8)"

definition LineMap_index_to_offset :: "usize \<Rightarrow> usize" where
  "LineMap_index_to_offset index = index * LINE_SIZE * (8 * 8)"

definition LineMap_offset_to_mask :: "usize \<Rightarrow> u64" where
  "LineMap_offset_to_mask offset = one_shl ((offset div LINE_SIZE) mod (8 * 8))"

definition LineMap_test :: "LineMap \<Rightarrow> usize \<Rightarrow> usize \<Rightarrow> bool option" where
  "LineMap_test m object heap_begin = do {
     offset \<leftarrow> usub object heap_begin;
     entry \<leftarrow> at_index (bitmap_words m) (LineMap_offset_to_index offset);
     Some (entry AND LineMap_offset_to_mask offset \<noteq> 0) }"

definition LineMap_set :: "LineMap \<Rightarrow> usize \<Rightarrow> usize \<Rightarrow> (bool \<times> LineMap) option" where
  "LineMap_set m object heap_begin = do {
     offset \<leftarrow> usub object heap_begin;
     let index = LineMap_offset_to_index offset;
     let mask = LineMap_offset_to_mask offset;
     entry \<leftarrow> at_index (bitmap_words m) index;
     if entry AND mask = 0
     then Some (True, m\<lparr>bitmap_words := (bitmap_words m)[index := entry OR mask]\<rparr>)
     else Some (False, m) }"

definition LineMap_clear :: "LineMap \<Rightarrow> usize \<Rightarrow> usize \<Rightarrow> (bool \<times> LineMap) option" where
  "LineMap_clear m object heap_begin = do {
     offset \<leftarrow> usub object heap_begin;
     let index = LineMap_offset_to_index offset;
     let mask = LineMap_offset_to_mask offset;
     entry \<leftarrow> at_index (bitmap_words m) index;
     if entry AND mask \<noteq> 0
     then Some (True, m\<lparr>bitmap_words := (bitmap_words m)[index := entry AND NOT mask]\<rparr>)
     else Some (False, m) }"

definition LineMap_visit_marked_range ::
    "bool \<Rightarrow> LineMap \<Rightarrow> usize \<Rightarrow> usize \<Rightarrow> usize \<Rightarrow> usize list option" where
  "LineMap_visit_marked_range overflow_checks m heap_begin visit_begin visit_end =
     visit_marked_range_words overflow_checks LINE_SIZE (bitmap_words m) heap_begin visit_begin visit_end"

section \<open>The map as a set of lines\<close>

definition LineMap_valid :: "LineMap \<Rightarrow> bool" where
  "LineMap_valid m \<longleftrightarrow> length (bitmap_words m) = 4"

definition LineMap_marked :: "LineMap \<Rightarrow> nat \<Rightarrow> bool" where
  "LineMap_marked m line = words_bit (bitmap_words m) line"

lemma LineMap_BITMAP_SIZE_eq: "LineMap_BITMAP_SIZE = 32"
  by (simp add: LineMap_BITMAP_SIZE_def round_up_def round_down_def const_simps)

lemma num_lines [simp]: "NUM_LINES_PER_BLOCK = 256"
  by (simp add: const_simps)

lemma LineMap_new_valid [simp]: "LineMap_valid LineMap_new"
  by (simp add: LineMap_valid_def LineMap_new_def LineMap_BITMAP_SIZE_eq)

lemma LineMap_new_marked [simp]: "\<not> LineMap_marked LineMap_new i"
  by (simp add: LineMap_marked_def LineMap_new_def words_bit_zero)

lemma LineMap_clear_all_valid [simp]: "LineMap_valid (LineMap_clear_all m) = LineMap_valid m"
  by (simp add: LineMap_valid_def LineMap_clear_all_def)

lemma LineMap_clear_all_marked [simp]: "\<not> LineMap_marked (LineMap_clear_all m) i"
  by (simp add: LineMap_marked_def LineMap_clear_all_def map_replicate_const words_bit_zero)

lemma LineMap_marked_less: "LineMap_valid m \<Longrightarrow> LineMap_marked m i \<Longrightarrow> i < 256"
  using words_bit_less [of "bitmap_words m" i] by (simp add: LineMap_valid_def LineMap_marked_def)

lemma LineMap_is_empty_iff: "LineMap_is_empty m \<longleftrightarrow> (\<forall>i. \<not> LineMap_marked m i)"
  by (simp add: LineMap_is_empty_def LineMap_marked_def list_all_iff all_words_zero_iff)

lemma LineMap_test_offset:
  assumes "LineMap_valid m"
  shows "LineMap_test m (b + off) b
    = (if off < BLOCK_SIZE then Some (LineMap_marked m (off div LINE_SIZE)) else None)"
proof -
  have "off div 128 div 64 < 4 \<longleftrightarrow> off < 32768" by (simp add: div_less_iff_less_mult)
  then show ?thesis
    using assms
    by (auto simp: LineMap_test_def LineMap_valid_def LineMap_marked_def at_index_def words_bit_def
        LineMap_offset_to_index_def LineMap_offset_to_mask_def and_mask_bit and_mask_bit_zero
        BLOCK_SIZE_def LINE_SIZE_def)
qed

lemma LineMap_set_offset:
  assumes "LineMap_valid m" and "off < BLOCK_SIZE"
  shows "\<exists>m'. LineMap_set m (b + off) b = Some (\<not> LineMap_marked m (off div LINE_SIZE), m') \<and>
    LineMap_valid m' \<and> (\<forall>j. LineMap_marked m' j = (j = off div LINE_SIZE \<or> LineMap_marked m j))"
proof -
  let ?i = "off div LINE_SIZE"
  have i: "?i div 64 < length (bitmap_words m)"
    using assms by (simp add: LineMap_valid_def const_simps div_less_iff_less_mult)
  show ?thesis
    using assms i words_bit_or [OF i]
    by (cases "LineMap_marked m ?i")
      (auto simp: LineMap_set_def LineMap_valid_def LineMap_marked_def words_bit_def Let_def
        LineMap_offset_to_index_def LineMap_offset_to_mask_def and_mask_bit_zero)
qed

lemma LineMap_clear_offset:
  assumes "LineMap_valid m" and "off < BLOCK_SIZE"
  shows "\<exists>m'. LineMap_clear m (b + off) b = Some (LineMap_marked m (off div LINE_SIZE), m') \<and>
    LineMap_valid m' \<and> (\<forall>j. LineMap_marked m' j = (j \<noteq> off div LINE_SIZE \<and> LineMap_marked m j))"
proof -
  let ?i = "off div LINE_SIZE"
  have i: "?i div 64 < length (bitmap_words m)"
    using assms by (simp add: LineMap_valid_def const_simps div_less_iff_less_mult)
  show ?thesis
    using assms i words_bit_and_not [OF i]
    by (cases "LineMap_marked m ?i")
      (auto simp: LineMap_clear_def LineMap_valid_def LineMap_marked_def words_bit_def Let_def
        LineMap_offset_to_index_def LineMap_offset_to_mask_def and_mask_bit_zero and_mask_bit)
qed

text \<open>
  \<open>LineMap_put x line b m\<close> is the call \<open>set\<close> (\<open>x\<close> true) or \<open>clear\<close> at the address of \<open>line\<close> in the
  block at \<open>b\<close>, the shape in which \<open>ImmixBlock\<close> uses the map.
\<close>

definition LineMap_put :: "usize \<Rightarrow> bool \<Rightarrow> nat \<Rightarrow> LineMap \<Rightarrow> LineMap option" where
  "LineMap_put b x line m =
     map_option snd (if x then LineMap_set m (b + line * LINE_SIZE) b
                     else LineMap_clear m (b + line * LINE_SIZE) b)"

definition LineMap_test_line :: "usize \<Rightarrow> nat \<Rightarrow> LineMap \<Rightarrow> bool option" where
  "LineMap_test_line b line m = LineMap_test m (b + line * LINE_SIZE) b"

lemma line_offset: "line < 256 \<Longrightarrow> line * LINE_SIZE < BLOCK_SIZE \<and> line * LINE_SIZE div LINE_SIZE = line"
  by (simp add: const_simps)

lemma LineMap_put_line:
  assumes "LineMap_valid m" and "line < 256"
  shows "\<exists>m'. LineMap_put b x line m = Some m' \<and> LineMap_valid m' \<and>
    (\<forall>j. LineMap_marked m' j = (if j = line then x else LineMap_marked m j))"
  using LineMap_set_offset [OF assms(1), of "line * LINE_SIZE" b]
    LineMap_clear_offset [OF assms(1), of "line * LINE_SIZE" b] line_offset [OF assms(2)]
  by (cases x) (auto simp: LineMap_put_def)

lemma LineMap_test_line_eq:
  "LineMap_valid m \<Longrightarrow> line < 256 \<Longrightarrow> LineMap_test_line b line m = Some (LineMap_marked m line)"
  using line_offset [of line] by (simp add: LineMap_test_line_def LineMap_test_offset)

interpretation lines: bit_table LineMap_valid "\<lambda>_. NUM_LINES_PER_BLOCK" LineMap_marked
  "LineMap_test_line b" "LineMap_put b" for b :: usize
proof
  fix m m' i j x
  assume v: "LineMap_valid m" and i: "i < NUM_LINES_PER_BLOCK"
  then show "LineMap_test_line b i m = Some (LineMap_marked m i)"
    by (simp add: LineMap_test_line_eq)
  have i': "i < 256" using i by simp
  note put = LineMap_put_line [OF v i', of b x]
  show "\<exists>m'. LineMap_put b x i m = Some m'" using put by blast
  assume "LineMap_put b x i m = Some m'"
  then show "LineMap_valid m'" "LineMap_marked m' j = (if j = i then x else LineMap_marked m j)"
    using put by auto
qed simp

section \<open>Properties\<close>

text \<open>
  a line map behaves as a set of line numbers. For a well-formed map and a byte offset into the
  block, \<open>test\<close> reads the membership of the offset's line, \<open>set\<close> and \<open>clear\<close> add and remove exactly
  that line and report whether they changed the map; an offset outside the block panics.
\<close>

lemma line_map_refines_set:
  assumes "LineMap_valid m"
  shows "LineMap_test m (b + off) b
      = (if off < BLOCK_SIZE then Some (LineMap_marked m (off div LINE_SIZE)) else None) \<and>
    (off < BLOCK_SIZE \<longrightarrow>
      (\<exists>m'. LineMap_set m (b + off) b = Some (\<not> LineMap_marked m (off div LINE_SIZE), m') \<and>
        LineMap_valid m' \<and>
        Collect (LineMap_marked m') = insert (off div LINE_SIZE) (Collect (LineMap_marked m))) \<and>
      (\<exists>m'. LineMap_clear m (b + off) b = Some (LineMap_marked m (off div LINE_SIZE), m') \<and>
        LineMap_valid m' \<and>
        Collect (LineMap_marked m') = Collect (LineMap_marked m) - {off div LINE_SIZE}))"
proof (intro conjI impI)
  show "LineMap_test m (b + off) b
      = (if off < BLOCK_SIZE then Some (LineMap_marked m (off div LINE_SIZE)) else None)"
    using assms by (rule LineMap_test_offset)
  assume "off < BLOCK_SIZE"
  note s = LineMap_set_offset [OF assms this, of b] and c = LineMap_clear_offset [OF assms this, of b]
  from s show "\<exists>m'. LineMap_set m (b + off) b = Some (\<not> LineMap_marked m (off div LINE_SIZE), m') \<and>
      LineMap_valid m' \<and>
      Collect (LineMap_marked m') = insert (off div LINE_SIZE) (Collect (LineMap_marked m))"
    by (auto simp: set_eq_iff)
  from c show "\<exists>m'. LineMap_clear m (b + off) b = Some (LineMap_marked m (off div LINE_SIZE), m') \<and>
      LineMap_valid m' \<and>
      Collect (LineMap_marked m') = Collect (LineMap_marked m) - {off div LINE_SIZE}"
    by (auto simp: set_eq_iff)
qed

end
