(* ===== verification/Object.thy ===== *)
theory Object
  imports Util
begin

unbundle bit_operations_syntax

text \<open>
  Objects (\<open>src/object.rs\<close>): the one-word header \<open>RawGc\<close> with its tag bits (bit 0 the mark, bit 1
  forwarded, bit 2 pinned), the run-time type information \<open>GCRTTI\<close> and the size of an object.

  Memory is a function from addresses to the 64-bit word stored there. The RTTI of a type is supplied
  by the user of the library, so \<open>rtti_table\<close>, which says what \<open>GCRTTI\<close> a vtable address stands for,
  is a parameter: \<open>heap_size\<close> computes the size of an object from memory, \<open>visit_references\<close> lists the
  addresses of the slots it passes to the tracer, in order.
\<close>

type_synonym memory = "usize \<Rightarrow> u64"

record GCRTTI =
  heap_size :: "memory \<Rightarrow> usize \<Rightarrow> usize"
  visit_references :: "memory \<Rightarrow> usize \<Rightarrow> usize list"
  needs_finalization :: bool
  finalizer :: "(usize \<Rightarrow> memory \<Rightarrow> memory) option"

type_synonym rtti_table = "usize \<Rightarrow> GCRTTI"

record RawGc =
  vtable :: TaggedPointer

section \<open>The header\<close>

definition RawGc_new :: "usize \<Rightarrow> RawGc" where
  "RawGc_new v = \<lparr>vtable = TaggedPointer_new (of_nat v)\<rparr>"

definition RawGc_mark :: "RawGc \<Rightarrow> bool \<Rightarrow> bool \<times> RawGc" where
  "RawGc_mark r mark =
     (let prev = TaggedPointer_bit_is_set (vtable r) 0
      in (prev = mark, r\<lparr>vtable := TaggedPointer_set_bit_x (vtable r) mark 0\<rparr>))"

definition RawGc_get_mark :: "RawGc \<Rightarrow> bool" where
  "RawGc_get_mark r = TaggedPointer_bit_is_set (vtable r) 0"

definition RawGc_pin :: "RawGc \<Rightarrow> RawGc" where
  "RawGc_pin r = r\<lparr>vtable := TaggedPointer_set_bit (vtable r) 2\<rparr>"

definition RawGc_is_pinned :: "RawGc \<Rightarrow> bool" where
  "RawGc_is_pinned r = TaggedPointer_bit_is_set (vtable r) 2"

definition RawGc_unpin :: "RawGc \<Rightarrow> RawGc" where
  "RawGc_unpin r = r\<lparr>vtable := TaggedPointer_clear_bit (vtable r) 2\<rparr>"

definition RawGc_is_forwarded :: "RawGc \<Rightarrow> bool" where
  "RawGc_is_forwarded r = TaggedPointer_bit_is_set (vtable r) 1"

definition RawGc_set_forwarded :: "RawGc \<Rightarrow> usize \<Rightarrow> RawGc" where
  "RawGc_set_forwarded r addr =
     r\<lparr>vtable := TaggedPointer_set_bit (TaggedPointer_new (of_nat addr)) 1\<rparr>"

definition RawGc_vtable :: "RawGc \<Rightarrow> usize" where
  "RawGc_vtable r = unat (TaggedPointer_untagged (vtable r))"

text \<open>The header at an address of memory, and the store of a header.\<close>

definition RawGc_at :: "memory \<Rightarrow> usize \<Rightarrow> RawGc" where
  "RawGc_at mem a = \<lparr>vtable = \<lparr>raw = mem a\<rparr>\<rparr>"

definition put_header :: "usize \<Rightarrow> RawGc \<Rightarrow> memory \<Rightarrow> memory" where
  "put_header a r mem = mem(a := raw (vtable r))"

section \<open>Type information and sizes\<close>

definition RawGc_rtti :: "rtti_table \<Rightarrow> RawGc \<Rightarrow> GCRTTI" where
  "RawGc_rtti T r = T (RawGc_vtable r)"

definition object_size :: "rtti_table \<Rightarrow> memory \<Rightarrow> usize \<Rightarrow> usize" where
  "object_size T mem a = align_usize (heap_size (RawGc_rtti T (RawGc_at mem a)) mem a) 16"

definition RawGc_data :: "usize \<Rightarrow> usize" where
  "RawGc_data a = a + 8"

definition Gc_from_raw :: "usize \<Rightarrow> usize option" where
  "Gc_from_raw p = usub p 8"

text \<open>
  The two forms of the macro \<open>make_rtti_for!\<close> for a type whose \<open>HeapObject\<close> methods are
  \<open>obj_heap_size\<close>, \<open>obj_visit\<close> and whose destructor is \<open>drop_fn\<close>: the plain form reports the size of the
  value plus the header, the \<open>finalize\<close> form the size of the value alone.
\<close>

definition make_rtti_for ::
    "(memory \<Rightarrow> usize \<Rightarrow> usize) \<Rightarrow> (memory \<Rightarrow> usize \<Rightarrow> usize list) \<Rightarrow>
     (usize \<Rightarrow> memory \<Rightarrow> memory) \<Rightarrow> GCRTTI" where
  "make_rtti_for obj_heap_size obj_visit drop_fn =
     \<lparr>heap_size = (\<lambda>mem data. obj_heap_size mem (data + 8) + 8),
      visit_references = (\<lambda>mem data. obj_visit mem (data + 8)),
      needs_finalization = False,
      finalizer = Some (\<lambda>data. drop_fn (data + 8))\<rparr>"

definition make_rtti_for_finalize ::
    "(memory \<Rightarrow> usize \<Rightarrow> usize) \<Rightarrow> (memory \<Rightarrow> usize \<Rightarrow> usize list) \<Rightarrow>
     (usize \<Rightarrow> memory \<Rightarrow> memory) \<Rightarrow> GCRTTI" where
  "make_rtti_for_finalize obj_heap_size obj_visit drop_fn =
     \<lparr>heap_size = (\<lambda>mem data. obj_heap_size mem (data + 8)),
      visit_references = (\<lambda>mem data. obj_visit mem (data + 8)),
      needs_finalization = True,
      finalizer = Some (\<lambda>data. drop_fn (data + 8))\<rparr>"

text \<open>A type of 16-byte objects without references or finalizer, for the witnesses.\<close>

definition sample_rtti :: rtti_table where
  "sample_rtti = (\<lambda>_. \<lparr>heap_size = (\<lambda>_ _. 16), visit_references = (\<lambda>_ _. []), needs_finalization = False, finalizer = None\<rparr>)"

section \<open>Lemmas\<close>

lemmas RawGc_ops = RawGc_mark_def RawGc_get_mark_def RawGc_pin_def RawGc_is_pinned_def
  RawGc_unpin_def RawGc_is_forwarded_def RawGc_set_forwarded_def RawGc_vtable_def RawGc_new_def
  TaggedPointer_bit_is_set_def TaggedPointer_set_bit_def TaggedPointer_clear_bit_def
  TaggedPointer_untagged_def TaggedPointer_new_def

lemma RawGc_mark_simps [simp]:
  "RawGc_get_mark (snd (RawGc_mark r m)) = m"
  "RawGc_is_pinned (snd (RawGc_mark r m)) = RawGc_is_pinned r"
  "RawGc_is_forwarded (snd (RawGc_mark r m)) = RawGc_is_forwarded r"
  "RawGc_vtable (snd (RawGc_mark r m)) = RawGc_vtable r"
  "fst (RawGc_mark r m) = (RawGc_get_mark r = m)"
  by (auto simp: RawGc_ops Let_def bit_set_bit_x)

lemma RawGc_pin_simps [simp]:
  "RawGc_is_pinned (RawGc_pin r)"
  "RawGc_get_mark (RawGc_pin r) = RawGc_get_mark r"
  "RawGc_is_forwarded (RawGc_pin r) = RawGc_is_forwarded r"
  "RawGc_vtable (RawGc_pin r) = RawGc_vtable r"
  by (auto simp: RawGc_ops bit_with_bit)

lemma RawGc_unpin_simps [simp]:
  "\<not> RawGc_is_pinned (RawGc_unpin r)"
  "RawGc_get_mark (RawGc_unpin r) = RawGc_get_mark r"
  "RawGc_is_forwarded (RawGc_unpin r) = RawGc_is_forwarded r"
  "RawGc_vtable (RawGc_unpin r) = RawGc_vtable r"
  by (auto simp: RawGc_ops bit_without_bit)

lemma RawGc_set_forwarded_simps:
  "RawGc_is_forwarded (RawGc_set_forwarded r a)"
  "8 dvd a \<Longrightarrow> a < 2 ^ 64 \<Longrightarrow> RawGc_vtable (RawGc_set_forwarded r a) = a"
  by (auto simp: RawGc_ops bit_with_bit untagged_aligned unat_of_nat)

lemma RawGc_new_vtable: "8 dvd v \<Longrightarrow> v < 2 ^ 64 \<Longrightarrow> RawGc_vtable (RawGc_new v) = v"
  by (simp add: RawGc_ops untagged_aligned unat_of_nat)

lemma RawGc_at_put_header [simp]:
  "RawGc_at (put_header a r mem) a = r"
  "b \<noteq> a \<Longrightarrow> RawGc_at (put_header a r mem) b = RawGc_at mem b"
  by (simp_all add: RawGc_at_def put_header_def)

lemma object_size_dvd [simp]: "16 dvd object_size T mem a"
  by (simp add: object_size_def)

section \<open>Properties\<close>



end
