(* ===== verification/Block.thy ===== *)
theory Block
  imports Line_Map Object
begin

unbundle bit_operations_syntax

text \<open>
  \<open>ImmixBlock\<close> of \<open>src/block.rs\<close>: the header at the start of each 32 KiB block, the search for holes
  (\<open>scan_block\<close>), the marking of the lines of an object and the hole and line counts. A method takes the
  address \<open>b\<close> of the block (\<open>self.begin()\<close>) and the header; \<open>None\<close> is a panic.
\<close>

record ImmixBlock =
  line_map :: LineMap
  allocated :: bool
  hole_count :: u32
  evacuation_candidate :: bool

text \<open>The size of the \<open>repr(C)\<close> struct: 32 bytes of bitmap, a \<open>bool\<close>, a \<open>u32\<close> and a \<open>bool\<close>, padded to 8.\<close>

definition size_of_ImmixBlock :: usize where
  [const_simps]: "size_of_ImmixBlock = 48"

definition ImmixBlock_get_block_ptr :: "Address \<Rightarrow> usize" where
  "ImmixBlock_get_block_ptr object = object - object mod BLOCK_SIZE"

definition ImmixBlock_new :: ImmixBlock where
  "ImmixBlock_new = \<lparr>line_map = LineMap_new, allocated = False, hole_count = 0,
     evacuation_candidate = False\<rparr>"

definition ImmixBlock_is_in_block :: "usize \<Rightarrow> ImmixBlock \<Rightarrow> Address \<Rightarrow> bool" where
  "ImmixBlock_is_in_block b blk p =
     (if allocated blk then b < p \<and> p \<le> b + BLOCK_SIZE else False)"

partial_function (option) ImmixBlock_scan_block ::
    "usize \<Rightarrow> ImmixBlock \<Rightarrow> u16 \<Rightarrow> (u16 \<times> u16) option option" where
  "ImmixBlock_scan_block b blk last_high_offset = do {
     let last_high_index = last_high_offset div LINE_SIZE;
     found_low \<leftarrow> for_find (\<lambda>index. map_option Not (LineMap_test_line b index (line_map blk)))
                    [last_high_index + 1..<NUM_LINES_PER_BLOCK];
     let low_index = (case found_low of None \<Rightarrow> NUM_LINES_PER_BLOCK - 1 | Some index \<Rightarrow> index + 1);
     found_high \<leftarrow> for_find (\<lambda>index. LineMap_test_line b index (line_map blk))
                     [low_index..<NUM_LINES_PER_BLOCK];
     let high_index = (case found_high of None \<Rightarrow> NUM_LINES_PER_BLOCK | Some index \<Rightarrow> index);
     if low_index = high_index \<and> high_index \<noteq> NUM_LINES_PER_BLOCK - 1
     then ImmixBlock_scan_block b blk (as_u16 (high_index * LINE_SIZE - 1))
     else if low_index < NUM_LINES_PER_BLOCK - 1
     then Some (Some (as_u16 (align_usize (low_index * LINE_SIZE) 16),
                      as_u16 (high_index * LINE_SIZE - 1)))
     else Some None }"

definition ImmixBlock_count_holes :: "usize \<Rightarrow> ImmixBlock \<Rightarrow> (usize \<times> ImmixBlock) option" where
  "ImmixBlock_count_holes b blk = do {
     (holes, in_hole) \<leftarrow> for_each (\<lambda>i s. do {
         t \<leftarrow> LineMap_test_line b i (line_map blk);
         Some (case s of (holes, in_hole) \<Rightarrow>
           if \<not> in_hole \<and> \<not> t then (holes + 1, True) else (holes, False)) })
       [0..<NUM_LINES_PER_BLOCK] (0, False);
     Some (holes, blk\<lparr>hole_count := holes\<rparr>) }"

definition ImmixBlock_offset :: "usize \<Rightarrow> usize \<Rightarrow> Address" where
  "ImmixBlock_offset b offset = b + offset"

definition ImmixBlock_is_empty :: "usize \<Rightarrow> ImmixBlock \<Rightarrow> bool option" where
  "ImmixBlock_is_empty b blk = do {
     found \<leftarrow> for_find (\<lambda>i. LineMap_test_line b i (line_map blk)) [0..<NUM_LINES_PER_BLOCK];
     Some (found = None) }"

definition ImmixBlock_object_to_line_num :: "Address \<Rightarrow> usize" where
  "ImmixBlock_object_to_line_num object = (object mod BLOCK_SIZE) div LINE_SIZE"

definition ImmixBlock_modify_line ::
    "rtti_table \<Rightarrow> memory \<Rightarrow> usize \<Rightarrow> Address \<Rightarrow> bool \<Rightarrow> ImmixBlock \<Rightarrow> ImmixBlock option" where
  "ImmixBlock_modify_line T mem b object mark blk = do {
     let line_num = ImmixBlock_object_to_line_num object;
     let sz = object_size T mem object;
     lm \<leftarrow> for_each (LineMap_put b mark) [line_num..<line_num + sz div LINE_SIZE + 1] (line_map blk);
     Some (blk\<lparr>line_map := lm\<rparr>) }"

definition ImmixBlock_line_object_mark ::
    "rtti_table \<Rightarrow> memory \<Rightarrow> usize \<Rightarrow> Address \<Rightarrow> ImmixBlock \<Rightarrow> ImmixBlock option" where
  "ImmixBlock_line_object_mark T mem b object blk = ImmixBlock_modify_line T mem b object True blk"

definition ImmixBlock_line_object_unmark ::
    "rtti_table \<Rightarrow> memory \<Rightarrow> usize \<Rightarrow> Address \<Rightarrow> ImmixBlock \<Rightarrow> ImmixBlock option" where
  "ImmixBlock_line_object_unmark T mem b object blk = ImmixBlock_modify_line T mem b object False blk"

definition ImmixBlock_line_is_marked :: "usize \<Rightarrow> ImmixBlock \<Rightarrow> usize \<Rightarrow> bool option" where
  "ImmixBlock_line_is_marked b blk line = LineMap_test (line_map blk) (b + line * LINE_SIZE) b"

definition ImmixBlock_count_holes_and_marked_lines ::
    "usize \<Rightarrow> ImmixBlock \<Rightarrow> (usize \<times> usize) option" where
  "ImmixBlock_count_holes_and_marked_lines b blk = do {
     count \<leftarrow> for_each (\<lambda>line count. do {
         t \<leftarrow> LineMap_test_line b line (line_map blk);
         Some (if t then count + 1 else count) }) [0..<NUM_LINES_PER_BLOCK] 0;
     Some (hole_count blk, count) }"

definition ImmixBlock_count_holes_and_available_lines ::
    "usize \<Rightarrow> ImmixBlock \<Rightarrow> (usize \<times> usize) option" where
  "ImmixBlock_count_holes_and_available_lines b blk = do {
     count \<leftarrow> for_each (\<lambda>line count. do {
         t \<leftarrow> LineMap_test_line b line (line_map blk);
         Some (if \<not> t then count + 1 else count) }) [0..<NUM_LINES_PER_BLOCK] 0;
     Some (hole_count blk, count) }"

definition ImmixBlock_reset :: "ImmixBlock \<Rightarrow> ImmixBlock" where
  "ImmixBlock_reset blk = blk\<lparr>line_map := LineMap_clear_all (line_map blk), allocated := False,
     hole_count := 0, evacuation_candidate := False\<rparr>"

section \<open>Searching for holes\<close>

abbreviation block_valid :: "ImmixBlock \<Rightarrow> bool" where
  "block_valid blk \<equiv> LineMap_valid (line_map blk)"

abbreviation line_marked :: "ImmixBlock \<Rightarrow> nat \<Rightarrow> bool" where
  "line_marked blk \<equiv> LineMap_marked (line_map blk)"

text \<open>
  \<open>hole_at M s lo hi\<close>: the lines \<open>lo - 1, \<dots>, hi - 1\<close> after line \<open>s\<close> are all unmarked and end at a
  marked line or at the end of the block, and no earlier line after \<open>s\<close> starts two unmarked lines.
\<close>

definition hole_at :: "(nat \<Rightarrow> bool) \<Rightarrow> nat \<Rightarrow> nat \<Rightarrow> nat \<Rightarrow> bool" where
  "hole_at M s lo hi \<longleftrightarrow> s + 2 \<le> lo \<and> lo < 255 \<and> lo < hi \<and> hi \<le> 256 \<and>
     (\<forall>i. lo - 1 \<le> i \<and> i < hi \<longrightarrow> \<not> M i) \<and> (hi < 256 \<longrightarrow> M hi) \<and>
     (\<forall>i. s < i \<and> i < lo - 1 \<longrightarrow> M i \<or> M (i + 1))"

definition no_hole_after :: "(nat \<Rightarrow> bool) \<Rightarrow> nat \<Rightarrow> bool" where
  "no_hole_after M s \<longleftrightarrow> (\<forall>i. s < i \<and> i < 254 \<longrightarrow> M i \<or> M (i + 1))"

lemma scan_block_unfold:
  assumes "block_valid blk"
  shows "ImmixBlock_scan_block b blk off =
    (let M = line_marked blk; s = off div 128;
         low = (case List.find (\<lambda>i. \<not> M i) [s + 1..<256] of None \<Rightarrow> 255 | Some index \<Rightarrow> index + 1);
         high = (case List.find M [low..<256] of None \<Rightarrow> 256 | Some index \<Rightarrow> index)
     in if low = high \<and> high \<noteq> 255 then ImmixBlock_scan_block b blk (high * 128 - 1)
        else if low < 255 then Some (Some (low * 128, high * 128 - 1)) else Some None)"
proof -
  have f1: "for_find (\<lambda>index. map_option Not (LineMap_test_line b index (line_map blk))) [n..<256]
      = Some (List.find (\<lambda>i. \<not> line_marked blk i) [n..<256])" for n
    by (rule lines.for_find_unmarked) (use assms in auto)
  have f2: "for_find (\<lambda>index. LineMap_test_line b index (line_map blk)) [n..<256]
      = Some (List.find (line_marked blk) [n..<256])" for n
    by (rule lines.for_find_marked) (use assms in auto)
  define low where "low = (case List.find (\<lambda>i. \<not> line_marked blk i) [off div 128 + 1..<256] of
      None \<Rightarrow> 255 | Some index \<Rightarrow> index + 1)"
  define high where "high = (case List.find (line_marked blk) [low..<256] of
      None \<Rightarrow> 256 | Some index \<Rightarrow> index)"
  have n: "256 - 1 = (255::nat)" by simp
  have le: "low \<le> 256" "high \<le> 256"
    by (auto simp: low_def high_def find_upt_Some split: option.split)
  have "ImmixBlock_scan_block b blk off =
      (if low = high \<and> high \<noteq> 255 then ImmixBlock_scan_block b blk (as_u16 (high * 128 - 1))
       else if low < 255 then Some (Some (as_u16 (align_usize (low * 128) 16), as_u16 (high * 128 - 1)))
       else Some None)"
    by (subst ImmixBlock_scan_block.simps)
      (simp only: LINE_SIZE_def num_lines f1 f2 n Let_def Option.bind.bind_lunit low_def high_def)
  moreover have "align_usize (low * 128) 16 = low * 128"
    by (rule align_usize_16_id) (use le in auto)
  moreover have "as_u16 (low * 128) = low * 128" "as_u16 (high * 128 - 1) = high * 128 - 1"
    using le by auto
  ultimately show ?thesis
    by (simp only: Let_def low_def [symmetric] high_def [symmetric])
qed

definition scan_result :: "(nat \<Rightarrow> bool) \<Rightarrow> nat \<Rightarrow> (u16 \<times> u16) option \<Rightarrow> bool" where
  "scan_result M s r \<longleftrightarrow>
     (case r of None \<Rightarrow> no_hole_after M s
      | Some (lo_off, hi_off) \<Rightarrow> \<exists>lo hi. lo_off = lo * 128 \<and> hi_off = hi * 128 - 1 \<and> hole_at M s lo hi)"

lemma scan_result_extend:
  assumes "\<forall>j. s < j \<and> j < i \<longrightarrow> M j" and "M (i + 1) \<or> i = 255" and "s < i" and "scan_result M i r"
  shows "scan_result M s r"
proof -
  have step: "M j \<or> M (j + 1)" if "s < j" "j < 254" "i < j \<longrightarrow> M j \<or> M (j + 1)" for j
    using assms(1,2) that by (cases i j rule: linorder_cases) auto
  have "hole_at M s lo hi" if h: "hole_at M i lo hi" for lo hi
  proof -
    have "M j \<or> M (j + 1)" if "s < j" "j < lo - 1" for j
      by (rule step) (use that h in \<open>auto simp: hole_at_def\<close>)
    then show ?thesis using h assms(3) by (simp add: hole_at_def)
  qed
  moreover have "no_hole_after M s" if "no_hole_after M i"
    using that step by (simp add: no_hole_after_def)
  ultimately show ?thesis
    using assms(4) by (auto simp: scan_result_def split: option.splits)
qed

text \<open>The search from the line \<open>off div 128\<close> on, when the first unmarked line after it is \<open>i\<close>: the hole found, or the next search.\<close>

lemma scan_block_to_end:
  assumes "block_valid blk" and find: "List.find (\<lambda>i. \<not> line_marked blk i) [off div 128 + 1..<256] = Some i"
    "List.find (line_marked blk) [i + 1..<256] = None"
    and IH: "i = 255 \<Longrightarrow> \<exists>r. ImmixBlock_scan_block b blk 32767 = Some r \<and> scan_result (line_marked blk) 255 r"
  shows "\<exists>r. ImmixBlock_scan_block b blk off = Some r \<and> scan_result (line_marked blk) (off div 128) r"
proof -
  let ?M = "line_marked blk" and ?s = "off div 128"
  have i: "?s < i" "i < 256" "\<not> ?M i" and before: "\<forall>j. ?s < j \<and> j < i \<longrightarrow> ?M j" and rest: "\<forall>j. i < j \<and> j < 256 \<longrightarrow> \<not> ?M j"
    using find by (auto simp: find_upt_Some find_upt_None Suc_le_eq)
  note unfold = scan_block_unfold [OF assms(1), of b off]
  show ?thesis
  proof (cases "i = 255")
    case True
    then show ?thesis using find before i IH scan_result_extend [of ?s 255 ?M] by (auto simp: unfold Let_def)
  next
    case False
    then have "hole_at ?M ?s (i + 1) 256 \<or> i = 254" using i rest before by (auto simp: hole_at_def le_less)
    then show ?thesis using False find before i by (auto simp: unfold Let_def no_hole_after_def scan_result_def)
  qed
qed

lemma scan_block_to_mark:
  assumes "block_valid blk" and find: "List.find (\<lambda>i. \<not> line_marked blk i) [off div 128 + 1..<256] = Some i"
    "List.find (line_marked blk) [i + 1..<256] = Some h"
    and IH: "h = i + 1 \<Longrightarrow> h \<noteq> 255 \<Longrightarrow>
      \<exists>r. ImmixBlock_scan_block b blk (h * 128 - 1) = Some r \<and> scan_result (line_marked blk) i r"
  shows "\<exists>r. ImmixBlock_scan_block b blk off = Some r \<and> scan_result (line_marked blk) (off div 128) r"
proof -
  let ?M = "line_marked blk" and ?s = "off div 128"
  have i: "?s < i" "i < 256" "\<not> ?M i" and before: "\<forall>j. ?s < j \<and> j < i \<longrightarrow> ?M j"
    and h: "i < h" "h < 256" "?M h" and between: "\<forall>j. i < j \<and> j < h \<longrightarrow> \<not> ?M j"
    using find by (auto simp: find_upt_Some Suc_le_eq)
  note unfold = scan_block_unfold [OF assms(1), of b off]
  show ?thesis
  proof (cases "h = i + 1 \<and> h \<noteq> 255")
    case True
    then obtain r where "ImmixBlock_scan_block b blk (h * 128 - 1) = Some r" "scan_result ?M i r" using IH by blast
    then show ?thesis using True find before i h scan_result_extend [of ?s i ?M r] by (simp add: unfold Let_def)
  next
    case False
    then have "hole_at ?M ?s (i + 1) h \<or> i = 254" using i h between before by (auto simp: hole_at_def le_less)
    then show ?thesis using False find before i h by (auto simp: unfold Let_def no_hole_after_def scan_result_def)
  qed
qed

lemma scan_block_spec:
  assumes "block_valid blk"
  shows "\<exists>r. ImmixBlock_scan_block b blk off = Some r \<and> scan_result (line_marked blk) (off div 128) r"
proof (induction "256 - off div 128" arbitrary: off rule: less_induct)
  case less
  let ?M = "line_marked blk" and ?s = "off div 128"
  show ?case
  proof (cases "List.find (\<lambda>i. \<not> ?M i) [?s + 1..<256]")
    case None
    then have "\<forall>i. ?s < i \<and> i < 256 \<longrightarrow> ?M i" by (auto simp: find_upt_None)
    moreover have "[255..<256] = [255::nat]" by (simp add: upt_rec)
    ultimately show ?thesis
      using None by (auto simp: scan_block_unfold [OF assms, of b off] no_hole_after_def scan_result_def Let_def)
  next
    case (Some i)
    then have i: "?s < i" "i < 256" by (auto simp: find_upt_Some)
    show ?thesis
    proof (cases "List.find ?M [i + 1..<256]")
      case None
      then show ?thesis by (rule scan_block_to_end [OF assms Some]) (use less.hyps [of 32767] i in simp)
    next
      case (Some h)
      then show ?thesis by (rule scan_block_to_mark [OF assms \<open>List.find (\<lambda>i. \<not> ?M i) [?s + 1..<256] = Some i\<close>])
        (use less.hyps [of "h * 128 - 1"] i in simp)
    qed
  qed
qed

section \<open>The lines of an object\<close>

abbreviation object_lines :: "usize \<Rightarrow> usize \<Rightarrow> nat set" where
  "object_lines a sz \<equiv>
     {ImmixBlock_object_to_line_num a..ImmixBlock_object_to_line_num a + sz div LINE_SIZE}"

text \<open>An object that ends before the last byte of its block has its lines inside the block.\<close>

definition object_in_block :: "usize \<Rightarrow> usize \<Rightarrow> usize \<Rightarrow> bool" where
  "object_in_block b a sz \<longleftrightarrow> BLOCK_SIZE dvd b \<and> b \<le> a \<and> a + sz < b + BLOCK_SIZE"

lemma object_in_block_line:
  assumes "object_in_block b a sz"
  shows "ImmixBlock_object_to_line_num a = (a - b) div 128"
    and "ImmixBlock_object_to_line_num a + sz div LINE_SIZE < 256"
    and "ImmixBlock_get_block_ptr a = b"
proof -
  obtain k where b: "b = BLOCK_SIZE * k" using assms by (auto simp: object_in_block_def)
  have "a mod BLOCK_SIZE = (b + (a - b)) mod BLOCK_SIZE" using assms by (simp add: object_in_block_def)
  also have "\<dots> = (a - b) mod BLOCK_SIZE" by (simp add: b)
  also have "\<dots> = a - b" using assms by (auto simp: object_in_block_def const_simps)
  finally have m: "a mod BLOCK_SIZE = a - b" .
  then show l: "ImmixBlock_object_to_line_num a = (a - b) div 128"
    by (simp add: ImmixBlock_object_to_line_num_def LINE_SIZE_def)
  have "(a - b) + sz < 32768" using assms by (auto simp: object_in_block_def const_simps)
  then show "ImmixBlock_object_to_line_num a + sz div LINE_SIZE < 256"
    unfolding l by (simp add: LINE_SIZE_def)
  show "ImmixBlock_get_block_ptr a = b"
    using m assms by (simp add: ImmixBlock_get_block_ptr_def object_in_block_def)
qed

lemma modify_line_spec:
  assumes "block_valid blk"
    and "ImmixBlock_object_to_line_num a + object_size T mem a div LINE_SIZE < 256"
  shows "\<exists>lm. ImmixBlock_modify_line T mem b a mk blk = Some (blk\<lparr>line_map := lm\<rparr>) \<and>
    LineMap_valid lm \<and>
    (\<forall>j. LineMap_marked lm j =
      (if j \<in> object_lines a (object_size T mem a) then mk else line_marked blk j))"
proof -
  let ?is = "[ImmixBlock_object_to_line_num a..<
      ImmixBlock_object_to_line_num a + object_size T mem a div LINE_SIZE + 1]"
  have "\<forall>i \<in> set ?is. i < NUM_LINES_PER_BLOCK" using assms(2) by auto
  from lines.put_range [OF assms(1) this, of b mk] obtain lm where
    "for_each (LineMap_put b mk) ?is (line_map blk) = Some lm" "LineMap_valid lm"
    "\<forall>j. LineMap_marked lm j = (if j \<in> set ?is then mk else line_marked blk j)" by blast
  then show ?thesis
    by (intro exI [of _ lm]) (auto simp: ImmixBlock_modify_line_def Let_def less_Suc_eq_le)
qed

lemma line_object_mark_spec:
  assumes "block_valid blk" and "object_in_block b a (object_size T mem a)"
  shows "\<exists>lm. ImmixBlock_line_object_mark T mem b a blk = Some (blk\<lparr>line_map := lm\<rparr>) \<and>
    LineMap_valid lm \<and>
    (\<forall>j. LineMap_marked lm j = (j \<in> object_lines a (object_size T mem a) \<or> line_marked blk j))"
  using modify_line_spec [OF assms(1), of a T mem b True] object_in_block_line [OF assms(2)]
  by (simp add: ImmixBlock_line_object_mark_def) (metis (full_types))

text \<open>
  A hole starts one line after the first unmarked line, so a hole never meets an object whose first
  \<open>size / LINE_SIZE + 1\<close> lines are marked, although the object can reach one line further.
\<close>

lemma object_byte_marked:
  assumes "\<forall>l \<in> object_lines a sz. M l" and "object_in_block b a sz" and "a \<le> x" and "x < a + sz"
  shows "M ((x - b) div 128) \<or> M ((x - b) div 128 - 1)"
proof -
  let ?first = "(a - b) div 128" and ?n = "sz div 128" and ?l = "(x - b) div 128"
  have b: "b \<le> a" and l0: "ImmixBlock_object_to_line_num a = ?first"
    using assms(2) object_in_block_line(1) [OF assms(2)] by (auto simp: object_in_block_def)
  have ge: "?first \<le> ?l" using assms(3) by (intro div_le_mono) simp
  have "x - b \<le> (a - b) + sz" using assms(4) b by simp
  then have le: "?l - 1 \<le> ?first + ?n" by linarith
  have marked: "M i" if "?first \<le> i" "i \<le> ?first + ?n" for i
    using assms(1) that by (simp add: l0 LINE_SIZE_def)
  show ?thesis
  proof (cases "?l = ?first")
    case True
    then show ?thesis using marked [of ?l] by simp
  next
    case False
    then have "?first \<le> ?l - 1" using ge by linarith
    then show ?thesis using marked le by blast
  qed
qed

lemma hole_avoids_object:
  assumes "hole_at M s lo hi" and "\<forall>l \<in> object_lines a sz. M l" and "object_in_block b a sz"
  shows "{a..<a + sz} \<inter> {b + lo * 128..b + (hi * 128 - 1)} = {}"
proof (rule ccontr)
  assume "{a..<a + sz} \<inter> {b + lo * 128..b + (hi * 128 - 1)} \<noteq> {}"
  then obtain x where x: "a \<le> x" "x < a + sz" "b + lo * 128 \<le> x" "x \<le> b + (hi * 128 - 1)" by auto
  have hole: "lo - 1 \<le> i \<Longrightarrow> i < hi \<Longrightarrow> \<not> M i" for i using assms(1) by (auto simp: hole_at_def)
  have hi: "0 < hi" "2 \<le> lo" using assms(1) by (auto simp: hole_at_def)
  have "lo \<le> (x - b) div 128" "(x - b) div 128 < hi" using x hi by auto
  then have "\<not> M ((x - b) div 128)" "\<not> M ((x - b) div 128 - 1)" using hole hi by auto
  then show False using object_byte_marked [OF assms(2,3) x(1,2)] by blast
qed

section \<open>Counting\<close>

text \<open>The automaton of \<open>count_holes\<close> over the lines of a block, and the runs of unmarked lines.\<close>

fun count_step :: "bool \<Rightarrow> nat \<times> bool \<Rightarrow> nat \<times> bool" where
  "count_step t (holes, in_hole) = (if \<not> in_hole \<and> \<not> t then (holes + 1, True) else (holes, False))"

lemma length_dropWhile_less [termination_simp]: "length (dropWhile P xs) < Suc (length xs)"
  by (simp add: less_Suc_eq_le length_dropWhile_le)

fun unmarked_runs :: "bool list \<Rightarrow> nat list" where
  "unmarked_runs [] = []"
| "unmarked_runs (True # ts) = unmarked_runs ts"
| "unmarked_runs (False # ts) =
     Suc (length (takeWhile Not ts)) # unmarked_runs (dropWhile Not ts)"

lemma fold_count_run:
  "fold count_step (replicate k False) (h, False) = (h + (k + 1) div 2, odd k)"
  "fold count_step (replicate k False) (h, True) = (h + k div 2, even k)"
  by (induction k arbitrary: h) (auto elim: oddE evenE)

lemma fold_count_flag:
  "ts = [] \<or> hd ts \<Longrightarrow> fst (fold count_step ts (h, ih)) = fst (fold count_step ts (h, False))"
  by (cases ts) auto

lemma fold_count_runs:
  "fst (fold count_step ts (h, False)) = h + (\<Sum>n\<leftarrow>unmarked_runs ts. (n + 1) div 2)"
proof (induction ts arbitrary: h rule: unmarked_runs.induct)
  case (3 ts)
  let ?k = "length (takeWhile Not ts)" and ?rest = "dropWhile Not ts"
  have "takeWhile Not ts = replicate ?k False"
    by (metis (full_types) replicate_length_same set_takeWhileD)
  then have "False # ts = replicate (Suc ?k) False @ ?rest"
    by (metis append_Cons replicate_Suc takeWhile_dropWhile_id)
  then have "fst (fold count_step (False # ts) (h, False))
      = fst (fold count_step ?rest (h + (Suc ?k + 1) div 2, odd (Suc ?k)))"
    by (metis comp_apply fold_append fold_count_run(1))
  also have "\<dots> = fst (fold count_step ?rest (h + (Suc ?k + 1) div 2, False))"
    by (rule fold_count_flag) (metis hd_dropWhile)
  finally show ?case using 3 by simp
qed auto

lemma count_holes_eq:
  assumes "block_valid blk"
  shows "ImmixBlock_count_holes b blk =
    (let h = (\<Sum>n\<leftarrow>unmarked_runs (map (line_marked blk) [0..<256]). (n + 1) div 2)
     in Some (h, blk\<lparr>hole_count := h\<rparr>))"
proof -
  have "for_each (\<lambda>i s. do { t \<leftarrow> LineMap_test_line b i (line_map blk); Some (count_step t s) })
      [0..<256] (0, False) = Some (fold (\<lambda>i. count_step (line_marked blk i)) [0..<256] (0, False))"
    by (rule lines.for_each_test) (use assms in auto)
  moreover have "count_step t s = (case s of (holes, in_hole) \<Rightarrow>
      if \<not> in_hole \<and> \<not> t then (holes + 1, True) else (holes, False))" for t s
    by (cases s) simp
  moreover have "fold (\<lambda>i. count_step (line_marked blk i)) [0..<256] s
      = fold count_step (map (line_marked blk) [0..<256]) s" for s
    by (simp add: fold_map o_def)
  ultimately show ?thesis
    using fold_count_runs [of "map (line_marked blk) [0..<256]" 0]
    by (simp add: ImmixBlock_count_holes_def split_beta Let_def)
qed

lemma fold_count_filter:
  "fold (\<lambda>i c. if P i then c + 1 else c) is (c::nat) = c + length (filter P is)"
  by (induction "is" arbitrary: c) auto

lemma count_lines_eq:
  assumes "block_valid blk"
  shows "ImmixBlock_count_holes_and_marked_lines b blk
      = Some (hole_count blk, length (filter (line_marked blk) [0..<256]))"
    and "ImmixBlock_count_holes_and_available_lines b blk
      = Some (hole_count blk, length (filter (\<lambda>i. \<not> line_marked blk i) [0..<256]))"
proof -
  note each = lines.for_each_test [OF assms, of "[0..<256]" b]
  show "ImmixBlock_count_holes_and_marked_lines b blk
      = Some (hole_count blk, length (filter (line_marked blk) [0..<256]))"
    using each [of "\<lambda>t c. if t then c + 1 else c" "0::nat"]
    by (simp add: ImmixBlock_count_holes_and_marked_lines_def fold_count_filter)
  show "ImmixBlock_count_holes_and_available_lines b blk
      = Some (hole_count blk, length (filter (\<lambda>i. \<not> line_marked blk i) [0..<256]))"
    using each [of "\<lambda>t c. if \<not> t then c + 1 else c" "0::nat"]
    by (simp add: ImmixBlock_count_holes_and_available_lines_def fold_count_filter)
qed

lemma is_empty_eq:
  "block_valid blk \<Longrightarrow> ImmixBlock_is_empty b blk = Some (\<forall>i. \<not> line_marked blk i)"
  using lines.for_find_marked [of "line_map blk" "[0..<256]" b] LineMap_marked_less [of "line_map blk"]
  by (auto simp: ImmixBlock_is_empty_def find_upt_None)

lemma reset_simps [simp]:
  "block_valid (ImmixBlock_reset blk) = block_valid blk"
  "\<not> line_marked (ImmixBlock_reset blk) i"
  "\<not> allocated (ImmixBlock_reset blk)" "\<not> evacuation_candidate (ImmixBlock_reset blk)"
  "hole_count (ImmixBlock_reset blk) = 0"
  by (simp_all add: ImmixBlock_reset_def)

lemma new_block_simps [simp]:
  "block_valid ImmixBlock_new" "\<not> line_marked ImmixBlock_new i"
  by (simp_all add: ImmixBlock_new_def)

section \<open>Properties\<close>

text \<open>
  C18: the search for a hole always returns, without a panic. It answers \<open>None\<close> only when no two
  neighbouring lines after the start (the last two lines of the block apart) are both unmarked;
  otherwise it returns the byte range of the first run of at least two unmarked lines after the start,
  without the first line of the run, up to the next marked line or the end of the block.
\<close>

theorem scan_block_correct:
  assumes "LineMap_valid (line_map blk)"
  shows "\<exists>r. ImmixBlock_scan_block b blk off = Some r \<and>
    (case r of
       None \<Rightarrow> no_hole_after (LineMap_marked (line_map blk)) (off div LINE_SIZE)
     | Some (lo_off, hi_off) \<Rightarrow> \<exists>lo hi. lo_off = lo * LINE_SIZE \<and> hi_off = hi * LINE_SIZE - 1 \<and>
         hole_at (LineMap_marked (line_map blk)) (off div LINE_SIZE) lo hi)"
  using scan_block_spec [OF assms, of b off] unfolding scan_result_def LINE_SIZE_def .

theorem scan_block_correct_witness:
  "\<exists>lo hi. ImmixBlock_scan_block 65536 ImmixBlock_new 47 = Some (Some (lo * LINE_SIZE, hi * LINE_SIZE - 1)) \<and>
    hole_at (LineMap_marked (line_map ImmixBlock_new)) 0 lo hi"
proof -
  have "\<not> no_hole_after (LineMap_marked (line_map ImmixBlock_new)) 0"
    by (auto simp: no_hole_after_def intro: exI [of _ 1])
  moreover have "(47::nat) div LINE_SIZE = 0" by (simp add: LINE_SIZE_def)
  ultimately show ?thesis
    using scan_block_correct [OF new_block_simps(1), of 65536 47] by (auto split: option.splits)
qed

text \<open>
  C17: after the lines of any list of objects of a block have been marked, no hole that the search
  returns from any starting offset meets a byte of any of those objects. (The marking covers only
  \<open>size / LINE_SIZE + 1\<close> lines, which can miss the last line an object touches; the line that
  \<open>scan_block\<close> skips at the start of a hole makes up for it.)
\<close>

theorem marked_objects_outside_holes:
  assumes "LineMap_valid (line_map blk)"
    and "\<forall>a \<in> set os. object_in_block b a (object_size T mem a)"
  shows "\<exists>blk'. for_each (ImmixBlock_line_object_mark T mem b) os blk = Some blk' \<and>
    (\<forall>a off lo hi. a \<in> set os \<longrightarrow> ImmixBlock_scan_block b blk' off = Some (Some (lo, hi)) \<longrightarrow>
       {a..<a + object_size T mem a} \<inter> {b + lo..b + hi} = {})"
proof -
  have "\<exists>blk'. for_each (ImmixBlock_line_object_mark T mem b) os blk = Some blk' \<and> block_valid blk' \<and>
      (\<forall>a \<in> set os. \<forall>l \<in> object_lines a (object_size T mem a). line_marked blk' l) \<and>
      (\<forall>l. line_marked blk l \<longrightarrow> line_marked blk' l)"
    using assms
  proof (induction os arbitrary: blk)
    case (Cons a os)
    obtain lm where lm: "ImmixBlock_line_object_mark T mem b a blk = Some (blk\<lparr>line_map := lm\<rparr>)"
      "LineMap_valid lm"
      "\<forall>j. LineMap_marked lm j = (j \<in> object_lines a (object_size T mem a) \<or> line_marked blk j)"
      using line_object_mark_spec [of blk b a T mem] Cons.prems by auto
    with Cons.IH [of "blk\<lparr>line_map := lm\<rparr>"] Cons.prems(2) show ?case by fastforce
  qed simp
  then obtain blk' where blk': "for_each (ImmixBlock_line_object_mark T mem b) os blk = Some blk'"
    "block_valid blk'"
    "\<And>a. a \<in> set os \<Longrightarrow> \<forall>l \<in> object_lines a (object_size T mem a). line_marked blk' l" by blast
  have "{a..<a + object_size T mem a} \<inter> {b + lo..b + hi} = {}"
    if "a \<in> set os" and scan: "ImmixBlock_scan_block b blk' off = Some (Some (lo, hi))" for a off lo hi
  proof -
    obtain l h where "lo = l * 128" "hi = h * 128 - 1" "hole_at (line_marked blk') (off div 128) l h"
      using scan_block_spec [OF blk'(2), of b off] scan by (auto simp: scan_result_def)
    then show ?thesis
      using hole_avoids_object blk'(3) assms(2) that(1) by blast
  qed
  then show ?thesis using blk'(1) by blast
qed

theorem marked_objects_outside_holes_witness:
  "\<exists>blk'. for_each (ImmixBlock_line_object_mark
       (\<lambda>_. make_rtti_for (\<lambda>_ _. 40) (\<lambda>_ _. []) (\<lambda>_ mem. mem)) (\<lambda>_. 4096) 65536)
       [65536 + 496] ImmixBlock_new = Some blk' \<and>
     (\<forall>a off lo hi. a \<in> set [65536 + 496] \<longrightarrow>
       ImmixBlock_scan_block 65536 blk' off = Some (Some (lo, hi)) \<longrightarrow>
       {a..<a + object_size (\<lambda>_. make_rtti_for (\<lambda>_ _. 40) (\<lambda>_ _. []) (\<lambda>_ mem. mem)) (\<lambda>_. 4096) a}
         \<inter> {65536 + lo..65536 + hi} = {})"
  by (rule marked_objects_outside_holes)
    (simp_all add: object_in_block_def object_size_def RawGc_rtti_def make_rtti_for_def
      align_usize_def BLOCK_SIZE_def)

text \<open>
  C39: \<open>count_holes\<close> does not count the holes of a block: a maximal run of \<open>n\<close> unmarked lines adds
  \<open>(n + 1) / 2\<close>, because the automaton leaves the hole on every second unmarked line. The count is
  zero exactly when every line is marked, and it is stored in \<open>hole_count\<close>.
\<close>

theorem count_holes_counts_half_lines:
  assumes "LineMap_valid (line_map blk)"
  shows "\<exists>h. ImmixBlock_count_holes b blk = Some (h, blk\<lparr>hole_count := h\<rparr>) \<and>
    h = (\<Sum>n\<leftarrow>unmarked_runs (map (LineMap_marked (line_map blk)) [0..<NUM_LINES_PER_BLOCK]). (n + 1) div 2) \<and>
    (h = 0 \<longleftrightarrow> (\<forall>i < NUM_LINES_PER_BLOCK. LineMap_marked (line_map blk) i))"
proof -
  have "sum_list (map (\<lambda>n. (n + 1) div 2) (unmarked_runs ts)) = 0 \<longleftrightarrow> (\<forall>t \<in> set ts. t)" for ts
    by (induction ts rule: unmarked_runs.induct) auto
  then show ?thesis
    using assms by (auto simp: count_holes_eq Let_def)
qed

theorem count_holes_counts_half_lines_witness:
  "\<exists>h. ImmixBlock_count_holes 65536 ImmixBlock_new = Some (h, ImmixBlock_new\<lparr>hole_count := h\<rparr>) \<and> h \<noteq> 0"
  using count_holes_counts_half_lines [OF new_block_simps(1), of 65536]
  by (auto dest: spec [of _ "0::nat"])

text \<open>
  the marked and the available lines of a block are counted without a panic and add up to the
  number of lines, and \<open>is_empty\<close> holds exactly when no line is marked.
\<close>

lemma line_counts_partition_block:
  assumes "LineMap_valid (line_map blk)"
  shows "\<exists>marked available.
    ImmixBlock_count_holes_and_marked_lines b blk = Some (hole_count blk, marked) \<and>
    ImmixBlock_count_holes_and_available_lines b blk = Some (hole_count blk, available) \<and>
    marked + available = NUM_LINES_PER_BLOCK \<and>
    ImmixBlock_is_empty b blk = Some (marked = 0)"
proof -
  have "(\<forall>i. \<not> line_marked blk i) \<longleftrightarrow> length (filter (line_marked blk) [0..<256]) = 0"
    using LineMap_marked_less [OF assms] by (auto simp: filter_empty_conv)
  then show ?thesis
    using assms sum_length_filter_compl [of "line_marked blk" "[0..<256]"]
    by (simp add: count_lines_eq is_empty_eq)
qed

end
