(* ===== verification/Block_Allocator.thy ===== *)
theory Block_Allocator
  imports Block
begin

text \<open>
  \<open>Mmap\<close> and \<open>BlockAllocator\<close> of \<open>src/block_allocator.rs\<close> (the unix variant): the mapping, and the
  allocator that hands out 32 KiB blocks, first from its list of returned blocks and then by bumping
  \<open>data\<close>. The address that \<open>mmap\<close> returns is a parameter. The calls of \<open>madvise\<close> have no effect the
  allocator relies on; they are recorded in the order in which they are made. The headers of the
  blocks are the map \<open>blocks\<close>, from the address of a block to its \<open>ImmixBlock\<close>; a fresh page of the
  mapping is zero, which is the header \<open>ImmixBlock_new\<close>. The methods are the bodies of the critical
  sections; the compare-and-swap loop of \<open>build_block\<close> is also given step by step.
\<close>

section \<open>The mapping\<close>

datatype madvise = DontNeed usize usize | Commit usize usize

record Mmap =
  mmap_start :: usize
  mmap_end :: usize
  mmap_size :: usize
  advice :: "madvise list"

text \<open>\<open>map\<close> is the result of \<open>libc::mmap\<close>, \<open>None\<close> for \<open>MAP_FAILED\<close>; a failure panics.\<close>

definition Mmap_new :: "usize option \<Rightarrow> usize \<Rightarrow> Mmap option" where
  "Mmap_new mapped sz = do {
     a \<leftarrow> mapped;
     Some \<lparr>mmap_start = a, mmap_end = a + sz, mmap_size = sz, advice = []\<rparr> }"

definition Mmap_aligned :: "Mmap \<Rightarrow> usize" where
  "Mmap_aligned m = (let offset = BLOCK_SIZE - mmap_start m mod BLOCK_SIZE in mmap_start m + offset)"

definition Mmap_dontneed :: "usize \<Rightarrow> usize \<Rightarrow> Mmap \<Rightarrow> Mmap" where
  "Mmap_dontneed page sz m = m\<lparr>advice := advice m @ [DontNeed page sz]\<rparr>"

definition Mmap_commit :: "usize \<Rightarrow> usize \<Rightarrow> Mmap \<Rightarrow> Mmap" where
  "Mmap_commit page sz m = m\<lparr>advice := advice m @ [Commit page sz]\<rparr>"

section \<open>The block allocator\<close>

type_synonym block_map = "usize \<Rightarrow> ImmixBlock"

record BlockAllocator =
  free_blocks :: "usize list"
  data_bound :: usize
  data :: usize
  mmap :: Mmap

definition BlockAllocator_total_blocks :: "BlockAllocator \<Rightarrow> usize" where
  "BlockAllocator_total_blocks ba = (mmap_end (mmap ba) - Mmap_aligned (mmap ba)) div BLOCK_SIZE"

definition BlockAllocator_new :: "usize option \<Rightarrow> usize \<Rightarrow> BlockAllocator option" where
  "BlockAllocator_new mapped sz = do {
     map \<leftarrow> Mmap_new mapped sz;
     Some \<lparr>free_blocks = [], data_bound = mmap_end map, data = Mmap_aligned map, mmap = map\<rparr> }"

text \<open>\<open>build_block\<close> when no other thread changes \<open>data\<close> between the load and the exchange.\<close>

definition BlockAllocator_build_block :: "BlockAllocator \<Rightarrow> usize option \<times> BlockAllocator" where
  "BlockAllocator_build_block ba =
     (let old = data ba; new = old + BLOCK_SIZE
      in if new > data_bound ba then (None, ba)
         else (Some old, ba\<lparr>data := new, mmap := Mmap_commit old BLOCK_SIZE (mmap ba)\<rparr>))"

definition BlockAllocator_get_block ::
    "BlockAllocator \<Rightarrow> block_map \<Rightarrow> usize option \<times> BlockAllocator \<times> block_map" where
  "BlockAllocator_get_block ba blocks =
     (if free_blocks ba = [] then (case BlockAllocator_build_block ba of (r, ba) \<Rightarrow> (r, ba, blocks))
      else case vec_pop (free_blocks ba) of
        (Some x, rest) \<Rightarrow>
          (Some x, ba\<lparr>free_blocks := rest, mmap := Mmap_commit x BLOCK_SIZE (mmap ba)\<rparr>,
           blocks(x := ImmixBlock_new))
      | (None, rest) \<Rightarrow> (case BlockAllocator_build_block ba of (r, ba) \<Rightarrow> (r, ba, blocks)))"

definition BlockAllocator_is_in_space :: "BlockAllocator \<Rightarrow> Address \<Rightarrow> bool" where
  "BlockAllocator_is_in_space ba object \<longleftrightarrow> mmap_start (mmap ba) < object \<and> object \<le> data_bound ba"

definition BlockAllocator_return_blocks :: "usize list \<Rightarrow> BlockAllocator \<Rightarrow> BlockAllocator" where
  "BlockAllocator_return_blocks bs ba =
     fold (\<lambda>block ba. ba\<lparr>mmap := Mmap_dontneed block BLOCK_SIZE (mmap ba),
                         free_blocks := vec_push (free_blocks ba) block\<rparr>) bs ba"

definition BlockAllocator_available_blocks :: "BlockAllocator \<Rightarrow> usize option" where
  "BlockAllocator_available_blocks ba = do {
     bytes \<leftarrow> usub (data_bound ba) (data ba);
     let nblocks = bytes div BLOCK_SIZE;
     Some (nblocks + length (free_blocks ba)) }"

section \<open>The compare-and-swap loop, step by step\<close>

text \<open>
  A thread in \<open>build_block\<close> has loaded \<open>old\<close>, or has returned. One step of a thread is the bounds check
  that returns \<open>None\<close>, an exchange that succeeds because \<open>data\<close> still is \<open>old\<close>, or an exchange that
  fails: because \<open>data\<close> changed, or spuriously (\<open>compare_exchange_weak\<close>); it then reloads \<open>data\<close>.
  Threads enter with a load at any time.
\<close>

datatype cas_thread = Entered | Loaded usize | Returned "usize option"

record cas_state =
  cas_data :: usize
  cas_threads :: "nat \<Rightarrow> cas_thread"

inductive build_block_step :: "usize \<Rightarrow> cas_state \<Rightarrow> cas_state \<Rightarrow> bool" for bound :: usize where
  load: "cas_threads s t = Entered \<Longrightarrow>
    build_block_step bound s (s\<lparr>cas_threads := (cas_threads s)(t := Loaded (cas_data s))\<rparr>)"
| out_of_memory: "cas_threads s t = Loaded old \<Longrightarrow> old + BLOCK_SIZE > bound \<Longrightarrow>
    build_block_step bound s (s\<lparr>cas_threads := (cas_threads s)(t := Returned None)\<rparr>)"
| exchange: "cas_threads s t = Loaded old \<Longrightarrow> \<not> old + BLOCK_SIZE > bound \<Longrightarrow> cas_data s = old \<Longrightarrow>
    build_block_step bound s (s\<lparr>cas_data := old + BLOCK_SIZE,
      cas_threads := (cas_threads s)(t := Returned (Some old))\<rparr>)"
| retry: "cas_threads s t = Loaded old \<Longrightarrow> \<not> old + BLOCK_SIZE > bound \<Longrightarrow>
    build_block_step bound s (s\<lparr>cas_threads := (cas_threads s)(t := Loaded (cas_data s))\<rparr>)"

inductive_cases build_block_stepE: "build_block_step bound s s'"

section \<open>The invariant\<close>

text \<open>The blocks carved out of the mapping so far, and those that are in use.\<close>

definition built_blocks :: "BlockAllocator \<Rightarrow> usize set" where
  "built_blocks ba = {b. BLOCK_SIZE dvd b \<and> Mmap_aligned (mmap ba) \<le> b \<and> b < data ba}"

definition used_blocks :: "BlockAllocator \<Rightarrow> usize set" where
  "used_blocks ba = built_blocks ba - set (free_blocks ba)"

definition block_allocator_ok :: "BlockAllocator \<Rightarrow> bool" where
  "block_allocator_ok ba \<longleftrightarrow> BLOCK_SIZE dvd data ba \<and> Mmap_aligned (mmap ba) \<le> data ba \<and>
     data ba \<le> data_bound ba \<and> data_bound ba = mmap_end (mmap ba) \<and>
     set (free_blocks ba) \<subseteq> built_blocks ba \<and> distinct (free_blocks ba)"

lemma Mmap_aligned_props:
  "BLOCK_SIZE dvd Mmap_aligned m" "mmap_start m < Mmap_aligned m"
  "Mmap_aligned m \<le> mmap_start m + BLOCK_SIZE"
proof -
  have pos: "0 < BLOCK_SIZE" by (simp add: BLOCK_SIZE_def)
  then have lt: "mmap_start m mod BLOCK_SIZE < BLOCK_SIZE" by simp
  have "mmap_start m = mmap_start m div BLOCK_SIZE * BLOCK_SIZE + mmap_start m mod BLOCK_SIZE" by simp
  then have "Mmap_aligned m = mmap_start m div BLOCK_SIZE * BLOCK_SIZE + BLOCK_SIZE"
    using lt unfolding Mmap_aligned_def Let_def by linarith
  then show "BLOCK_SIZE dvd Mmap_aligned m" by simp
  show "mmap_start m < Mmap_aligned m" "Mmap_aligned m \<le> mmap_start m + BLOCK_SIZE"
    using lt by (auto simp: Mmap_aligned_def Let_def)
qed

lemma Mmap_advice_simps [simp]:
  "Mmap_aligned (Mmap_commit p n m) = Mmap_aligned m"
  "Mmap_aligned (Mmap_dontneed p n m) = Mmap_aligned m"
  "mmap_end (Mmap_commit p n m) = mmap_end m" "mmap_end (Mmap_dontneed p n m) = mmap_end m"
  "mmap_start (Mmap_commit p n m) = mmap_start m" "mmap_start (Mmap_dontneed p n m) = mmap_start m"
  by (simp_all add: Mmap_aligned_def Mmap_commit_def Mmap_dontneed_def)

lemma dvd_next_block:
  assumes "BLOCK_SIZE dvd a" and "BLOCK_SIZE dvd b" and "a < b"
  shows "a + BLOCK_SIZE \<le> b"
proof -
  have "BLOCK_SIZE dvd b - a" using assms by (intro dvd_diff_nat)
  then have "BLOCK_SIZE \<le> b - a" using assms(3) by (intro dvd_imp_le) auto
  then show ?thesis using assms(3) by linarith
qed

lemma built_blocks_finite [simp]: "finite (built_blocks ba)"
  by (rule finite_subset [of _ "{..<data ba}"]) (auto simp: built_blocks_def)

lemma built_block_inside:
  assumes "block_allocator_ok ba" and "b \<in> built_blocks ba"
  shows "BLOCK_SIZE dvd b" "mmap_start (mmap ba) < b" "b + BLOCK_SIZE \<le> data ba"
    "b + BLOCK_SIZE \<le> data_bound ba" "0 < b"
proof -
  show "BLOCK_SIZE dvd b" using assms(2) by (simp add: built_blocks_def)
  show lt: "mmap_start (mmap ba) < b"
    using Mmap_aligned_props(2) [of "mmap ba"] assms(2) by (simp add: built_blocks_def)
  then show "0 < b" by simp
  show le: "b + BLOCK_SIZE \<le> data ba"
    using assms dvd_next_block [of b "data ba"] by (simp add: built_blocks_def block_allocator_ok_def)
  then show "b + BLOCK_SIZE \<le> data_bound ba" using assms(1) by (simp add: block_allocator_ok_def)
qed

lemma new_ok:
  assumes "BLOCK_SIZE \<le> sz" and "BlockAllocator_new mapped sz = Some ba"
  shows "block_allocator_ok ba" "built_blocks ba = {}" "used_blocks ba = {}"
proof -
  obtain a where ba: "ba = \<lparr>free_blocks = [], data_bound = a + sz,
      data = Mmap_aligned \<lparr>mmap_start = a, mmap_end = a + sz, mmap_size = sz, advice = []\<rparr>,
      mmap = \<lparr>mmap_start = a, mmap_end = a + sz, mmap_size = sz, advice = []\<rparr>\<rparr>"
    using assms(2) by (auto simp: BlockAllocator_new_def Mmap_new_def bind_eq_Some_conv)
  show built: "built_blocks ba = {}" by (auto simp: built_blocks_def ba)
  then show "used_blocks ba = {}" by (simp add: used_blocks_def)
  show "block_allocator_ok ba"
    using assms(1) Mmap_aligned_props [of "\<lparr>mmap_start = a, mmap_end = a + sz, mmap_size = sz, advice = []\<rparr>"]
    by (simp add: block_allocator_ok_def ba)
qed

lemma build_block_spec:
  assumes "block_allocator_ok ba" and "BlockAllocator_build_block ba = (r, ba')"
  shows "block_allocator_ok ba' \<and> free_blocks ba' = free_blocks ba \<and> mmap_start (mmap ba') = mmap_start (mmap ba) \<and>
    data_bound ba' = data_bound ba \<and>
    (case r of None \<Rightarrow> ba' = ba \<and> data_bound ba < data ba + BLOCK_SIZE
     | Some b \<Rightarrow> b = data ba \<and> built_blocks ba' = insert b (built_blocks ba) \<and> b \<notin> built_blocks ba \<and>
         data ba' = b + BLOCK_SIZE \<and> BLOCK_SIZE dvd b)"
proof (cases "data ba + BLOCK_SIZE > data_bound ba")
  case True
  then show ?thesis using assms by (auto simp: BlockAllocator_build_block_def Let_def)
next
  case False
  let ?d = "data ba"
  have d: "BLOCK_SIZE dvd ?d" "Mmap_aligned (mmap ba) \<le> ?d"
    using assms(1) by (auto simp: block_allocator_ok_def)
  have r: "r = Some ?d" "ba' = ba\<lparr>data := ?d + BLOCK_SIZE, mmap := Mmap_commit ?d BLOCK_SIZE (mmap ba)\<rparr>"
    using assms(2) False by (auto simp: BlockAllocator_build_block_def Let_def)
  have pos: "0 < BLOCK_SIZE" by (simp add: BLOCK_SIZE_def)
  have "b < ?d + BLOCK_SIZE \<longleftrightarrow> b = ?d \<or> b < ?d" if "BLOCK_SIZE dvd b" for b
    using dvd_next_block [OF d(1) that] pos by (cases b ?d rule: linorder_cases) auto
  then have built: "built_blocks ba' = insert ?d (built_blocks ba)"
    using d by (auto simp: built_blocks_def r)
  then show ?thesis
    using assms(1) False d pos by (auto simp: block_allocator_ok_def r built_blocks_def)
qed

section \<open>The interface of a source of blocks\<close>

abbreviation block_bytes :: "usize \<Rightarrow> usize set" where
  "block_bytes b \<equiv> {b..<b + BLOCK_SIZE}"

text \<open>
  What a client of \<open>get_block\<close> relies on: a new block is not in use, it is taken out of the bytes the
  source can still hand out, and a refused request changes nothing.
\<close>

locale block_source =
  fixes ok :: "'s \<Rightarrow> bool"
    and used :: "'s \<Rightarrow> usize set"
    and reserve :: "'s \<Rightarrow> usize set"
    and get :: "'s \<Rightarrow> usize option \<times> 's"
  assumes get_None: "ok s \<Longrightarrow> get s = (None, s') \<Longrightarrow> s' = s"
    and get_ok: "ok s \<Longrightarrow> get s = (Some b, s') \<Longrightarrow> ok s'"
    and get_used: "ok s \<Longrightarrow> get s = (Some b, s') \<Longrightarrow> b \<notin> used s \<and> used s' = insert b (used s)"
    and get_reserve: "ok s \<Longrightarrow> get s = (Some b, s') \<Longrightarrow>
      block_bytes b \<subseteq> reserve s \<and> reserve s' \<subseteq> reserve s - block_bytes b"
begin

fun get_many :: "nat \<Rightarrow> 's \<Rightarrow> usize list \<times> 's" where
  "get_many 0 s = ([], s)"
| "get_many (Suc n) s = (case get s of (None, s') \<Rightarrow> ([], s')
     | (Some b, s') \<Rightarrow> (case get_many n s' of (bs, s'') \<Rightarrow> (b # bs, s'')))"

lemma get_many_disjoint:
  assumes "ok s" and "get_many n s = (bs, s')"
  shows "ok s' \<and> used s' = used s \<union> set bs \<and> set bs \<inter> used s = {} \<and> distinct bs \<and>
    (\<forall>b \<in> set bs. block_bytes b \<subseteq> reserve s) \<and> reserve s' \<subseteq> reserve s - (\<Union>b \<in> set bs. block_bytes b) \<and>
    (\<forall>i j. i < j \<and> j < length bs \<longrightarrow> block_bytes (bs ! i) \<inter> block_bytes (bs ! j) = {})"
  using assms
proof (induction n arbitrary: s bs)
  case (Suc n)
  show ?case
  proof (cases "get s")
    case (Pair r s1)
    show ?thesis
    proof (cases r)
      case None
      then show ?thesis using Suc.prems Pair get_None by auto
    next
      case (Some b)
      then obtain bs1 where bs: "bs = b # bs1" and run: "get_many n s1 = (bs1, s')"
        using Suc.prems(2) Pair by (auto split: prod.splits)
      have g: "get s = (Some b, s1)" using Pair Some by simp
      note laws = get_ok [OF Suc.prems(1) g] get_used [OF Suc.prems(1) g] get_reserve [OF Suc.prems(1) g]
      note IH = Suc.IH [OF laws(1) run]
      have "block_bytes b \<inter> block_bytes (bs1 ! j) = {}" if "j < length bs1" for j
        using IH laws(3) nth_mem [OF that] by blast
      then have "\<forall>i j. i < j \<and> j < length bs \<longrightarrow> block_bytes (bs ! i) \<inter> block_bytes (bs ! j) = {}"
        using IH by (auto simp: bs nth_Cons split: nat.split)
      moreover have "reserve s' \<subseteq> reserve s - (\<Union>b \<in> set bs. block_bytes b)"
        using IH laws(3) unfolding bs by auto
      moreover have "block_bytes c \<subseteq> reserve s" if "c \<in> set bs" for c
      proof (cases "c = b")
        case False
        then have "block_bytes c \<subseteq> reserve s1" using IH that by (simp add: bs)
        then show ?thesis using laws(3) by blast
      qed (use laws(3) in simp)
      ultimately show ?thesis
        using IH laws(1,2) unfolding bs by auto
    qed
  qed
qed auto

end

definition reserve_bytes :: "BlockAllocator \<Rightarrow> usize set" where
  "reserve_bytes ba = (\<Union>b \<in> set (free_blocks ba). block_bytes b) \<union> {data ba..<data_bound ba}"

lemma blocks_disjoint:
  assumes "BLOCK_SIZE dvd a" and "BLOCK_SIZE dvd b" and "a \<noteq> b"
  shows "block_bytes a \<inter> block_bytes b = {}"
  using assms dvd_next_block [of a b] dvd_next_block [of b a]
  by (cases a b rule: linorder_cases) auto

text \<open>The blocks that are handed out: an entry of the free list, with a new header, or a fresh block.\<close>

lemma get_block_cases:
  assumes "block_allocator_ok ba"
  obtains (free) b rest where "free_blocks ba = rest @ [b]"
      "BlockAllocator_get_block ba blocks = (Some b,
         ba\<lparr>free_blocks := rest, mmap := Mmap_commit b BLOCK_SIZE (mmap ba)\<rparr>, blocks(b := ImmixBlock_new))"
  | (fresh) b ba' where "free_blocks ba = []" "BlockAllocator_build_block ba = (Some b, ba')"
      "BlockAllocator_get_block ba blocks = (Some b, ba', blocks)"
  | (none) "free_blocks ba = []" "data_bound ba < data ba + BLOCK_SIZE"
      "BlockAllocator_get_block ba blocks = (None, ba, blocks)"
proof (cases "free_blocks ba" rule: rev_cases)
  case Nil
  obtain r ba' where r: "BlockAllocator_build_block ba = (r, ba')" by fastforce
  then show ?thesis
    using Nil build_block_spec [OF assms r] that(2,3)
    by (cases r) (auto simp: BlockAllocator_get_block_def)
next
  case (snoc rest b)
  then show ?thesis using that(1) by (simp add: BlockAllocator_get_block_def)
qed

lemma get_block_conj:
  assumes ok: "block_allocator_ok ba" and get: "BlockAllocator_get_block ba blocks = (Some b, ba', blocks')"
  shows "block_allocator_ok ba' \<and> b \<notin> used_blocks ba \<and> used_blocks ba' = insert b (used_blocks ba) \<and>
    block_bytes b \<subseteq> reserve_bytes ba \<and> reserve_bytes ba' \<subseteq> reserve_bytes ba - block_bytes b \<and>
    b \<in> built_blocks ba' \<and> (blocks' = blocks \<or> blocks' = blocks(b := ImmixBlock_new)) \<and>
    mmap_start (mmap ba') = mmap_start (mmap ba) \<and> data_bound ba' = data_bound ba"
proof (cases rule: get_block_cases [OF ok, of blocks, case_names free fresh none])
  case (free c rest)
  have b: "c = b" "ba' = ba\<lparr>free_blocks := rest, mmap := Mmap_commit b BLOCK_SIZE (mmap ba)\<rparr>"
    "blocks' = blocks(b := ImmixBlock_new)" using free(2) get by auto
  have built: "built_blocks ba' = built_blocks ba" by (simp add: built_blocks_def b)
  have fr: "set rest \<subseteq> built_blocks ba" "b \<in> built_blocks ba" "b \<notin> set rest" "distinct rest"
    using ok free(1) b by (auto simp: block_allocator_ok_def)
  have al: "BLOCK_SIZE dvd x" "x + BLOCK_SIZE \<le> data ba" if "x \<in> built_blocks ba" for x
    using built_block_inside [OF ok that] by auto
  have "block_bytes x \<inter> block_bytes b = {}" if "x \<in> set rest" for x
    using that fr al by (intro blocks_disjoint) auto
  then have "(\<Union>x \<in> set rest. block_bytes x) \<inter> block_bytes b = {}" by blast
  then have "reserve_bytes ba' \<subseteq> reserve_bytes ba - block_bytes b"
    using al(2) [OF fr(2)] free(1) by (auto simp: reserve_bytes_def b)
  moreover have "block_bytes b \<subseteq> reserve_bytes ba"
    using free(1) b by (auto simp: reserve_bytes_def)
  moreover have "block_allocator_ok ba'"
    using ok fr built by (simp add: block_allocator_ok_def b)
  moreover have "b \<notin> used_blocks ba" "used_blocks ba' = insert b (used_blocks ba)"
    using fr free(1) built by (auto simp: used_blocks_def b)
  ultimately show ?thesis
    using built fr by (simp add: b)
next
  case (fresh c ba1)
  have b: "c = b" "ba1 = ba'" "blocks' = blocks" using fresh(3) get by auto
  have spec: "block_allocator_ok ba'" "free_blocks ba' = []" "b = data ba" "data ba' = b + BLOCK_SIZE"
    "built_blocks ba' = insert b (built_blocks ba)" "b \<notin> built_blocks ba"
    "data_bound ba' = data_bound ba" "mmap_start (mmap ba') = mmap_start (mmap ba)"
    using build_block_spec [OF ok fresh(2)] fresh(1) b by auto
  have "data ba' \<le> data_bound ba" using spec(1,7) by (simp add: block_allocator_ok_def)
  then show ?thesis
    using spec fresh(1) b by (auto simp: used_blocks_def reserve_bytes_def)
next
  case none
  then show ?thesis
    using get by simp
qed

lemma get_block_spec:
  assumes ok: "block_allocator_ok ba" and get: "BlockAllocator_get_block ba blocks = (Some b, ba', blocks')"
  shows "block_allocator_ok ba'" "b \<notin> used_blocks ba" "used_blocks ba' = insert b (used_blocks ba)"
    "block_bytes b \<subseteq> reserve_bytes ba" "reserve_bytes ba' \<subseteq> reserve_bytes ba - block_bytes b"
    "b \<in> built_blocks ba'" "blocks' = blocks \<or> blocks' = blocks(b := ImmixBlock_new)"
    "mmap_start (mmap ba') = mmap_start (mmap ba)" "data_bound ba' = data_bound ba"
  using get_block_conj [OF assms] by simp_all

text \<open>The state of the allocator together with the block headers, as a source of blocks.\<close>

definition get_block_pair :: "BlockAllocator \<times> block_map \<Rightarrow> usize option \<times> BlockAllocator \<times> block_map" where
  "get_block_pair s = BlockAllocator_get_block (fst s) (snd s)"

interpretation fresh_blocks: block_source "\<lambda>s. block_allocator_ok (fst s)" "\<lambda>s. used_blocks (fst s)"
  "\<lambda>s. reserve_bytes (fst s)" get_block_pair
proof
  fix s s' :: "BlockAllocator \<times> block_map" and b
  assume ok: "block_allocator_ok (fst s)"
  {
    assume "get_block_pair s = (None, s')"
    then show "s' = s"
      using get_block_cases [OF ok, of "snd s"] by (cases s) (auto simp: get_block_pair_def)
  }
  assume "get_block_pair s = (Some b, s')"
  then have "BlockAllocator_get_block (fst s) (snd s) = (Some b, fst s', snd s')"
    by (simp add: get_block_pair_def)
  note spec = get_block_spec [OF ok this]
  show "block_allocator_ok (fst s')"
    and "b \<notin> used_blocks (fst s) \<and> used_blocks (fst s') = insert b (used_blocks (fst s))"
    and "block_bytes b \<subseteq> reserve_bytes (fst s) \<and> reserve_bytes (fst s') \<subseteq> reserve_bytes (fst s) - block_bytes b"
    using spec by auto
qed

lemma return_blocks_eq:
  "BlockAllocator_return_blocks bs ba = ba\<lparr>free_blocks := free_blocks ba @ bs,
     mmap := (mmap ba)\<lparr>advice := advice (mmap ba) @ map (\<lambda>b. DontNeed b BLOCK_SIZE) bs\<rparr>\<rparr>"
  by (induction bs arbitrary: ba)
    (simp_all add: BlockAllocator_return_blocks_def Mmap_dontneed_def vec_push_def)

lemma return_blocks_spec:
  assumes "block_allocator_ok ba" and "set bs \<subseteq> used_blocks ba" and "distinct bs"
  shows "block_allocator_ok (BlockAllocator_return_blocks bs ba)"
    "used_blocks (BlockAllocator_return_blocks bs ba) = used_blocks ba - set bs"
  using assms
  by (auto simp: return_blocks_eq block_allocator_ok_def used_blocks_def built_blocks_def Mmap_aligned_def)

lemma card_built_blocks:
  assumes "block_allocator_ok ba"
  shows "card (built_blocks ba) = (data ba - Mmap_aligned (mmap ba)) div BLOCK_SIZE"
proof -
  define a n where "a = Mmap_aligned (mmap ba)" and "n = (data ba - a) div BLOCK_SIZE"
  have al: "BLOCK_SIZE dvd a" "BLOCK_SIZE dvd data ba" "a \<le> data ba" and pos: "0 < BLOCK_SIZE"
    using assms Mmap_aligned_props(1) by (auto simp: block_allocator_ok_def BLOCK_SIZE_def a_def)
  have d: "data ba = a + n * BLOCK_SIZE"
    using al by (simp add: n_def dvd_diff_nat)
  have "built_blocks ba = (\<lambda>k. a + k * BLOCK_SIZE) ` {..<n}"
  proof (intro equalityI subsetI)
    fix b assume "b \<in> built_blocks ba"
    then have b: "BLOCK_SIZE dvd b" "a \<le> b" "b < data ba" by (auto simp: built_blocks_def a_def)
    then obtain k where k: "b = a + k * BLOCK_SIZE"
      using al(1) by (metis add_diff_inverse_nat dvd_diff_nat dvdE mult.commute not_less)
    then have "k < n" using b(3) d pos by simp
    then show "b \<in> (\<lambda>k. a + k * BLOCK_SIZE) ` {..<n}" using k by blast
  next
    fix b assume "b \<in> (\<lambda>k. a + k * BLOCK_SIZE) ` {..<n}"
    then show "b \<in> built_blocks ba" using al(1) d pos by (auto simp: built_blocks_def a_def [symmetric])
  qed
  moreover have "inj_on (\<lambda>k. a + k * BLOCK_SIZE) {..<n}" using pos by (auto simp: inj_on_def)
  ultimately show ?thesis by (simp add: card_image a_def n_def)
qed

lemma available_blocks_eq:
  assumes "block_allocator_ok ba"
  shows "BlockAllocator_available_blocks ba
      = Some (BlockAllocator_total_blocks ba - card (used_blocks ba))"
    and "card (used_blocks ba) \<le> BlockAllocator_total_blocks ba"
proof -
  let ?a = "Mmap_aligned (mmap ba)"
  have al: "BLOCK_SIZE dvd ?a" "BLOCK_SIZE dvd data ba" "?a \<le> data ba" "data ba \<le> data_bound ba"
    "data_bound ba = mmap_end (mmap ba)"
    using assms Mmap_aligned_props(1) by (auto simp: block_allocator_ok_def)
  have free: "card (set (free_blocks ba)) = length (free_blocks ba)" "set (free_blocks ba) \<subseteq> built_blocks ba"
    using assms by (auto simp: block_allocator_ok_def distinct_card)
  have "data_bound ba - ?a = (data_bound ba - data ba) + (data ba - ?a)" using al by simp
  moreover have "BLOCK_SIZE dvd data ba - ?a" using al by (simp add: dvd_diff_nat)
  ultimately have total: "BlockAllocator_total_blocks ba
      = (data_bound ba - data ba) div BLOCK_SIZE + card (built_blocks ba)"
    using card_built_blocks [OF assms] al(5)
    by (simp add: BlockAllocator_total_blocks_def div_plus_div_distrib_dvd_right)
  have used: "card (used_blocks ba) = card (built_blocks ba) - length (free_blocks ba)"
    using free by (simp add: used_blocks_def card_Diff_subset)
  have "length (free_blocks ba) \<le> card (built_blocks ba)"
    using free card_mono [OF built_blocks_finite free(2)] by simp
  then show "BlockAllocator_available_blocks ba
        = Some (BlockAllocator_total_blocks ba - card (used_blocks ba))"
      "card (used_blocks ba) \<le> BlockAllocator_total_blocks ba"
    using total used al(4) by (simp_all add: BlockAllocator_available_blocks_def)
qed

section \<open>The compare-and-swap loop\<close>

definition cas_invariant :: "usize \<Rightarrow> usize \<Rightarrow> cas_state \<Rightarrow> bool" where
  "cas_invariant d0 bound s \<longleftrightarrow> BLOCK_SIZE dvd cas_data s \<and> d0 \<le> cas_data s \<and>
     (\<forall>t old. cas_threads s t = Loaded old \<longrightarrow> old \<le> cas_data s) \<and>
     {b. \<exists>t. cas_threads s t = Returned (Some b)} = {b. BLOCK_SIZE dvd b \<and> d0 \<le> b \<and> b < cas_data s} \<and>
     (\<forall>t u b. cas_threads s t = Returned (Some b) \<and> cas_threads s u = Returned (Some b) \<longrightarrow> t = u) \<and>
     (\<forall>t b. cas_threads s t = Returned (Some b) \<longrightarrow> b + BLOCK_SIZE \<le> bound) \<and>
     (\<forall>t. cas_threads s t = Returned None \<longrightarrow> bound < cas_data s + BLOCK_SIZE)"

lemma cas_invariant_local:
  assumes "cas_invariant d0 bound s" and "\<And>b. cas_threads s t \<noteq> Returned (Some b)"
    and "\<And>b. x \<noteq> Returned (Some b)" and "\<And>old. x = Loaded old \<Longrightarrow> old \<le> cas_data s"
    and "x = Returned None \<Longrightarrow> bound < cas_data s + BLOCK_SIZE"
  shows "cas_invariant d0 bound (s\<lparr>cas_threads := (cas_threads s)(t := x)\<rparr>)"
proof -
  have "(((cas_threads s)(t := x)) u = Returned (Some b)) = (cas_threads s u = Returned (Some b))" for u b
    using assms(2,3) by auto
  moreover have "old \<le> cas_data s" if "((cas_threads s)(t := x)) u = Loaded old" for u old
    using that assms(1,4) by (auto simp: cas_invariant_def split: if_splits)
  moreover have "bound < cas_data s + BLOCK_SIZE" if "((cas_threads s)(t := x)) u = Returned None" for u
    using that assms(1,5) by (auto simp: cas_invariant_def split: if_splits)
  ultimately show ?thesis
    using assms(1) unfolding cas_invariant_def by (simp del: fun_upd_apply)
qed

lemma cas_invariant_step:
  assumes "build_block_step bound s s'" and "cas_invariant d0 bound s"
  shows "cas_invariant d0 bound s'"
  using assms
proof (cases rule: build_block_step.cases)
  case (exchange t old)
  let ?R = "{b. \<exists>t. cas_threads s t = Returned (Some b)}"
  have inv: "BLOCK_SIZE dvd old" "d0 \<le> old" "?R = {b. BLOCK_SIZE dvd b \<and> d0 \<le> b \<and> b < old}"
    using assms(2) exchange by (auto simp: cas_invariant_def)
  have "{b. \<exists>t'. cas_threads s' t' = Returned (Some b)} = insert old ?R"
    using exchange by (auto split: if_splits) (metis cas_thread.distinct(5))
  also have "\<dots> = {b. BLOCK_SIZE dvd b \<and> d0 \<le> b \<and> b < old + BLOCK_SIZE}"
    unfolding inv(3) using inv(1,2) dvd_next_block [OF inv(1)] by (force simp: BLOCK_SIZE_def not_less)
  finally have "{b. \<exists>t. cas_threads s' t = Returned (Some b)}
      = {b. BLOCK_SIZE dvd b \<and> d0 \<le> b \<and> b < cas_data s'}" using exchange by simp
  moreover have new: "cas_threads s u \<noteq> Returned (Some old)" for u
    using inv(3) by auto
  moreover have th: "cas_threads s' u = (if u = t then Returned (Some old) else cas_threads s u)"
    and data: "cas_data s' = old + BLOCK_SIZE" for u using exchange by simp_all
  have "x \<le> cas_data s'" if "cas_threads s' u = Loaded x" for u x
    using that assms(2) exchange(4) by (auto simp: cas_invariant_def th data trans_le_add1 split: if_splits)
  moreover have "u = v" if "cas_threads s' u = Returned (Some x)" "cas_threads s' v = Returned (Some x)" for u v x
    using that assms(2) new by (auto simp: cas_invariant_def th split: if_splits)
  moreover have "x + BLOCK_SIZE \<le> bound" if "cas_threads s' u = Returned (Some x)" for u x
    using that assms(2) exchange(3) by (auto simp: cas_invariant_def th split: if_splits)
  moreover have "bound < cas_data s' + BLOCK_SIZE" if "cas_threads s' u = Returned None" for u
    using that assms(2) exchange(4) by (auto simp: cas_invariant_def th data trans_less_add1 split: if_splits)
  ultimately show ?thesis
    using inv(1,2) unfolding cas_invariant_def by (simp add: data trans_le_add1)
next
  case (load t)
  then show ?thesis using assms(2) by (auto intro: cas_invariant_local)
next
  case (out_of_memory t old)
  have "old \<le> cas_data s" using assms(2) out_of_memory by (simp add: cas_invariant_def)
  then show ?thesis using assms(2) out_of_memory by (auto intro: cas_invariant_local)
next
  case (retry t old)
  then show ?thesis using assms(2) by (auto intro: cas_invariant_local)
qed

abbreviation cas_start :: "usize \<Rightarrow> cas_state" where
  "cas_start d0 \<equiv> \<lparr>cas_data = d0, cas_threads = (\<lambda>_. Entered)\<rparr>"

lemma cas_invariant_reachable:
  "(build_block_step bound)\<^sup>*\<^sup>* (cas_start d0) s \<Longrightarrow> BLOCK_SIZE dvd d0 \<Longrightarrow> cas_invariant d0 bound s"
proof (induction rule: rtranclp_induct)
  case base
  then show ?case by (auto simp: cas_invariant_def)
qed (rule cas_invariant_step)

section \<open>Properties\<close>

text \<open>
  C33: a block handed out by \<open>get_block\<close> is 32 KiB aligned, lies wholly inside the mapping, was not in
  use and is in use afterwards; a recycled block gets a new header and no other header changes. The
  request is refused, with no effect, exactly when no block is available.
\<close>

theorem get_block_fresh:
  assumes "block_allocator_ok ba" and "BlockAllocator_get_block ba blocks = (r, ba', blocks')"
  shows "block_allocator_ok ba' \<and>
    (case r of
       None \<Rightarrow> ba' = ba \<and> blocks' = blocks \<and> BlockAllocator_available_blocks ba = Some 0
     | Some b \<Rightarrow> BLOCK_SIZE dvd b \<and> mmap_start (mmap ba) < b \<and> b + BLOCK_SIZE \<le> mmap_end (mmap ba) \<and>
         b \<notin> used_blocks ba \<and> used_blocks ba' = insert b (used_blocks ba) \<and>
         (\<forall>c. c \<noteq> b \<longrightarrow> blocks' c = blocks c) \<and> BlockAllocator_available_blocks ba \<noteq> Some 0)"
proof (cases r)
  case None
  have "ba' = ba \<and> blocks' = blocks \<and> free_blocks ba = [] \<and> data_bound ba < data ba + BLOCK_SIZE"
    using assms None by (cases rule: get_block_cases [OF assms(1), of blocks]) auto
  then show ?thesis
    using assms(1) None by (auto simp: BlockAllocator_available_blocks_def block_allocator_ok_def)
next
  case (Some b)
  note spec = get_block_spec [OF assms(1) assms(2) [unfolded Some]]
  note inside = built_block_inside [OF spec(1,6)]
  have "free_blocks ba \<noteq> [] \<or> data ba + BLOCK_SIZE \<le> data_bound ba"
    using assms Some by (cases rule: get_block_cases [OF assms(1), of blocks])
      (auto simp: BlockAllocator_build_block_def Let_def split: if_splits)
  then have "BlockAllocator_available_blocks ba \<noteq> Some 0"
    by (auto simp: BlockAllocator_available_blocks_def usub_def BLOCK_SIZE_def)
  moreover have "mmap_end (mmap ba) = data_bound ba" using assms(1) by (simp add: block_allocator_ok_def)
  ultimately show ?thesis using Some spec inside by auto
qed

theorem get_block_fresh_witness:
  "\<exists>ba. BlockAllocator_new (Some 4096) 131072 = Some ba \<and> block_allocator_ok ba \<and>
    (case BlockAllocator_get_block ba (\<lambda>_. ImmixBlock_new) of (r, ba', blocks') \<Rightarrow>
      r = Some 32768 \<and> used_blocks ba' = {32768})"
proof -
  obtain ba where ba: "BlockAllocator_new (Some 4096) 131072 = Some ba"
    by (simp add: BlockAllocator_new_def Mmap_new_def)
  have ok: "block_allocator_ok ba" "used_blocks ba = {}"
    using new_ok [OF _ ba] by (simp_all add: BLOCK_SIZE_def)
  obtain r ba' blocks' where get: "BlockAllocator_get_block ba (\<lambda>_. ImmixBlock_new) = (r, ba', blocks')"
    by (metis prod_cases3)
  moreover have "r = Some 32768"
    using ba get by (auto simp: BlockAllocator_new_def Mmap_new_def BlockAllocator_get_block_def
        BlockAllocator_build_block_def Mmap_aligned_def const_simps Let_def)
  ultimately show ?thesis
    using ba ok get_block_fresh [OF ok(1) get] by simp
qed

text \<open>
  the numbers the collector reads add up. In every state of the allocator the available blocks and
  the blocks in use are together the total number of blocks, and returning blocks that are in use
  makes exactly those available again.
\<close>

lemma block_accounting:
  assumes "block_allocator_ok ba" and "set bs \<subseteq> used_blocks ba" and "distinct bs"
  shows "BlockAllocator_available_blocks ba
      = Some (BlockAllocator_total_blocks ba - card (used_blocks ba)) \<and>
    card (used_blocks ba) \<le> BlockAllocator_total_blocks ba \<and>
    block_allocator_ok (BlockAllocator_return_blocks bs ba) \<and>
    used_blocks (BlockAllocator_return_blocks bs ba) = used_blocks ba - set bs \<and>
    BlockAllocator_available_blocks (BlockAllocator_return_blocks bs ba)
      = map_option (\<lambda>n. n + length bs) (BlockAllocator_available_blocks ba)"
  using available_blocks_eq [OF assms(1)] return_blocks_spec [OF assms]
  by (simp add: BlockAllocator_available_blocks_def return_blocks_eq bind_eq_Some_conv usub_def)

text \<open>
  C34: any number of threads may run the compare-and-swap loop of \<open>build_block\<close> at the same time, with
  any interleaving and spurious failures: no two threads are given the same block, every block between
  the start and the current \<open>data\<close> has been given to one of them, each lies below the bound, and a
  thread is refused only when there is no room for another block.
\<close>

theorem concurrent_build_block_unique:
  assumes "BLOCK_SIZE dvd d0" and "(build_block_step bound)\<^sup>*\<^sup>* \<lparr>cas_data = d0, cas_threads = (\<lambda>_. Entered)\<rparr> s"
  shows "{b. \<exists>t. cas_threads s t = Returned (Some b)} = {b. BLOCK_SIZE dvd b \<and> d0 \<le> b \<and> b < cas_data s} \<and>
    (\<forall>t u b. cas_threads s t = Returned (Some b) \<and> cas_threads s u = Returned (Some b) \<longrightarrow> t = u) \<and>
    (\<forall>t b. cas_threads s t = Returned (Some b) \<longrightarrow> b + BLOCK_SIZE \<le> bound) \<and>
    (\<forall>t. cas_threads s t = Returned None \<longrightarrow> bound < cas_data s + BLOCK_SIZE)"
  using cas_invariant_reachable [OF assms(2,1)] by (simp add: cas_invariant_def)

theorem concurrent_build_block_unique_witness:
  "\<exists>s. (build_block_step 65536)\<^sup>*\<^sup>* \<lparr>cas_data = 32768, cas_threads = (\<lambda>_. Entered)\<rparr> s \<and>
    cas_threads s 1 = Returned (Some 32768) \<and> 32768 + BLOCK_SIZE \<le> 65536"
proof -
  define s1 where "s1 = \<lparr>cas_data = 32768, cas_threads = (\<lambda>_. Entered)(1 := Loaded 32768)\<rparr>"
  define s2 where "s2 = s1\<lparr>cas_data := 32768 + BLOCK_SIZE,
      cas_threads := (cas_threads s1)(1 := Returned (Some 32768))\<rparr>"
  have "build_block_step 65536 (cas_start 32768) s1"
    using build_block_step.load [of "cas_start 32768" 1 65536] by (simp add: s1_def)
  moreover have "build_block_step 65536 s1 s2"
    unfolding s2_def by (rule build_block_step.exchange) (simp_all add: s1_def BLOCK_SIZE_def)
  ultimately have steps: "(build_block_step 65536)\<^sup>*\<^sup>* (cas_start 32768) s2" by simp
  have "cas_threads s2 1 = Returned (Some 32768)" by (simp add: s2_def)
  moreover have "BLOCK_SIZE dvd 32768" by (simp add: BLOCK_SIZE_def)
  ultimately show ?thesis
    using concurrent_build_block_unique [OF _ steps] steps by blast
qed

end
