(* ===== verification/Space_Bitmap.thy ===== *)
theory Space_Bitmap
  imports Util Bit_Table
begin

unbundle bit_operations_syntax

text \<open>
  \<open>SpaceBitmap<ALIGNMENT>\<close> of \<open>src/space_bitmap.rs\<close>: one bit for each \<open>ALIGNMENT\<close> bytes of the heap, in
  a mapping of its own. The const parameter is the argument \<open>al\<close>. The words of the mapping are
  \<open>mem_map\<close>; \<open>bitmap_begin\<close> always is the start of the mapping, as \<open>create_from_memmap\<close> makes it. The
  code indexes the mapping without a bounds check, so \<open>None\<close> stands for an access outside it. The
  relaxed atomic accesses are reads and writes of the word.
\<close>

record SpaceBitmap =
  mem_map :: "u64 list"
  bitmap_size :: usize
  heap_begin :: usize
  heap_limit :: usize

definition SpaceBitmap_offset_bit_index :: "usize \<Rightarrow> usize \<Rightarrow> usize" where
  "SpaceBitmap_offset_bit_index al offset = (offset div al) mod (8 * 8)"

definition SpaceBitmap_offset_to_index :: "usize \<Rightarrow> usize \<Rightarrow> usize" where
  "SpaceBitmap_offset_to_index al offset = offset div al div (8 * 8)"

definition SpaceBitmap_index_to_offset :: "usize \<Rightarrow> usize \<Rightarrow> usize" where
  "SpaceBitmap_index_to_offset al index = index * al * (8 * 8)"

definition SpaceBitmap_offset_to_mask :: "usize \<Rightarrow> usize \<Rightarrow> u64" where
  "SpaceBitmap_offset_to_mask al offset = one_shl (SpaceBitmap_offset_bit_index al offset)"

definition SpaceBitmap_compute_bitmap_size :: "usize \<Rightarrow> usize \<Rightarrow> usize" where
  "SpaceBitmap_compute_bitmap_size al capacity =
     (let bytes_covered_per_word = al * (8 * 8)
      in (unat (round_up (of_nat capacity) (of_nat bytes_covered_per_word))
            div bytes_covered_per_word) * 8)"

definition SpaceBitmap_compute_heap_size :: "usize \<Rightarrow> usize \<Rightarrow> usize" where
  "SpaceBitmap_compute_heap_size al bitmap_bytes = bitmap_bytes * 8 * al"

definition SpaceBitmap_create_from_memmap ::
    "usize \<Rightarrow> u64 list \<Rightarrow> usize \<Rightarrow> usize \<Rightarrow> SpaceBitmap" where
  "SpaceBitmap_create_from_memmap al map_words begin_addr heap_capacity =
     \<lparr>mem_map = map_words,
      bitmap_size = SpaceBitmap_compute_bitmap_size al heap_capacity,
      heap_begin = begin_addr,
      heap_limit = begin_addr + heap_capacity\<rparr>"

text \<open>\<open>MmapMut::map_anon(bitmap_size)\<close> is a zero-filled mapping of that many bytes.\<close>

definition SpaceBitmap_create :: "usize \<Rightarrow> usize \<Rightarrow> usize \<Rightarrow> SpaceBitmap" where
  "SpaceBitmap_create al begin_addr heap_capacity =
     (let bytes = SpaceBitmap_compute_bitmap_size al heap_capacity
      in SpaceBitmap_create_from_memmap al (replicate (bytes div 8) 0) begin_addr heap_capacity)"

text \<open>
  The walk over \<open>live & !mark\<close>: the pointer buffer holds 512 entries and is passed to the callback
  when 448 or more are filled. The result lists the buffers passed to the callback.
\<close>

definition sweep_buffer_size :: nat where
  "sweep_buffer_size = 8 * (8 * 8)"

definition sweep_pointer_end :: nat where
  "sweep_pointer_end = sweep_buffer_size - 8 * 8"

definition sweep_step ::
    "usize \<Rightarrow> SpaceBitmap \<Rightarrow> SpaceBitmap \<Rightarrow> nat \<Rightarrow> usize list \<times> usize list list \<Rightarrow>
     (usize list \<times> usize list list) option" where
  "sweep_step al live_bitmap mark_bitmap i s = do {
     live \<leftarrow> at_index (mem_map live_bitmap) i;
     mark \<leftarrow> at_index (mem_map mark_bitmap) i;
     let garbage = live AND NOT mark;
     let (buf, calls) = s;
     if garbage \<noteq> 0 then do {
       let ptr_base = SpaceBitmap_index_to_offset al i + heap_begin live_bitmap;
       let buf = buf @ visit_word (ptr_base + al) 1 garbage;
       if length buf > sweep_buffer_size then None
       else if sweep_pointer_end \<le> length buf then Some ([], calls @ [buf])
       else Some (buf, calls) }
     else Some (buf, calls) }"

definition SpaceBitmap_sweep_walk ::
    "usize \<Rightarrow> SpaceBitmap \<Rightarrow> SpaceBitmap \<Rightarrow> usize \<Rightarrow> usize \<Rightarrow> usize list list option" where
  "SpaceBitmap_sweep_walk al live_bitmap mark_bitmap sweep_begin sweep_end =
     (if sweep_end \<le> sweep_begin then Some []
      else do {
        o1 \<leftarrow> usub sweep_begin (heap_begin live_bitmap);
        o2 \<leftarrow> usub sweep_end (heap_begin live_bitmap + 1);
        let start = SpaceBitmap_offset_to_index al o1;
        let end = SpaceBitmap_offset_to_index al o2;
        (buf, calls) \<leftarrow> for_each (sweep_step al live_bitmap mark_bitmap) [start..<end + 1] ([], []);
        Some (if sweep_pointer_end \<le> length buf then calls @ [buf] else calls) })"

definition SpaceBitmap_atomic_test_and_set :: "usize \<Rightarrow> SpaceBitmap \<Rightarrow> usize \<Rightarrow> (bool \<times> SpaceBitmap) option" where
  "SpaceBitmap_atomic_test_and_set al bm object = do {
     offset \<leftarrow> usub object (heap_begin bm);
     let index = SpaceBitmap_offset_to_index al offset;
     let mask = SpaceBitmap_offset_to_mask al offset;
     old_word \<leftarrow> at_index (mem_map bm) index;
     if old_word AND mask \<noteq> 0 then Some (True, bm)
     else Some (False, bm\<lparr>mem_map := (mem_map bm)[index := old_word OR mask]\<rparr>) }"

definition SpaceBitmap_test :: "usize \<Rightarrow> SpaceBitmap \<Rightarrow> usize \<Rightarrow> bool option" where
  "SpaceBitmap_test al bm object = do {
     offset \<leftarrow> usub object (heap_begin bm);
     entry \<leftarrow> at_index (mem_map bm) (SpaceBitmap_offset_to_index al offset);
     Some (entry AND SpaceBitmap_offset_to_mask al offset \<noteq> 0) }"

definition SpaceBitmap_visit_marked_range ::
    "bool \<Rightarrow> usize \<Rightarrow> SpaceBitmap \<Rightarrow> usize \<Rightarrow> usize \<Rightarrow> usize list option" where
  "SpaceBitmap_visit_marked_range overflow_checks al bm visit_begin visit_end =
     visit_marked_range_words overflow_checks al (mem_map bm) (heap_begin bm) visit_begin visit_end"

definition SpaceBitmap_walk :: "usize \<Rightarrow> SpaceBitmap \<Rightarrow> usize list option" where
  "SpaceBitmap_walk al bm = do {
     len \<leftarrow> usub (heap_limit bm) (heap_begin bm + 1);
     let end = SpaceBitmap_offset_to_index al len;
     for_each (\<lambda>i acc. do {
         w \<leftarrow> at_index (mem_map bm) i;
         let ptr_base = SpaceBitmap_index_to_offset al i + heap_begin bm;
         Some (acc @ visit_word ptr_base al w) }) [0..<end + 1] [] }"

definition SpaceBitmap_modify :: "usize \<Rightarrow> bool \<Rightarrow> SpaceBitmap \<Rightarrow> usize \<Rightarrow> (bool \<times> SpaceBitmap) option" where
  "SpaceBitmap_modify al SET_BIT bm obj = do {
     offset \<leftarrow> usub obj (heap_begin bm);
     let index = SpaceBitmap_offset_to_index al offset;
     let mask = SpaceBitmap_offset_to_mask al offset;
     old_word \<leftarrow> at_index (mem_map bm) index;
     let bm' = (if SET_BIT
                then if old_word AND mask = 0
                     then bm\<lparr>mem_map := (mem_map bm)[index := old_word OR mask]\<rparr> else bm
                else bm\<lparr>mem_map := (mem_map bm)[index := old_word AND NOT mask]\<rparr>);
     Some (old_word AND mask \<noteq> 0, bm') }"

definition SpaceBitmap_clear :: "usize \<Rightarrow> SpaceBitmap \<Rightarrow> usize \<Rightarrow> SpaceBitmap option" where
  "SpaceBitmap_clear al bm obj = map_option snd (SpaceBitmap_modify al False bm obj)"

definition SpaceBitmap_set :: "usize \<Rightarrow> SpaceBitmap \<Rightarrow> usize \<Rightarrow> SpaceBitmap option" where
  "SpaceBitmap_set al bm obj = map_option snd (SpaceBitmap_modify al True bm obj)"

definition SpaceBitmap_set_heap_limit :: "usize \<Rightarrow> SpaceBitmap \<Rightarrow> usize \<Rightarrow> SpaceBitmap option" where
  "SpaceBitmap_set_heap_limit al bm new_end = do {
     len \<leftarrow> usub new_end (heap_begin bm);
     let new_size = SpaceBitmap_offset_to_index al len * 8;
     let bm = (if new_size < bitmap_size bm then bm\<lparr>bitmap_size := new_size\<rparr> else bm);
     Some (bm\<lparr>heap_limit := new_end\<rparr>) }"

definition SpaceBitmap_clear_to_zeros :: "SpaceBitmap \<Rightarrow> SpaceBitmap" where
  "SpaceBitmap_clear_to_zeros bm = bm\<lparr>mem_map := map (\<lambda>_. 0) (mem_map bm)\<rparr>"

text \<open>The two loops of \<open>clear_range\<close> over the partial words, and \<open>write_bytes\<close> of whole words.\<close>

partial_function (option) clear_low_cells ::
    "usize \<Rightarrow> SpaceBitmap \<Rightarrow> usize \<Rightarrow> usize \<Rightarrow> (usize \<times> SpaceBitmap) option" where
  "clear_low_cells al bm begin_offset end_offset =
     (if begin_offset < end_offset \<and> SpaceBitmap_offset_bit_index al begin_offset \<noteq> 0
      then do {
        bm \<leftarrow> SpaceBitmap_clear al bm (heap_begin bm + begin_offset);
        clear_low_cells al bm (begin_offset + al) end_offset }
      else Some (begin_offset, bm))"

partial_function (option) clear_high_cells ::
    "usize \<Rightarrow> SpaceBitmap \<Rightarrow> usize \<Rightarrow> usize \<Rightarrow> (usize \<times> SpaceBitmap) option" where
  "clear_high_cells al bm begin_offset end_offset =
     (if begin_offset < end_offset \<and> SpaceBitmap_offset_bit_index al end_offset \<noteq> 0
      then do {
        end_offset \<leftarrow> usub end_offset al;
        bm \<leftarrow> SpaceBitmap_clear al bm (heap_begin bm + end_offset);
        clear_high_cells al bm begin_offset end_offset }
      else Some (end_offset, bm))"

definition write_zero_words :: "nat \<Rightarrow> nat \<Rightarrow> u64 list \<Rightarrow> u64 list option" where
  "write_zero_words start n ws =
     (if n = 0 \<or> start + n \<le> length ws
      then Some (take start ws @ replicate n 0 @ drop (start + n) ws) else None)"

definition SpaceBitmap_clear_range :: "usize \<Rightarrow> SpaceBitmap \<Rightarrow> usize \<Rightarrow> usize \<Rightarrow> SpaceBitmap option" where
  "SpaceBitmap_clear_range al bm begin_addr end_addr = do {
     begin_offset \<leftarrow> usub begin_addr (heap_begin bm);
     end_offset \<leftarrow> usub end_addr (heap_begin bm);
     (begin_offset, bm) \<leftarrow> clear_low_cells al bm begin_offset end_offset;
     (end_offset, bm) \<leftarrow> clear_high_cells al bm begin_offset end_offset;
     let start_index = SpaceBitmap_offset_to_index al begin_offset;
     let end_index = SpaceBitmap_offset_to_index al end_offset;
     n \<leftarrow> usub end_index start_index;
     ws \<leftarrow> write_zero_words start_index n (mem_map bm);
     Some (bm\<lparr>mem_map := ws\<rparr>) }"

definition SpaceBitmap_set_heap_size :: "usize \<Rightarrow> SpaceBitmap \<Rightarrow> usize \<Rightarrow> SpaceBitmap" where
  "SpaceBitmap_set_heap_size al bm bytes =
     bm\<lparr>heap_limit := heap_begin bm + bytes, bitmap_size := SpaceBitmap_offset_to_index al bytes * 8\<rparr>"

definition SpaceBitmap_copy_from :: "SpaceBitmap \<Rightarrow> SpaceBitmap \<Rightarrow> SpaceBitmap option" where
  "SpaceBitmap_copy_from bm source_bitmap = do {
     let count = bitmap_size source_bitmap div 8;
     ws \<leftarrow> for_each (\<lambda>i dest. do { w \<leftarrow> at_index (mem_map source_bitmap) i; put_index dest i w })
            [0..<count] (mem_map bm);
     Some (bm\<lparr>mem_map := ws\<rparr>) }"

section \<open>The bitmap as a set of cells\<close>

text \<open>Cell \<open>i\<close> stands for the address \<open>heap_begin + i * al\<close>.\<close>

definition SpaceBitmap_marked :: "SpaceBitmap \<Rightarrow> nat \<Rightarrow> bool" where
  "SpaceBitmap_marked bm i = words_bit (mem_map bm) i"

abbreviation bitmap_cells :: "SpaceBitmap \<Rightarrow> nat" where
  "bitmap_cells bm \<equiv> 64 * length (mem_map bm)"

lemmas bitmap_offset_defs = SpaceBitmap_offset_to_index_def SpaceBitmap_offset_to_mask_def
  SpaceBitmap_offset_bit_index_def SpaceBitmap_index_to_offset_def

lemma SpaceBitmap_test_offset:
  "SpaceBitmap_test al bm (heap_begin bm + off)
    = (if off div al < bitmap_cells bm then Some (SpaceBitmap_marked bm (off div al)) else None)"
  by (auto simp: SpaceBitmap_test_def bitmap_offset_defs SpaceBitmap_marked_def words_bit_def
      at_index_def and_mask_bit div_less_iff_less_mult mult.commute)

lemma SpaceBitmap_test_below: "object < heap_begin bm \<Longrightarrow> SpaceBitmap_test al bm object = None"
  by (simp add: SpaceBitmap_test_def usub_def)

lemma SpaceBitmap_modify_offset:
  assumes "off div al < bitmap_cells bm"
  shows "\<exists>ws. SpaceBitmap_modify al x bm (heap_begin bm + off)
      = Some (SpaceBitmap_marked bm (off div al), bm\<lparr>mem_map := ws\<rparr>) \<and>
    length ws = length (mem_map bm) \<and>
    (\<forall>j. words_bit ws j = (if j = off div al then x else SpaceBitmap_marked bm j))"
proof -
  let ?i = "off div al" and ?ws = "mem_map bm"
  have i: "?i div 64 < length ?ws" using assms by (simp add: div_less_iff_less_mult mult.commute)
  show ?thesis
  proof (cases "x \<and> SpaceBitmap_marked bm ?i")
    case True
    then have "SpaceBitmap_modify al x bm (heap_begin bm + off)
        = Some (SpaceBitmap_marked bm ?i, bm\<lparr>mem_map := ?ws\<rparr>)"
      using i by (auto simp: SpaceBitmap_modify_def bitmap_offset_defs SpaceBitmap_marked_def
          words_bit_def and_mask_bit and_mask_bit_zero Let_def)
    then show ?thesis using True by (intro exI [of _ ?ws]) (auto simp: SpaceBitmap_marked_def)
  next
    case False
    let ?w = "if x then ?ws ! (?i div 64) OR one_shl (?i mod 64)
              else ?ws ! (?i div 64) AND NOT (one_shl (?i mod 64))"
    have "SpaceBitmap_modify al x bm (heap_begin bm + off)
        = Some (SpaceBitmap_marked bm ?i, bm\<lparr>mem_map := ?ws[?i div 64 := ?w]\<rparr>)"
      using False i by (auto simp: SpaceBitmap_modify_def bitmap_offset_defs SpaceBitmap_marked_def
          words_bit_def and_mask_bit and_mask_bit_zero Let_def)
    then show ?thesis
      using words_bit_or [OF i] words_bit_and_not [OF i]
      by (intro exI [of _ "?ws[?i div 64 := ?w]"]) (auto simp: SpaceBitmap_marked_def)
  qed
qed

lemma SpaceBitmap_clear_offset:
  assumes "off div al < bitmap_cells bm"
  shows "\<exists>ws. SpaceBitmap_clear al bm (heap_begin bm + off) = Some (bm\<lparr>mem_map := ws\<rparr>) \<and>
    length ws = length (mem_map bm) \<and>
    (\<forall>j. words_bit ws j = (j \<noteq> off div al \<and> SpaceBitmap_marked bm j))"
proof -
  obtain ws where "SpaceBitmap_modify al False bm (heap_begin bm + off)
      = Some (SpaceBitmap_marked bm (off div al), bm\<lparr>mem_map := ws\<rparr>)"
    "length ws = length (mem_map bm)"
    "\<forall>j. words_bit ws j = (if j = off div al then False else SpaceBitmap_marked bm j)"
    using SpaceBitmap_modify_offset [OF assms, of False] by blast
  then show ?thesis by (intro exI [of _ ws]) (simp add: SpaceBitmap_clear_def)
qed

lemma SpaceBitmap_set_offset:
  assumes "off div al < bitmap_cells bm"
  shows "\<exists>ws. SpaceBitmap_set al bm (heap_begin bm + off) = Some (bm\<lparr>mem_map := ws\<rparr>) \<and>
    length ws = length (mem_map bm) \<and>
    (\<forall>j. words_bit ws j = (j = off div al \<or> SpaceBitmap_marked bm j))"
proof -
  obtain ws where "SpaceBitmap_modify al True bm (heap_begin bm + off)
      = Some (SpaceBitmap_marked bm (off div al), bm\<lparr>mem_map := ws\<rparr>)"
    "length ws = length (mem_map bm)"
    "\<forall>j. words_bit ws j = (if j = off div al then True else SpaceBitmap_marked bm j)"
    using SpaceBitmap_modify_offset [OF assms, of True] by blast
  then show ?thesis by (intro exI [of _ ws]) (simp add: SpaceBitmap_set_def)
qed

lemma atomic_test_and_set_eq_modify:
  "SpaceBitmap_atomic_test_and_set al bm obj = SpaceBitmap_modify al True bm obj"
  by (auto simp: SpaceBitmap_atomic_test_and_set_def SpaceBitmap_modify_def Let_def
      split: Option.bind_splits intro!: Option.bind_cong)

text \<open>The instance \<open>SpaceBitmap<16>\<close> of the crate, by cell number.\<close>

definition bitmap_test_cell :: "nat \<Rightarrow> SpaceBitmap \<Rightarrow> bool option" where
  "bitmap_test_cell i bm = SpaceBitmap_test 16 bm (heap_begin bm + i * 16)"

definition bitmap_put_cell :: "bool \<Rightarrow> nat \<Rightarrow> SpaceBitmap \<Rightarrow> SpaceBitmap option" where
  "bitmap_put_cell x i bm = map_option snd (SpaceBitmap_modify 16 x bm (heap_begin bm + i * 16))"

interpretation cells: bit_table "\<lambda>_. True" bitmap_cells SpaceBitmap_marked bitmap_test_cell bitmap_put_cell
proof
  fix m m' i j x
  assume i: "i < bitmap_cells m"
  then show "bitmap_test_cell i m = Some (SpaceBitmap_marked m i)"
    by (simp add: bitmap_test_cell_def SpaceBitmap_test_offset)
  obtain ws where ws: "bitmap_put_cell x i m = Some (m\<lparr>mem_map := ws\<rparr>)"
    "length ws = length (mem_map m)"
    "\<forall>j. words_bit ws j = (if j = i then x else SpaceBitmap_marked m j)"
    using SpaceBitmap_modify_offset [of "i * 16" 16 m x] i by (auto simp: bitmap_put_cell_def)
  then show "\<exists>m'. bitmap_put_cell x i m = Some m'" by blast
  assume "bitmap_put_cell x i m = Some m'"
  then show "bitmap_cells m' = bitmap_cells m"
    and "SpaceBitmap_marked m' j = (if j = i then x else SpaceBitmap_marked m j)"
    using ws by (auto simp: SpaceBitmap_marked_def)
qed simp

section \<open>Clearing a range\<close>

text \<open>The loops over the partial words stop, and clear exactly the cells they pass.\<close>

lemma clear_low_cells_spec:
  assumes "0 < al" and "e \<le> bitmap_cells bm" and "i \<le> e"
  shows "\<exists>i' ws. clear_low_cells al bm (i * al) (e * al) = Some (i' * al, bm\<lparr>mem_map := ws\<rparr>) \<and>
    length ws = length (mem_map bm) \<and> i \<le> i' \<and> i' \<le> e \<and> (i' < e \<longrightarrow> 64 dvd i') \<and>
    (\<forall>j. words_bit ws j = (\<not> (i \<le> j \<and> j < i') \<and> SpaceBitmap_marked bm j))"
  using assms(2,3)
proof (induction "e - i" arbitrary: i bm)
  case 0
  then have "clear_low_cells al bm (i * al) (e * al) = Some (i * al, bm\<lparr>mem_map := mem_map bm\<rparr>)"
    by (subst clear_low_cells.simps) simp
  then show ?case
    using 0 by (intro exI [of _ i] exI [of _ "mem_map bm"]) (auto simp: SpaceBitmap_marked_def)
next
  case (Suc n)
  show ?case
  proof (cases "64 dvd i")
    case True
    then have "clear_low_cells al bm (i * al) (e * al) = Some (i * al, bm\<lparr>mem_map := mem_map bm\<rparr>)"
      using assms(1) by (subst clear_low_cells.simps) (auto simp: SpaceBitmap_offset_bit_index_def)
    then show ?thesis
      using True Suc.prems by (intro exI [of _ i] exI [of _ "mem_map bm"]) (auto simp: SpaceBitmap_marked_def)
  next
    case False
    have lt: "i < e" and n: "n = e - Suc i" using Suc.hyps(2) by auto
    obtain ws where ws: "SpaceBitmap_clear al bm (heap_begin bm + i * al) = Some (bm\<lparr>mem_map := ws\<rparr>)"
      "length ws = length (mem_map bm)" "\<And>j. words_bit ws j = (j \<noteq> i \<and> SpaceBitmap_marked bm j)"
      using SpaceBitmap_clear_offset [of "i * al" al bm] lt Suc.prems assms(1) by auto
    obtain i' ws' where IH: "clear_low_cells al (bm\<lparr>mem_map := ws\<rparr>) (Suc i * al) (e * al)
        = Some (i' * al, bm\<lparr>mem_map := ws'\<rparr>)" "length ws' = length ws" "Suc i \<le> i'" "i' \<le> e"
        "i' < e \<longrightarrow> 64 dvd i'" "\<And>j. words_bit ws' j = (\<not> (Suc i \<le> j \<and> j < i') \<and> words_bit ws j)"
      using Suc.hyps(1) [OF n, of "bm\<lparr>mem_map := ws\<rparr>"] Suc.prems lt ws(2)
      by (auto simp: SpaceBitmap_marked_def)
    have "clear_low_cells al bm (i * al) (e * al) = Some (i' * al, bm\<lparr>mem_map := ws'\<rparr>)"
      using False lt ws(1) IH(1) assms(1)
      by (subst clear_low_cells.simps)
        (auto simp: SpaceBitmap_offset_bit_index_def add.commute dvd_eq_mod_eq_0)
    moreover have "words_bit ws' j = (\<not> (i \<le> j \<and> j < i') \<and> SpaceBitmap_marked bm j)" for j
      unfolding IH(6) ws(3) using IH(3) by auto
    moreover have "length ws' = length (mem_map bm)" "i \<le> i'" using IH(2,3) ws(2) by auto
    ultimately show ?thesis using IH(4,5) by blast
  qed
qed

lemma clear_high_cells_spec:
  assumes "0 < al" and "e \<le> bitmap_cells bm" and "i \<le> e"
  shows "\<exists>e' ws. clear_high_cells al bm (i * al) (e * al) = Some (e' * al, bm\<lparr>mem_map := ws\<rparr>) \<and>
    length ws = length (mem_map bm) \<and> i \<le> e' \<and> e' \<le> e \<and> (i < e' \<longrightarrow> 64 dvd e') \<and>
    (\<forall>j. words_bit ws j = (\<not> (e' \<le> j \<and> j < e) \<and> SpaceBitmap_marked bm j))"
  using assms(2,3)
proof (induction "e - i" arbitrary: e bm)
  case 0
  then have "clear_high_cells al bm (i * al) (e * al) = Some (e * al, bm\<lparr>mem_map := mem_map bm\<rparr>)"
    by (subst clear_high_cells.simps) simp
  then show ?case
    using 0 by (intro exI [of _ e] exI [of _ "mem_map bm"]) (auto simp: SpaceBitmap_marked_def)
next
  case (Suc n)
  show ?case
  proof (cases "64 dvd e")
    case True
    then have "clear_high_cells al bm (i * al) (e * al) = Some (e * al, bm\<lparr>mem_map := mem_map bm\<rparr>)"
      using assms(1) by (subst clear_high_cells.simps) (auto simp: SpaceBitmap_offset_bit_index_def)
    then show ?thesis
      using True Suc.prems by (intro exI [of _ e] exI [of _ "mem_map bm"]) (auto simp: SpaceBitmap_marked_def)
  next
    case False
    have lt: "i < e" using Suc.hyps(2) by simp
    then obtain d where d: "e = Suc d" by (cases e) auto
    have n: "n = d - i" using Suc.hyps(2) d lt by simp
    obtain ws where ws: "SpaceBitmap_clear al bm (heap_begin bm + d * al) = Some (bm\<lparr>mem_map := ws\<rparr>)"
      "length ws = length (mem_map bm)" "\<And>j. words_bit ws j = (j \<noteq> d \<and> SpaceBitmap_marked bm j)"
      using SpaceBitmap_clear_offset [of "d * al" al bm] d Suc.prems assms(1) by auto
    obtain e' ws' where IH: "clear_high_cells al (bm\<lparr>mem_map := ws\<rparr>) (i * al) (d * al)
        = Some (e' * al, bm\<lparr>mem_map := ws'\<rparr>)" "length ws' = length ws" "i \<le> e'" "e' \<le> d"
        "i < e' \<longrightarrow> 64 dvd e'" "\<And>j. words_bit ws' j = (\<not> (e' \<le> j \<and> j < d) \<and> words_bit ws j)"
      using Suc.hyps(1) [OF n, of "bm\<lparr>mem_map := ws\<rparr>"] Suc.prems d lt ws(2)
      by (auto simp: SpaceBitmap_marked_def)
    have "usub (e * al) al = Some (d * al)" by (simp add: d usub_def)
    then have "clear_high_cells al bm (i * al) (e * al) = Some (e' * al, bm\<lparr>mem_map := ws'\<rparr>)"
      using False lt ws(1) IH(1) assms(1)
      by (subst clear_high_cells.simps)
        (auto simp: SpaceBitmap_offset_bit_index_def dvd_eq_mod_eq_0)
    moreover have "words_bit ws' j = (\<not> (e' \<le> j \<and> j < e) \<and> SpaceBitmap_marked bm j)" for j
      unfolding IH(6) ws(3) d using IH(4) by auto
    moreover have "length ws' = length (mem_map bm)" "e' \<le> e" using IH(2,4) ws(2) d by auto
    ultimately show ?thesis using IH(3,5) by blast
  qed
qed

lemma words_bit_zero_words:
  assumes "s + n \<le> length ws"
  shows "words_bit (take s ws @ replicate n 0 @ drop (s + n) ws) j
    = (\<not> (s * 64 \<le> j \<and> j < (s + n) * 64) \<and> words_bit ws j)"
proof -
  let ?ws = "take s ws @ replicate n 0 @ drop (s + n) ws"
  have "?ws ! k = (if s \<le> k \<and> k < s + n then 0 else ws ! k)" if "k < length ws" for k
    using that assms by (auto simp: nth_append)
  moreover have "length ?ws = length ws" using assms by simp
  moreover have "s \<le> j div 64 \<longleftrightarrow> s * 64 \<le> j" "j div 64 < s + n \<longleftrightarrow> j < (s + n) * 64"
    by (simp_all add: less_eq_div_iff_mult_less_eq div_less_iff_less_mult)
  ultimately show ?thesis by (auto simp: words_bit_def)
qed

lemma clear_range_cells:
  assumes "0 < al" and "i \<le> e" and "e \<le> bitmap_cells bm"
  shows "\<exists>ws. SpaceBitmap_clear_range al bm (heap_begin bm + i * al) (heap_begin bm + e * al)
      = Some (bm\<lparr>mem_map := ws\<rparr>) \<and> length ws = length (mem_map bm) \<and>
    (\<forall>j. words_bit ws j = (\<not> (i \<le> j \<and> j < e) \<and> SpaceBitmap_marked bm j))"
proof -
  obtain i' ws1 where low: "clear_low_cells al bm (i * al) (e * al) = Some (i' * al, bm\<lparr>mem_map := ws1\<rparr>)"
    "length ws1 = length (mem_map bm)" "i \<le> i'" "i' \<le> e" "i' < e \<longrightarrow> 64 dvd i'"
    "\<And>j. words_bit ws1 j = (\<not> (i \<le> j \<and> j < i') \<and> SpaceBitmap_marked bm j)"
    using clear_low_cells_spec [OF assms(1,3,2)] by blast
  obtain e' ws2 where high: "clear_high_cells al (bm\<lparr>mem_map := ws1\<rparr>) (i' * al) (e * al)
      = Some (e' * al, bm\<lparr>mem_map := ws2\<rparr>)"
    "length ws2 = length ws1" "i' \<le> e'" "e' \<le> e" "i' < e' \<longrightarrow> 64 dvd e'"
    "\<And>j. words_bit ws2 j = (\<not> (e' \<le> j \<and> j < e) \<and> words_bit ws1 j)"
    using clear_high_cells_spec [OF assms(1), of e "bm\<lparr>mem_map := ws1\<rparr>" i'] low assms
    by (auto simp: SpaceBitmap_marked_def)
  let ?s = "i' div 64" and ?n = "e' div 64 - i' div 64"
  have le: "?s \<le> e' div 64" using high(3) by (rule div_le_mono)
  have fits: "?n = 0 \<or> ?s + ?n \<le> length ws2"
    using le high(2,4) low(2) assms(3) div_le_mono [of e' "64 * length ws2" 64] by simp
  define ws where "ws = take ?s ws2 @ replicate ?n 0 @ drop (?s + ?n) ws2"
  have run: "SpaceBitmap_clear_range al bm (heap_begin bm + i * al) (heap_begin bm + e * al)
      = Some (bm\<lparr>mem_map := ws\<rparr>)"
    using low(1) high(1) le fits assms(1)
    by (simp add: SpaceBitmap_clear_range_def SpaceBitmap_offset_to_index_def write_zero_words_def Let_def ws_def)
  have bits: "words_bit ws j = (\<not> (i' \<le> j \<and> j < e') \<and> words_bit ws2 j)" for j
  proof (cases "i' < e'")
    case True
    then have "64 dvd i'" "64 dvd e'" using low(5) high(4,5) by auto
    then have "i' div 64 * 64 = i'" "(?s + ?n) * 64 = e'" using le by auto
    then show ?thesis
      using words_bit_zero_words [of ?s ?n ws2 j] fits True by (cases "?n = 0") (auto simp: ws_def)
  next
    case False
    then have "?n = 0" using high(3) by simp
    then have "ws = ws2" by (simp add: ws_def)
    then show ?thesis using False by simp
  qed
  have "words_bit ws j = (\<not> (i \<le> j \<and> j < e) \<and> SpaceBitmap_marked bm j)" for j
    unfolding bits high(6) low(6) using low(3,4) high(3,4) by auto
  moreover have "length ws = length (mem_map bm)"
    using fits high(2) low(2) by (auto simp: ws_def)
  ultimately show ?thesis using run by blast
qed

section \<open>Creation\<close>

lemma create_simps [simp]:
  "heap_begin (SpaceBitmap_create al b c) = b" "heap_limit (SpaceBitmap_create al b c) = b + c"
  "\<not> SpaceBitmap_marked (SpaceBitmap_create al b c) i"
  by (simp_all add: SpaceBitmap_create_def SpaceBitmap_create_from_memmap_def SpaceBitmap_marked_def
      words_bit_zero Let_def)

lemma compute_bitmap_size_16:
  assumes "c + 1024 \<le> 2 ^ 64"
  shows "SpaceBitmap_compute_bitmap_size 16 c = 16 * ((c + 1023) div 1024 div 2)"
proof -
  have "(of_nat (16 * (8 * 8)) :: u64) = one_shl 10" by (simp add: one_shl_def)
  then show ?thesis
    using round_up_one_shl [of 10 c] assms
    by (simp add: SpaceBitmap_compute_bitmap_size_def Let_def del: of_nat_mult)
qed

lemma create_cells_16:
  assumes "c + 1024 \<le> 2 ^ 64"
  shows "bitmap_cells (SpaceBitmap_create 16 b c) = 128 * ((c + 1023) div 1024 div 2)"
  using compute_bitmap_size_16 [OF assms]
  by (simp add: SpaceBitmap_create_def SpaceBitmap_create_from_memmap_def Let_def)

lemma create_cells_page:
  assumes "2048 dvd c" and "c + 1024 \<le> 2 ^ 64"
  shows "bitmap_cells (SpaceBitmap_create 16 b c) = c div 16"
proof -
  obtain k where c: "c = 2048 * k" using assms(1) by blast
  have "(2048 * k + 1023) div 1024 = 2 * k" by linarith
  then show ?thesis using create_cells_16 [OF assms(2)] by (simp add: c)
qed

section \<open>Walks\<close>

lemma walk_eq:
  assumes "0 < al" and "heap_begin bm < heap_limit bm"
    and "n = (heap_limit bm - heap_begin bm - 1) div al div 64 + 1" and "n \<le> length (mem_map bm)"
  shows "SpaceBitmap_walk al bm =
    Some (map (\<lambda>i. heap_begin bm + i * al) (filter (SpaceBitmap_marked bm) [0..<64 * n]))"
proof -
  let ?visit = "\<lambda>k. visit_word (k * al * 64 + heap_begin bm) al (mem_map bm ! k)"
  have len: "usub (heap_limit bm) (Suc (heap_begin bm)) = Some (heap_limit bm - heap_begin bm - 1)"
    using assms(2) by (simp add: usub_def)
  have "SpaceBitmap_walk al bm = for_each (\<lambda>i acc. do {
      w \<leftarrow> at_index (mem_map bm) i; Some (acc @ visit_word (i * al * 64 + heap_begin bm) al w) })
      [0..<n] []"
    by (simp add: SpaceBitmap_walk_def len bitmap_offset_defs assms(3) Let_def)
  also have "\<dots> = Some (concat (map ?visit [0..<n]))"
    by (subst for_each_visit) (use assms(4) in auto)
  also have "concat (map ?visit [0..<n])
      = map (\<lambda>i. heap_begin bm + i * al) (filter (words_bit (mem_map bm)) [0..<64 * n])"
    using assms(4) by (rule visit_words_eq)
  finally show ?thesis by (simp add: SpaceBitmap_marked_def [abs_def])
qed

text \<open>The addresses that \<open>sweep_walk\<close> writes for word \<open>i\<close>.\<close>

definition sweep_entries :: "usize \<Rightarrow> SpaceBitmap \<Rightarrow> SpaceBitmap \<Rightarrow> nat \<Rightarrow> usize list" where
  "sweep_entries al live mk i =
     map (\<lambda>shift. i * al * 64 + heap_begin live + al + shift)
       (filter (\<lambda>n. bit (mem_map live ! i) n \<and> \<not> bit (mem_map mk ! i) n) [0..<64])"

lemma sweep_word_entries:
  "visit_word (i * al * 64 + heap_begin live + al) (Suc 0) (mem_map live ! i AND NOT (mem_map mk ! i))
    = sweep_entries al live mk i"
proof -
  have "filter (bit (mem_map live ! i AND NOT (mem_map mk ! i))) [0..<64]
      = filter (\<lambda>n. bit (mem_map live ! i) n \<and> \<not> bit (mem_map mk ! i) n) [0..<64]"
    by (intro filter_cong) (auto simp: bit_and_iff bit_not_iff)
  then show ?thesis by (simp add: visit_word_eq sweep_entries_def)
qed

lemma length_sweep_entries: "length (sweep_entries al live mk i) \<le> 64"
  by (simp add: sweep_entries_def) (metis length_filter_le length_upt minus_nat.diff_0)

lemma sweep_loop:
  assumes "\<forall>i \<in> set is. i < length (mem_map live) \<and> i < length (mem_map mk)" and "length buf < 448"
  shows "\<exists>buf' calls'. for_each (sweep_step al live mk) is (buf, calls) = Some (buf', calls @ calls') \<and>
    length buf' < 448 \<and> (\<forall>c \<in> set calls'. 448 \<le> length c \<and> length c \<le> 512) \<and>
    concat calls' @ buf' = buf @ concat (map (sweep_entries al live mk) is)"
  using assms
proof (induction "is" arbitrary: buf calls)
  case (Cons i "is")
  let ?new = "sweep_entries al live mk i"
  have i: "i < length (mem_map live)" "i < length (mem_map mk)" using Cons.prems by auto
  have new: "length ?new \<le> 64" by (rule length_sweep_entries)
  have empty: "?new = []" if "mem_map live ! i AND NOT (mem_map mk ! i) = 0"
    unfolding sweep_word_entries [symmetric] that by simp
  have step: "sweep_step al live mk i (buf, calls)
      = Some (if 448 \<le> length (buf @ ?new) then ([], calls @ [buf @ ?new]) else (buf @ ?new, calls))"
    using i new Cons.prems(2) empty
    by (auto simp: sweep_step_def SpaceBitmap_index_to_offset_def sweep_word_entries Let_def
        sweep_buffer_size_def sweep_pointer_end_def)
  show ?case
  proof (cases "448 \<le> length (buf @ ?new)")
    case True
    obtain buf' calls' where IH:
      "for_each (sweep_step al live mk) is ([], calls @ [buf @ ?new]) = Some (buf', (calls @ [buf @ ?new]) @ calls')"
      "length buf' < 448" "\<forall>c \<in> set calls'. 448 \<le> length c \<and> length c \<le> 512"
      "concat calls' @ buf' = concat (map (sweep_entries al live mk) is)"
      using Cons.IH [of "[]" "calls @ [buf @ ?new]"] Cons.prems by auto
    then show ?thesis
      using True step new Cons.prems(2)
      by (intro exI [of _ buf'] exI [of _ "(buf @ ?new) # calls'"]) auto
  next
    case False
    then show ?thesis using Cons.IH [of "buf @ ?new" calls] Cons.prems step by auto
  qed
qed auto

section \<open>Properties\<close>

text \<open>
  a bitmap of the crate behaves as a set of 16-byte cells. At every byte offset of the heap that
  the mapping covers, \<open>test\<close> reads the membership of the offset's cell, \<open>modify\<close> returns the old
  membership and adds or removes exactly that cell, and \<open>atomic_test_and_set\<close> is \<open>modify<true>\<close>;
  an offset beyond the mapping is an out-of-bounds access.
\<close>

lemma space_bitmap_refines_set:
  shows "SpaceBitmap_test 16 bm (heap_begin bm + off)
      = (if off div 16 < 64 * length (mem_map bm) then Some (SpaceBitmap_marked bm (off div 16)) else None) \<and>
    SpaceBitmap_atomic_test_and_set 16 bm (heap_begin bm + off)
      = SpaceBitmap_modify 16 True bm (heap_begin bm + off) \<and>
    (off div 16 < 64 * length (mem_map bm) \<longrightarrow>
      (\<exists>bm'. SpaceBitmap_modify 16 x bm (heap_begin bm + off)
          = Some (SpaceBitmap_marked bm (off div 16), bm') \<and>
        heap_begin bm' = heap_begin bm \<and> length (mem_map bm') = length (mem_map bm) \<and>
        Collect (SpaceBitmap_marked bm') =
          (if x then insert (off div 16) (Collect (SpaceBitmap_marked bm))
           else Collect (SpaceBitmap_marked bm) - {off div 16})))"
proof (intro conjI impI)
  assume "off div 16 < bitmap_cells bm"
  from SpaceBitmap_modify_offset [OF this, of x] obtain ws where
    ws: "SpaceBitmap_modify 16 x bm (heap_begin bm + off)
      = Some (SpaceBitmap_marked bm (off div 16), bm\<lparr>mem_map := ws\<rparr>)"
    "length ws = length (mem_map bm)"
    "\<forall>j. words_bit ws j = (if j = off div 16 then x else SpaceBitmap_marked bm j)" by blast
  have "SpaceBitmap_marked (bm\<lparr>mem_map := ws\<rparr>) j = (if j = off div 16 then x else SpaceBitmap_marked bm j)" for j
    using ws(3) by (simp add: SpaceBitmap_marked_def)
  then show "\<exists>bm'. SpaceBitmap_modify 16 x bm (heap_begin bm + off)
        = Some (SpaceBitmap_marked bm (off div 16), bm') \<and>
      heap_begin bm' = heap_begin bm \<and> length (mem_map bm') = length (mem_map bm) \<and>
      Collect (SpaceBitmap_marked bm') =
        (if x then insert (off div 16) (Collect (SpaceBitmap_marked bm))
         else Collect (SpaceBitmap_marked bm) - {off div 16})"
    using ws(1,2) by (intro exI [of _ "bm\<lparr>mem_map := ws\<rparr>"]) (cases x, simp_all add: set_eq_iff)
qed (simp_all add: SpaceBitmap_test_offset atomic_test_and_set_eq_modify)

text \<open>
  C37: the bitmap created for a heap whose capacity is a multiple of 2048 bytes (every page-aligned
  capacity is) starts with no cell set and covers every address of the heap, but not the address just
  past the end, which \<open>BlockAllocator::is_in_space\<close> accepts. The rounding in
  \<open>compute_bitmap_size\<close> makes a capacity of an odd number of 1024-byte units one word short.
\<close>

theorem create_covers_heap:
  assumes "c + 1024 \<le> 2 ^ 64"
  shows "(2048 dvd c \<longrightarrow>
      (\<forall>a. b \<le> a \<and> a < b + c \<longrightarrow> SpaceBitmap_test 16 (SpaceBitmap_create 16 b c) a = Some False) \<and>
      SpaceBitmap_test 16 (SpaceBitmap_create 16 b c) (b + c) = None) \<and>
    (1024 dvd c \<and> \<not> 2048 dvd c \<longrightarrow> SpaceBitmap_test 16 (SpaceBitmap_create 16 b c) (b + c - 1024) = None)"
proof (intro conjI impI allI)
  let ?bm = "SpaceBitmap_create 16 b c"
  have test: "SpaceBitmap_test 16 ?bm (b + off)
      = (if off div 16 < bitmap_cells ?bm then Some False else None)" for off
    using SpaceBitmap_test_offset [of 16 ?bm off] by simp
  {
    assume c: "2048 dvd c"
    note cells = create_cells_page [OF c assms, of b]
    have "16 dvd c" using c by (rule dvd_trans [rotated]) simp
    then show "SpaceBitmap_test 16 ?bm (b + c) = None" by (simp add: test cells)
    fix a assume a: "b \<le> a \<and> a < b + c"
    have "(a - b) div 16 < c div 16"
      using a \<open>16 dvd c\<close> by (auto simp: div_less_iff_less_mult)
    then have "SpaceBitmap_test 16 ?bm (b + (a - b)) = Some False" unfolding test cells by simp
    then show "SpaceBitmap_test 16 ?bm a = Some False" using a by simp
  }
  assume odd: "1024 dvd c \<and> \<not> 2048 dvd c"
  then obtain k where k: "c = 1024 * k" by blast
  have "odd k"
  proof
    assume "even k"
    then obtain m where "k = 2 * m" by blast
    then show False using odd k by simp
  qed
  then obtain m where c: "c = 2048 * m + 1024" using k by (auto elim!: oddE)
  then have "(c + 1023) div 1024 = 2 * m + 1" by linarith
  then have cells: "bitmap_cells ?bm = 128 * m" using create_cells_16 [OF assms, of b] by simp
  have "SpaceBitmap_test 16 ?bm (b + 2048 * m) = None" unfolding test cells by simp
  moreover have "b + c - 1024 = b + 2048 * m" by (simp add: c)
  ultimately show "SpaceBitmap_test 16 ?bm (b + c - 1024) = None" by (simp only:)
qed

theorem create_covers_heap_witness:
  "SpaceBitmap_test 16 (SpaceBitmap_create 16 65536 4096) 69616 = Some False \<and>
   SpaceBitmap_test 16 (SpaceBitmap_create 16 65536 4096) 69632 = None \<and>
   SpaceBitmap_test 16 (SpaceBitmap_create 16 65536 3072) 67584 = None"
  using create_covers_heap [of 4096 65536] create_covers_heap [of 3072 65536] by simp

text \<open>
  C35: \<open>clear_range\<close> over cell-aligned addresses inside the mapping returns and removes exactly the
  cells of the range, however the range lies across the words of the bitmap.
\<close>

theorem clear_range_exact:
  assumes "0 < al" and "al dvd i" and "al dvd e" and "i \<le> e" and "e \<le> 64 * length (mem_map bm) * al"
  shows "\<exists>bm'. SpaceBitmap_clear_range al bm (heap_begin bm + i) (heap_begin bm + e) = Some bm' \<and>
    heap_begin bm' = heap_begin bm \<and> length (mem_map bm') = length (mem_map bm) \<and>
    (\<forall>j. SpaceBitmap_marked bm' j \<longleftrightarrow> SpaceBitmap_marked bm j \<and> \<not> (i \<le> j * al \<and> j * al < e))"
proof -
  obtain k l where kl: "i = k * al" "e = l * al" using assms(2,3) by (metis dvd_def mult.commute)
  then have "k \<le> l" "l \<le> bitmap_cells bm" using assms(1,4,5) by auto
  from clear_range_cells [OF assms(1) this] obtain ws where
    "SpaceBitmap_clear_range al bm (heap_begin bm + i) (heap_begin bm + e) = Some (bm\<lparr>mem_map := ws\<rparr>)"
    "length ws = length (mem_map bm)"
    "\<forall>j. words_bit ws j = (\<not> (k \<le> j \<and> j < l) \<and> SpaceBitmap_marked bm j)" by (auto simp: kl)
  then show ?thesis
    using assms(1)
    by (intro exI [of _ "bm\<lparr>mem_map := ws\<rparr>"])
      (auto simp: kl SpaceBitmap_marked_def [of "_\<lparr>mem_map := ws\<rparr>"])
qed

theorem clear_range_exact_witness:
  "\<exists>bm'. SpaceBitmap_clear_range 16 \<lparr>mem_map = [-1, -1, -1], bitmap_size = 24, heap_begin = 65536,
      heap_limit = 68608\<rparr> (65536 + 48) (65536 + 2080) = Some bm' \<and>
    SpaceBitmap_marked bm' 2 \<and> \<not> SpaceBitmap_marked bm' 3 \<and> \<not> SpaceBitmap_marked bm' 129 \<and>
    SpaceBitmap_marked bm' 130"
proof -
  let ?bm = "\<lparr>mem_map = [-1, -1, -1], bitmap_size = 24, heap_begin = 65536, heap_limit = 68608\<rparr> :: SpaceBitmap"
  have "(16::nat) dvd 48" "(16::nat) dvd 2080" by simp_all
  then obtain bm' where bm': "SpaceBitmap_clear_range 16 ?bm (65536 + 48) (65536 + 2080) = Some bm'"
    "\<forall>j. SpaceBitmap_marked bm' j \<longleftrightarrow> SpaceBitmap_marked ?bm j \<and> \<not> (48 \<le> j * 16 \<and> j * 16 < 2080)"
    using clear_range_exact [of 16 48 2080 ?bm] by auto
  have "SpaceBitmap_marked ?bm 2" "SpaceBitmap_marked ?bm 130"
    by (simp_all add: SpaceBitmap_marked_def words_bit_def)
  then show ?thesis using bm' by (intro exI [of _ bm']) simp
qed

text \<open>
  C36: \<open>walk\<close> over a bitmap created for a page-aligned heap, whatever cells have been set since, visits
  exactly the addresses of the set cells, each once and in ascending order.
\<close>

theorem walk_visits_marked:
  assumes "0 < c" and "2048 dvd c" and "c + 1024 \<le> 2 ^ 64"
    and "length ws = length (mem_map (SpaceBitmap_create 16 b c))"
    and "bm = (SpaceBitmap_create 16 b c)\<lparr>mem_map := ws\<rparr>"
  shows "\<exists>as. SpaceBitmap_walk 16 bm = Some as \<and> sorted as \<and> distinct as \<and>
    set as = {b + i * 16 |i. SpaceBitmap_marked bm i}"
proof -
  obtain k where k: "c = 2048 * k" using assms(2) by blast
  have len: "length ws = 2 * k"
    using create_cells_page [OF assms(2,3), of b] assms(4) by (simp add: k)
  have "(c - 1) div 16 div 64 + 1 = 2 * k"
    using assms(1) unfolding k by linarith
  then have "SpaceBitmap_walk 16 bm
      = Some (map (\<lambda>i. b + i * 16) (filter (SpaceBitmap_marked bm) [0..<64 * (2 * k)]))"
    using walk_eq [of 16 bm "2 * k"] assms(1,5) len by (simp del: create_simps(3))
  moreover have "distinct (map (\<lambda>i. b + i * 16) (filter (SpaceBitmap_marked bm) [0..<64 * (2 * k)]))"
    by (simp add: distinct_map inj_on_def)
  moreover have "sorted (map (\<lambda>i. b + i * 16) (filter (SpaceBitmap_marked bm) [0..<64 * (2 * k)]))"
    by (rule sorted_filter [of "\<lambda>i. b + i * 16"]) (simp add: sorted_iff_nth_mono)
  moreover have "SpaceBitmap_marked bm i \<Longrightarrow> i < 64 * (2 * k)" for i
    using words_bit_less [of ws i] assms(5) len by (simp add: SpaceBitmap_marked_def)
  then have "set (map (\<lambda>i. b + i * 16) (filter (SpaceBitmap_marked bm) [0..<64 * (2 * k)]))
      = {b + i * 16 |i. SpaceBitmap_marked bm i}" by auto
  ultimately show ?thesis by blast
qed

theorem walk_visits_marked_witness:
  "\<exists>as. SpaceBitmap_walk 16 ((SpaceBitmap_create 16 65536 2048)\<lparr>mem_map := [8, 1]\<rparr>) = Some as \<and>
    65536 + 48 \<in> set as \<and> 65536 + 1024 \<in> set as"
proof -
  let ?bm = "(SpaceBitmap_create 16 65536 2048)\<lparr>mem_map := [8, 1]\<rparr>"
  have "length [8, 1::u64] = length (mem_map (SpaceBitmap_create 16 65536 2048))"
    using create_cells_page [of 2048 65536] by simp
  then obtain as where as: "SpaceBitmap_walk 16 ?bm = Some as"
    "set as = {65536 + i * 16 |i. SpaceBitmap_marked ?bm i}"
    using walk_visits_marked [of 2048 "[8, 1]" 65536 ?bm] by auto
  have "SpaceBitmap_marked ?bm 3" "SpaceBitmap_marked ?bm 64"
    by (simp_all add: SpaceBitmap_marked_def words_bit_def bit_iff_odd)
  then show ?thesis using as by force
qed

text \<open>
  \<open>sweep_walk\<close> never overruns its pointer buffer, and the buffers it passes to the callback are a
  prefix of the garbage it finds; the rest, fewer than 448 entries, is never reported. The entry for
  bit \<open>n\<close> of word \<open>i\<close> is \<open>base + n + al\<close>, which is not the address \<open>base + n * al\<close> of that cell.
\<close>

lemma sweep_walk_drops_last_buffer:
  assumes "heap_begin live \<le> sweep_begin" and "sweep_begin < sweep_end"
    and "(sweep_end - heap_begin live - 1) div al div 64 < length (mem_map live)"
    and "length (mem_map mk) = length (mem_map live)"
  shows "\<exists>calls dropped. SpaceBitmap_sweep_walk al live mk sweep_begin sweep_end = Some calls \<and>
    length dropped < 448 \<and> (\<forall>c. c \<in> set calls \<longrightarrow> 448 \<le> length c \<and> length c \<le> 512) \<and>
    concat calls @ dropped = concat (map (\<lambda>i. map (\<lambda>n. i * al * 64 + heap_begin live + al + n)
       (filter (\<lambda>n. bit (mem_map live ! i) n \<and> \<not> bit (mem_map mk ! i) n) [0..<64]))
     [(sweep_begin - heap_begin live) div al div 64..<
      (sweep_end - heap_begin live - 1) div al div 64 + 1])"
proof -
  let ?is = "[(sweep_begin - heap_begin live) div al div 64..<
      (sweep_end - heap_begin live - 1) div al div 64 + 1]"
  have "\<forall>i \<in> set ?is. i < length (mem_map live) \<and> i < length (mem_map mk)"
    using assms(3,4) by auto
  from sweep_loop [OF this, of "[]" al "[]"] obtain buf calls where
    loop: "for_each (sweep_step al live mk) ?is ([], []) = Some (buf, calls)" "length buf < 448"
    "\<forall>c \<in> set calls. 448 \<le> length c \<and> length c \<le> 512"
    "concat calls @ buf = concat (map (sweep_entries al live mk) ?is)" by auto
  have "usub sweep_end (heap_begin live + 1) = Some (sweep_end - heap_begin live - 1)"
    using assms(1,2) by (simp add: usub_def)
  then have "SpaceBitmap_sweep_walk al live mk sweep_begin sweep_end = Some calls"
    using assms(1,2) loop(1,2)
    by (simp add: SpaceBitmap_sweep_walk_def bitmap_offset_defs sweep_pointer_end_def
        sweep_buffer_size_def Let_def del: upt_Suc)
  then show ?thesis
    using loop(2-4) unfolding sweep_entries_def [abs_def] by (intro exI [of _ calls] exI [of _ buf]) auto
qed

text \<open>
  without overflow checks \<open>visit_marked_range\<close> ignores the position of both ends inside their
  words, because it multiplies by 64 where it should take the remainder: it visits every set cell from
  the first cell of \<open>visit_begin\<close>'s word up to, but excluding, the word of \<open>visit_end\<close>. With overflow
  checks it panics unless \<open>visit_begin\<close> lies in the first cell of the heap.
\<close>

lemma visit_marked_range_whole_words:
  assumes "0 < al" and "heap_begin bm \<le> visit_begin" and "visit_begin \<le> visit_end"
    and "(visit_end - heap_begin bm) div al div 64 < length (mem_map bm)"
  shows "SpaceBitmap_visit_marked_range False al bm visit_begin visit_end
      = Some (concat (map (\<lambda>k. map (\<lambda>n. k * al * 64 + heap_begin bm + n * al)
            (filter (bit (mem_map bm ! k)) [0..<64]))
          [(visit_begin - heap_begin bm) div al div 64..<(visit_end - heap_begin bm) div al div 64])) \<and>
    (heap_begin bm + al \<le> visit_begin \<longrightarrow>
      SpaceBitmap_visit_marked_range True al bm visit_begin visit_end = None)"
  using visit_marked_range_words_unchecked [OF assms(2-4)]
    visit_marked_range_words_checked [OF assms(1), of "heap_begin bm" visit_begin "mem_map bm" visit_end]
  by (simp add: SpaceBitmap_visit_marked_range_def visit_word_eq)

end
