(* ===== verification/Allocation.thy ===== *)
theory Allocation
  imports Block_Allocator Space_Bitmap
begin

text \<open>
  \<open>src/allocation.rs\<close>: the trait \<open>Allocator\<close> with its default methods \<open>allocate\<close>, \<open>scan_for_hole\<close> and
  \<open>allocate_from_block\<close>, the three allocators \<open>NormalAllocator\<close>, \<open>OverflowAllocator\<close> and
  \<open>EvacAllocator\<close>, and the parts of the state they work on. The methods a type has to provide are the
  record \<open>Allocator\<close>. A state holds the space, the headers of the blocks, the memory words and the
  thread-local states of the registered threads; \<open>self_id\<close> is the running thread. \<open>None\<close> is a panic.
\<close>

section \<open>The trait\<close>

text \<open>A block and its current low and high offset.\<close>

type_synonym BlockTuple = "usize \<times> u16 \<times> u16"

record 's Allocator =
  take_current_block :: "'s \<Rightarrow> BlockTuple option \<times> 's"
  put_current_block :: "BlockTuple \<Rightarrow> 's \<Rightarrow> 's"
  get_new_block :: "'s \<Rightarrow> BlockTuple option \<times> 's"
  handle_no_hole :: "usize \<Rightarrow> 's \<Rightarrow> (BlockTuple option \<times> 's) option"
  handle_full_block :: "usize \<Rightarrow> 's \<Rightarrow> 's"

text \<open>\<open>header s b\<close> is the header that the pointer \<open>b\<close> refers to in the state \<open>s\<close>.\<close>

partial_function (option) Allocator_scan_for_hole ::
    "('s \<Rightarrow> block_map) \<Rightarrow> (usize \<Rightarrow> 's \<Rightarrow> 's) \<Rightarrow> usize \<Rightarrow> BlockTuple \<Rightarrow> 's \<Rightarrow> (BlockTuple option \<times> 's) option" where
  "Allocator_scan_for_hole header full sz block_tuple s = do {
     let (block, low, high) = block_tuple;
     room \<leftarrow> usub high low;
     if room \<ge> sz then Some (Some block_tuple, s)
     else do {
       found \<leftarrow> ImmixBlock_scan_block block (header s block) high;
       case found of
         None \<Rightarrow> Some (None, full block s)
       | Some (low, high) \<Rightarrow> Allocator_scan_for_hole header full sz (block, low, high) s } }"

definition Allocator_allocate_from_block :: "usize \<Rightarrow> BlockTuple \<Rightarrow> (BlockTuple \<times> Address) option" where
  "Allocator_allocate_from_block sz block_tuple = do {
     let (block, low, high) = block_tuple;
     let low = as_u16 (align_usize low 16);
     let object = ImmixBlock_offset block low;
     let new_low = low + as_u16 sz;
     if new_low < 2 ^ 16 then Some ((block, new_low, high), object) else None }"

definition Allocator_allocate ::
    "'s Allocator \<Rightarrow> ('s \<Rightarrow> block_map) \<Rightarrow> usize \<Rightarrow> 's \<Rightarrow> (Address \<times> 's) option" where
  "Allocator_allocate ops header sz s = do {
     let (current, s) = take_current_block ops s;
     (hole, s) \<leftarrow> (case current of None \<Rightarrow> Some (None, s)
                    | Some tp \<Rightarrow> Allocator_scan_for_hole header (handle_full_block ops) sz tp s);
     (hole, s) \<leftarrow> (case hole of Some tp \<Rightarrow> Some (Some tp, s) | None \<Rightarrow> handle_no_hole ops sz s);
     (hole, s) \<leftarrow> (case hole of Some tp \<Rightarrow> Some (Some tp, s) | None \<Rightarrow> Some (get_new_block ops s));
     case hole of
       None \<Rightarrow> Some (Address_null, s)
     | Some tp \<Rightarrow> do {
         (tp, object) \<leftarrow> Allocator_allocate_from_block sz tp;
         Some (object, put_current_block ops tp s) } }"

section \<open>The allocators and the state\<close>

record NormalAllocator =
  n_unavailable_blocks :: "usize list"
  n_recyclable_blocks :: "usize list"
  n_current_block :: "BlockTuple option"

record OverflowAllocator =
  o_unavailable_blocks :: "usize list"
  o_current_block :: "BlockTuple option"

record EvacAllocator =
  e_unavailable_blocks :: "usize list"
  e_evac_headroom :: "usize list"
  e_current_block :: "BlockTuple option"

record ImmixSpace =
  block_allocator :: BlockAllocator
  bitmap :: SpaceBitmap
  allocator :: NormalAllocator
  overflow_allocator :: OverflowAllocator
  evac_allocator :: EvacAllocator
  space_live_mark :: bool

text \<open>The thread-local state of \<open>src/threading.rs\<close>; \<open>gc_state\<close> is an \<open>i8\<close>.\<close>

record TLSState =
  safepoint :: usize
  gc_state :: int
  current_block :: "BlockTuple option"
  current_ovf_block :: "BlockTuple option"
  stack_bottom :: usize
  stack_end :: usize

record heap_state =
  space :: ImmixSpace
  blocks :: block_map
  mem :: memory
  threads :: "TLSState list"
  self_id :: nat

abbreviation tls :: "heap_state \<Rightarrow> TLSState" where
  "tls s \<equiv> threads s ! self_id s"

definition set_tls :: "TLSState \<Rightarrow> heap_state \<Rightarrow> heap_state" where
  "set_tls t s = s\<lparr>threads := (threads s)[self_id s := t]\<rparr>"

section \<open>\<open>NormalAllocator\<close>\<close>

definition NormalAllocator_new :: NormalAllocator where
  "NormalAllocator_new = \<lparr>n_unavailable_blocks = [], n_recyclable_blocks = [], n_current_block = None\<rparr>"

definition NormalAllocator_set_recyclable_blocks :: "usize list \<Rightarrow> NormalAllocator \<Rightarrow> NormalAllocator" where
  "NormalAllocator_set_recyclable_blocks bs a = a\<lparr>n_recyclable_blocks := bs\<rparr>"

definition current_to_list :: "BlockTuple option \<Rightarrow> usize list" where
  "current_to_list c = (case c of None \<Rightarrow> [] | Some tp \<Rightarrow> [fst tp])"

definition NormalAllocator_get_all_blocks :: "NormalAllocator \<Rightarrow> usize list \<times> NormalAllocator" where
  "NormalAllocator_get_all_blocks a =
     (n_unavailable_blocks a @ n_recyclable_blocks a @ current_to_list (n_current_block a),
      a\<lparr>n_unavailable_blocks := [], n_recyclable_blocks := [], n_current_block := None\<rparr>)"

definition NormalAllocator_take_current_block :: "heap_state \<Rightarrow> BlockTuple option \<times> heap_state" where
  "NormalAllocator_take_current_block s =
     (current_block (tls s), set_tls ((tls s)\<lparr>current_block := None\<rparr>) s)"

definition NormalAllocator_put_current_block :: "BlockTuple \<Rightarrow> heap_state \<Rightarrow> heap_state" where
  "NormalAllocator_put_current_block tp s = set_tls ((tls s)\<lparr>current_block := Some tp\<rparr>) s"

text \<open>
  A block of the global block allocator, marked as allocated, with everything after its first line
  as the hole; the method is the same text for \<open>NormalAllocator\<close> and \<open>OverflowAllocator\<close>.
\<close>

definition get_global_block :: "heap_state \<Rightarrow> BlockTuple option \<times> heap_state" where
  "get_global_block s =
     (case BlockAllocator_get_block (block_allocator (space s)) (blocks s) of
        (r, ba, bl) \<Rightarrow>
          let s = s\<lparr>space := (space s)\<lparr>block_allocator := ba\<rparr>, blocks := bl\<rparr>
          in case r of
               None \<Rightarrow> (None, s)
             | Some block \<Rightarrow>
                 (Some (block, as_u16 LINE_SIZE, as_u16 (BLOCK_SIZE - 1)),
                  s\<lparr>blocks := (blocks s)(block := (blocks s block)\<lparr>allocated := True\<rparr>)\<rparr>))"

definition NormalAllocator_get_new_block :: "heap_state \<Rightarrow> BlockTuple option \<times> heap_state" where
  "NormalAllocator_get_new_block s = get_global_block s"

definition set_normal :: "NormalAllocator \<Rightarrow> heap_state \<Rightarrow> heap_state" where
  "set_normal a s = s\<lparr>space := (space s)\<lparr>allocator := a\<rparr>\<rparr>"

definition NormalAllocator_handle_full_block :: "usize \<Rightarrow> heap_state \<Rightarrow> heap_state" where
  "NormalAllocator_handle_full_block block s =
     (let a = allocator (space s)
      in set_normal (a\<lparr>n_unavailable_blocks := vec_push (n_unavailable_blocks a) block\<rparr>) s)"

partial_function (option) NormalAllocator_handle_no_hole ::
    "usize \<Rightarrow> heap_state \<Rightarrow> (BlockTuple option \<times> heap_state) option" where
  "NormalAllocator_handle_no_hole sz s =
     (if sz \<ge> LINE_SIZE then Some (None, s)
      else do {
        let a = allocator (space s);
        let (popped, rest) = vec_pop (n_recyclable_blocks a);
        let s = set_normal (a\<lparr>n_recyclable_blocks := rest\<rparr>) s;
        case popped of
          None \<Rightarrow> Some (None, s)
        | Some block \<Rightarrow> do {
            found \<leftarrow> ImmixBlock_scan_block block (blocks s block) (as_u16 (size_of_ImmixBlock - 1));
            case found of
              None \<Rightarrow> NormalAllocator_handle_no_hole sz (NormalAllocator_handle_full_block block s)
            | Some (low, high) \<Rightarrow> do {
                (hole, s) \<leftarrow> Allocator_scan_for_hole blocks NormalAllocator_handle_full_block sz
                               (block, low, high) s;
                case hole of
                  Some tp \<Rightarrow> Some (Some tp, s)
                | None \<Rightarrow> NormalAllocator_handle_no_hole sz s } } })"

definition Normal_ops :: "heap_state Allocator" where
  "Normal_ops = \<lparr>take_current_block = NormalAllocator_take_current_block,
     put_current_block = NormalAllocator_put_current_block,
     get_new_block = NormalAllocator_get_new_block,
     handle_no_hole = NormalAllocator_handle_no_hole,
     handle_full_block = NormalAllocator_handle_full_block\<rparr>"

section \<open>\<open>OverflowAllocator\<close>\<close>

definition OverflowAllocator_new :: OverflowAllocator where
  "OverflowAllocator_new = \<lparr>o_unavailable_blocks = [], o_current_block = None\<rparr>"

definition OverflowAllocator_get_all_blocks :: "OverflowAllocator \<Rightarrow> usize list \<times> OverflowAllocator" where
  "OverflowAllocator_get_all_blocks a =
     (o_unavailable_blocks a @ current_to_list (o_current_block a),
      a\<lparr>o_unavailable_blocks := [], o_current_block := None\<rparr>)"

definition OverflowAllocator_take_current_block :: "heap_state \<Rightarrow> BlockTuple option \<times> heap_state" where
  "OverflowAllocator_take_current_block s =
     (current_ovf_block (tls s), set_tls ((tls s)\<lparr>current_ovf_block := None\<rparr>) s)"

definition OverflowAllocator_put_current_block :: "BlockTuple \<Rightarrow> heap_state \<Rightarrow> heap_state" where
  "OverflowAllocator_put_current_block tp s = set_tls ((tls s)\<lparr>current_ovf_block := Some tp\<rparr>) s"

definition OverflowAllocator_get_new_block :: "heap_state \<Rightarrow> BlockTuple option \<times> heap_state" where
  "OverflowAllocator_get_new_block s = get_global_block s"

definition OverflowAllocator_handle_no_hole ::
    "usize \<Rightarrow> heap_state \<Rightarrow> (BlockTuple option \<times> heap_state) option" where
  "OverflowAllocator_handle_no_hole sz s = Some (None, s)"

definition OverflowAllocator_handle_full_block :: "usize \<Rightarrow> heap_state \<Rightarrow> heap_state" where
  "OverflowAllocator_handle_full_block block s =
     (let a = overflow_allocator (space s)
      in s\<lparr>space := (space s)\<lparr>overflow_allocator :=
           a\<lparr>o_unavailable_blocks := vec_push (o_unavailable_blocks a) block\<rparr>\<rparr>\<rparr>)"

definition Overflow_ops :: "heap_state Allocator" where
  "Overflow_ops = \<lparr>take_current_block = OverflowAllocator_take_current_block,
     put_current_block = OverflowAllocator_put_current_block,
     get_new_block = OverflowAllocator_get_new_block,
     handle_no_hole = OverflowAllocator_handle_no_hole,
     handle_full_block = OverflowAllocator_handle_full_block\<rparr>"

section \<open>\<open>EvacAllocator\<close>\<close>

definition EvacAllocator_new :: EvacAllocator where
  "EvacAllocator_new = \<lparr>e_unavailable_blocks = [], e_evac_headroom = [], e_current_block = None\<rparr>"

definition EvacAllocator_extend_evac_headroom :: "usize list \<Rightarrow> EvacAllocator \<Rightarrow> EvacAllocator" where
  "EvacAllocator_extend_evac_headroom bs a = a\<lparr>e_evac_headroom := e_evac_headroom a @ bs\<rparr>"

definition EvacAllocator_evac_headroom :: "EvacAllocator \<Rightarrow> usize" where
  "EvacAllocator_evac_headroom a = length (e_evac_headroom a)"

definition EvacAllocator_get_all_blocks :: "EvacAllocator \<Rightarrow> usize list \<times> EvacAllocator" where
  "EvacAllocator_get_all_blocks a =
     (e_unavailable_blocks a @ current_to_list (e_current_block a),
      a\<lparr>e_unavailable_blocks := [], e_current_block := None\<rparr>)"

definition set_evac :: "EvacAllocator \<Rightarrow> heap_state \<Rightarrow> heap_state" where
  "set_evac a s = s\<lparr>space := (space s)\<lparr>evac_allocator := a\<rparr>\<rparr>"

definition EvacAllocator_take_current_block :: "heap_state \<Rightarrow> BlockTuple option \<times> heap_state" where
  "EvacAllocator_take_current_block s =
     (let a = evac_allocator (space s)
      in (e_current_block a, set_evac (a\<lparr>e_current_block := None\<rparr>) s))"

definition EvacAllocator_put_current_block :: "BlockTuple \<Rightarrow> heap_state \<Rightarrow> heap_state" where
  "EvacAllocator_put_current_block tp s =
     set_evac ((evac_allocator (space s))\<lparr>e_current_block := Some tp\<rparr>) s"

definition EvacAllocator_get_new_block :: "heap_state \<Rightarrow> BlockTuple option \<times> heap_state" where
  "EvacAllocator_get_new_block s =
     (let a = evac_allocator (space s); (popped, rest) = vec_pop (e_evac_headroom a);
          s = set_evac (a\<lparr>e_evac_headroom := rest\<rparr>) s
      in case popped of
           None \<Rightarrow> (None, s)
         | Some b \<Rightarrow> (Some (b, as_u16 LINE_SIZE, as_u16 (BLOCK_SIZE - 1)),
                      s\<lparr>blocks := (blocks s)(b := (blocks s b)\<lparr>allocated := True\<rparr>)\<rparr>))"

definition EvacAllocator_handle_no_hole ::
    "usize \<Rightarrow> heap_state \<Rightarrow> (BlockTuple option \<times> heap_state) option" where
  "EvacAllocator_handle_no_hole sz s = Some (None, s)"

definition EvacAllocator_handle_full_block :: "usize \<Rightarrow> heap_state \<Rightarrow> heap_state" where
  "EvacAllocator_handle_full_block block s =
     (let a = evac_allocator (space s)
      in set_evac (a\<lparr>e_unavailable_blocks := vec_push (e_unavailable_blocks a) block\<rparr>) s)"

definition Evac_ops :: "heap_state Allocator" where
  "Evac_ops = \<lparr>take_current_block = EvacAllocator_take_current_block,
     put_current_block = EvacAllocator_put_current_block,
     get_new_block = EvacAllocator_get_new_block,
     handle_no_hole = EvacAllocator_handle_no_hole,
     handle_full_block = EvacAllocator_handle_full_block\<rparr>"

section \<open>Block tuples\<close>

text \<open>
  The offsets of a tuple: the low offset is 16-aligned and behind the first line, which holds the
  header; the high offset is the last byte of a line.
\<close>

definition offsets_ok :: "BlockTuple \<Rightarrow> bool" where
  "offsets_ok tp \<longleftrightarrow> (case tp of (b, low, high) \<Rightarrow>
     16 dvd low \<and> 128 \<le> low \<and> low \<le> high \<and> high mod 128 = 127 \<and> high < 32768)"

text \<open>
  The bytes of a block in the unmarked lines after line \<open>l\<close> whose preceding line is unmarked too: the
  bytes that \<open>scan_block\<close> can return as part of a hole.
\<close>

definition hole_bytes :: "ImmixBlock \<Rightarrow> usize \<Rightarrow> nat \<Rightarrow> usize set" where
  "hole_bytes blk b l = {x. b \<le> x \<and> x < b + BLOCK_SIZE \<and> l < (x - b) div 128 \<and>
     \<not> line_marked blk ((x - b) div 128) \<and> \<not> line_marked blk ((x - b) div 128 - 1)}"

text \<open>The bytes that can still be allocated through a tuple: its hole and the later holes of its block.\<close>

definition tuple_bytes :: "block_map \<Rightarrow> BlockTuple \<Rightarrow> usize set" where
  "tuple_bytes hdr tp = (case tp of (b, low, high) \<Rightarrow>
     {b + low..b + high} \<union> hole_bytes (hdr b) b (high div 128))"

definition fits :: "usize \<Rightarrow> BlockTuple \<Rightarrow> bool" where
  "fits sz tp \<longleftrightarrow> (case tp of (b, low, high) \<Rightarrow> low + sz \<le> high)"

lemma hole_bytes_block: "hole_bytes blk b l \<subseteq> block_bytes b"
  by (auto simp: hole_bytes_def)

lemma tuple_bytes_block: "offsets_ok (b, low, high) \<Longrightarrow> tuple_bytes hdr (b, low, high) \<subseteq> block_bytes b"
  using hole_bytes_block by (fastforce simp: tuple_bytes_def offsets_ok_def BLOCK_SIZE_def)

lemma hole_tuple:
  assumes "hole_at (line_marked (hdr b)) l lo hi"
  shows "offsets_ok (b, lo * 128, hi * 128 - 1)"
    and "tuple_bytes hdr (b, lo * 128, hi * 128 - 1) \<subseteq> hole_bytes (hdr b) b l"
proof -
  have h: "l + 2 \<le> lo" "lo < hi" "hi \<le> 256" "\<And>i. lo - 1 \<le> i \<Longrightarrow> i < hi \<Longrightarrow> \<not> line_marked (hdr b) i"
    using assms by (auto simp: hole_at_def)
  have "(hi * 128 - 1) mod 128 = 127" using h(2) by (cases hi) auto
  moreover have "lo * 128 \<le> hi * 128 - 1" using h(2) by (cases hi) auto
  ultimately show "offsets_ok (b, lo * 128, hi * 128 - 1)"
    using h(1-3) by (auto simp: offsets_ok_def intro: dvd_mult)
  show "tuple_bytes hdr (b, lo * 128, hi * 128 - 1) \<subseteq> hole_bytes (hdr b) b l"
  proof
    fix x assume "x \<in> tuple_bytes hdr (b, lo * 128, hi * 128 - 1)"
    then consider "b + lo * 128 \<le> x" "x \<le> b + (hi * 128 - 1)"
      | "x \<in> hole_bytes (hdr b) b ((hi * 128 - 1) div 128)" by (auto simp: tuple_bytes_def)
    then show "x \<in> hole_bytes (hdr b) b l"
    proof cases
      case 1
      then have "lo \<le> (x - b) div 128" "(x - b) div 128 < hi" using h(2) by auto
      then show ?thesis using 1 h by (auto simp: hole_bytes_def BLOCK_SIZE_def)
    next
      case 2
      moreover have "l \<le> (hi * 128 - 1) div 128" using h(1,2) by (cases hi) auto
      ultimately show ?thesis by (auto simp: hole_bytes_def)
    qed
  qed
qed

text \<open>A block scanned from an offset: no hole, or a tuple with fewer bytes and a higher offset.\<close>

lemma scan_block_tuple:
  assumes "block_valid (hdr b)"
  shows "ImmixBlock_scan_block b (hdr b) off = Some None \<or>
    (\<exists>low high. ImmixBlock_scan_block b (hdr b) off = Some (Some (low, high)) \<and>
      offsets_ok (b, low, high) \<and> tuple_bytes hdr (b, low, high) \<subseteq> hole_bytes (hdr b) b (off div 128) \<and>
      off < high)"
proof -
  obtain r where r: "ImmixBlock_scan_block b (hdr b) off = Some r"
    "scan_result (line_marked (hdr b)) (off div 128) r" using scan_block_spec [OF assms] by blast
  show ?thesis
  proof (cases r)
    case (Some lh)
    then obtain lo hi where lh: "lh = (lo * 128, hi * 128 - 1)"
      and hole: "hole_at (line_marked (hdr b)) (off div 128) lo hi"
      using r(2) by (cases lh) (auto simp: scan_result_def)
    have "off div 128 + 2 \<le> lo" "lo < hi" using hole by (auto simp: hole_at_def)
    then have "off < hi * 128 - 1" by linarith
    then show ?thesis using hole_tuple [of hdr b, OF hole] r(1) Some lh by auto
  qed (use r in simp)
qed

section \<open>Scanning for a hole\<close>

text \<open>
  The contract behind \<open>scan_for_hole\<close>: \<open>busy H s\<close> says that the state is consistent while the blocks
  \<open>H\<close> are in the hands of a running \<open>allocate\<close>; \<open>avail s\<close> are the bytes that later allocations can
  return. \<open>handle_full_block\<close> takes the block back.
\<close>

locale hole_scanner =
  fixes header :: "'s \<Rightarrow> block_map"
    and full :: "usize \<Rightarrow> 's \<Rightarrow> 's"
    and busy :: "usize multiset \<Rightarrow> 's \<Rightarrow> bool"
    and avail :: "'s \<Rightarrow> usize set"
  assumes header_valid: "busy H s \<Longrightarrow> block_valid (header s b)"
    and full_busy: "busy {#b#} s \<Longrightarrow> busy {#} (full b s)"
    and full_avail: "busy {#b#} s \<Longrightarrow> avail (full b s) \<subseteq> avail s"
begin

definition hand :: "usize set \<Rightarrow> BlockTuple \<Rightarrow> 's \<Rightarrow> bool" where
  "hand A tp s \<longleftrightarrow> busy {#fst tp#} s \<and> offsets_ok tp \<and> avail s \<subseteq> A \<and> tuple_bytes (header s) tp \<subseteq> A"

definition scanned :: "usize set \<Rightarrow> usize \<Rightarrow> BlockTuple option \<Rightarrow> 's \<Rightarrow> bool" where
  "scanned A sz r s \<longleftrightarrow> (case r of None \<Rightarrow> busy {#} s \<and> avail s \<subseteq> A
     | Some tp \<Rightarrow> hand A tp s \<and> fits sz tp)"

lemma scanned_mono: "scanned A sz r s \<Longrightarrow> A \<subseteq> B \<Longrightarrow> scanned B sz r s"
  by (auto simp: scanned_def hand_def split: option.splits)

lemma scan_for_hole_spec:
  assumes "hand A tp s"
  shows "\<exists>r s'. Allocator_scan_for_hole header full sz tp s = Some (r, s') \<and> scanned A sz r s' \<and>
    s' = (if r = None then full (fst tp) s else s)"
  using assms
proof (induction "32768 - snd (snd tp)" arbitrary: tp rule: less_induct)
  case less
  obtain b low high where tp: "tp = (b, low, high)" by (cases tp)
  have ok: "low \<le> high" "high < 32768" and busy: "busy {#b#} s" and A: "avail s \<subseteq> A"
    and bytes: "tuple_bytes (header s) tp \<subseteq> A"
    using less.prems by (auto simp: hand_def offsets_ok_def tp)
  show ?case
  proof (cases "high - low \<ge> sz")
    case True
    then have "Allocator_scan_for_hole header full sz tp s = Some (Some tp, s)"
      using ok by (subst Allocator_scan_for_hole.simps) (simp add: tp)
    moreover have "fits sz tp" using True ok by (simp add: fits_def tp)
    ultimately show ?thesis using less.prems by (auto simp: scanned_def)
  next
    case False
    from scan_block_tuple [of "header s" b high, OF header_valid [OF busy]]
    show ?thesis
    proof (elim disjE exE conjE)
      assume none: "ImmixBlock_scan_block b (header s b) high = Some None"
      have "Allocator_scan_for_hole header full sz tp s = Some (None, full b s)"
        using False ok none by (subst Allocator_scan_for_hole.simps) (simp add: tp)
      then show ?thesis
        using full_busy [OF busy] full_avail [OF busy] A by (auto simp: scanned_def tp)
    next
      fix low' high'
      assume some: "ImmixBlock_scan_block b (header s b) high = Some (Some (low', high'))"
        and new: "offsets_ok (b, low', high')" "high < high'"
        "tuple_bytes (header s) (b, low', high') \<subseteq> hole_bytes (header s b) b (high div 128)"
      have "hole_bytes (header s b) b (high div 128) \<subseteq> A"
        using bytes by (auto simp: tuple_bytes_def tp)
      then have "hand A (b, low', high') s" using new busy A by (auto simp: hand_def)
      moreover have "32768 - snd (snd (b, low', high')) < 32768 - snd (snd tp)"
        using new(1,2) by (auto simp: offsets_ok_def tp)
      ultimately obtain r s' where "Allocator_scan_for_hole header full sz (b, low', high') s = Some (r, s')"
        "scanned A sz r s'" "s' = (if r = None then full b s else s)" using less.hyps by fastforce
      then show ?thesis
        using False ok some by (subst Allocator_scan_for_hole.simps) (simp add: tp)
    qed
  qed
qed

end

section \<open>The contract of an allocator\<close>

text \<open>
  The laws of the trait. \<open>inv\<close> holds between allocations. The current block is taken out and put
  back; a new block has room for every object below \<open>LARGE_OBJECT\<close>; whatever an operation returns comes
  out of \<open>avail\<close>, and a block in hand has no byte in \<open>avail\<close>.
\<close>

locale allocator_contract = hole_scanner header "handle_full_block ops" busy avail
  for ops :: "'s Allocator" and header busy avail +
  fixes inv :: "'s \<Rightarrow> bool"
  assumes hand_block: "busy {#b#} s \<Longrightarrow> BLOCK_SIZE dvd b \<and> 0 < b \<and> block_bytes b \<inter> avail s = {}"
    and take_None: "inv s \<Longrightarrow> take_current_block ops s = (None, s') \<Longrightarrow> busy {#} s' \<and> avail s' \<subseteq> avail s"
    and take_Some: "inv s \<Longrightarrow> take_current_block ops s = (Some tp, s') \<Longrightarrow> hand (avail s) tp s'"
    and put_inv: "busy {#fst tp#} s \<Longrightarrow> offsets_ok tp \<Longrightarrow> inv (put_current_block ops tp s)"
    and put_avail: "busy {#fst tp#} s \<Longrightarrow> offsets_ok tp \<Longrightarrow>
      avail (put_current_block ops tp s) \<subseteq> avail s \<union> tuple_bytes (header s) tp"
    and no_hole: "busy {#} s \<Longrightarrow>
      \<exists>r s'. handle_no_hole ops sz s = Some (r, s') \<and> scanned (avail s) sz r s'"
    and new_block: "busy {#} s \<Longrightarrow> get_new_block ops s = (r, s') \<Longrightarrow> sz \<le> LARGE_OBJECT \<Longrightarrow>
      scanned (avail s) sz r s'"
    and busy_inv: "busy {#} s \<Longrightarrow> inv s"
begin

text \<open>
  An allocation returns. It yields null and takes nothing away, or an aligned object inside one block,
  behind the header line, made of available bytes that are not available any more.
\<close>

lemma allocate_from_tuple:
  assumes tp: "hand A tp s" and fit: "fits sz tp" and sz: "16 dvd sz" "sz \<le> LARGE_OBJECT"
  shows "\<exists>a tp'. Allocator_allocate_from_block sz tp = Some (tp', a) \<and>
    inv (put_current_block ops tp' s) \<and> {a..<a + sz} \<subseteq> A \<and>
    avail (put_current_block ops tp' s) \<subseteq> A - {a..<a + sz} \<and> a \<noteq> 0 \<and> 16 dvd a \<and>
    (\<exists>b. BLOCK_SIZE dvd b \<and> b + LINE_SIZE \<le> a \<and> a + sz < b + BLOCK_SIZE)"
proof -
  obtain b low high where b: "tp = (b, low, high)" by (cases tp)
  have ok: "16 dvd low" "128 \<le> low" "high mod 128 = 127" "high < 32768" "low + sz \<le> high"
    using tp fit by (auto simp: hand_def offsets_ok_def fits_def b)
  have busy: "busy {#b#} s" and A: "avail s \<subseteq> A" "tuple_bytes (header s) tp \<subseteq> A"
    using tp by (auto simp: hand_def b)
  note blk = hand_block [OF busy]
  have b16: "16 dvd b" using blk by (auto simp: BLOCK_SIZE_def intro: dvd_trans)
  let ?a = "b + low" and ?tp = "(b, low + sz, high)"
  have "align_usize low 16 = low" using ok by (intro align_usize_16_id) auto
  then have run: "Allocator_allocate_from_block sz tp = Some (?tp, ?a)"
    using ok by (simp add: Allocator_allocate_from_block_def ImmixBlock_offset_def b)
  have off: "offsets_ok ?tp" using ok sz(1) by (auto simp: offsets_ok_def)
  have sub: "tuple_bytes (header s) ?tp \<subseteq> tuple_bytes (header s) tp"
    by (auto simp: tuple_bytes_def b)
  have obj: "{?a..<?a + sz} \<subseteq> tuple_bytes (header s) tp" "{?a..<?a + sz} \<subseteq> block_bytes b"
    using ok by (auto simp: tuple_bytes_def b BLOCK_SIZE_def)
  have "x \<notin> hole_bytes (header s b) b (high div 128)" if "x < ?a + sz" for x
  proof -
    have "x - b \<le> high" using that ok by linarith
    then have "(x - b) div 128 \<le> high div 128" by (rule div_le_mono)
    then show ?thesis by (simp add: hole_bytes_def)
  qed
  then have "tuple_bytes (header s) ?tp \<inter> {?a..<?a + sz} = {}" by (auto simp: tuple_bytes_def)
  moreover have "avail (put_current_block ops ?tp s) \<subseteq> avail s \<union> tuple_bytes (header s) ?tp"
    using put_avail [of ?tp s] busy off by simp
  moreover have "avail s \<inter> {?a..<?a + sz} = {}" using blk obj(2) by blast
  ultimately have "avail (put_current_block ops ?tp s) \<subseteq> A - {?a..<?a + sz}"
    using A sub by blast
  moreover have "inv (put_current_block ops ?tp s)" using put_inv [of ?tp s] busy off by simp
  moreover have "\<exists>b'. BLOCK_SIZE dvd b' \<and> b' + LINE_SIZE \<le> ?a \<and> ?a + sz < b' + BLOCK_SIZE"
    using blk ok by (intro exI [of _ b]) (auto simp: const_simps)
  ultimately show ?thesis
    using run obj(1) A(2) blk b16 ok(1) by (intro exI [of _ ?a] exI [of _ ?tp]) auto
qed

lemma allocate_spec:
  assumes inv: "inv s" and sz: "16 dvd sz" "sz \<le> LARGE_OBJECT"
  shows "\<exists>a s'. Allocator_allocate ops header sz s = Some (a, s') \<and> inv s' \<and>
    (a = 0 \<and> avail s' \<subseteq> avail s \<or>
     a \<noteq> 0 \<and> 16 dvd a \<and> {a..<a + sz} \<subseteq> avail s \<and> avail s' \<subseteq> avail s - {a..<a + sz} \<and>
     (\<exists>b. BLOCK_SIZE dvd b \<and> b + LINE_SIZE \<le> a \<and> a + sz < b + BLOCK_SIZE))"
proof -
  let ?A = "avail s"
  obtain c s1 where take: "take_current_block ops s = (c, s1)" by fastforce
  have "\<exists>r s2. (case c of None \<Rightarrow> Some (None, s1)
      | Some tp \<Rightarrow> Allocator_scan_for_hole header (handle_full_block ops) sz tp s1) = Some (r, s2) \<and>
      scanned ?A sz r s2"
  proof (cases c)
    case None
    then show ?thesis using take_None [OF inv] take by (simp add: scanned_def)
  next
    case (Some tp)
    then have "hand ?A tp s1" using take_Some [OF inv] take by simp
    from scan_for_hole_spec [OF this, of sz] Some show ?thesis by auto
  qed
  then obtain r2 s2 where r2: "(case c of None \<Rightarrow> Some (None, s1)
      | Some tp \<Rightarrow> Allocator_scan_for_hole header (handle_full_block ops) sz tp s1) = Some (r2, s2)"
    and sc2: "scanned ?A sz r2 s2" by blast
  have "\<exists>r s3. (case r2 of Some tp \<Rightarrow> Some (Some tp, s2) | None \<Rightarrow> handle_no_hole ops sz s2) = Some (r, s3) \<and>
      scanned ?A sz r s3"
  proof (cases r2)
    case None
    then have "busy {#} s2" "avail s2 \<subseteq> ?A" using sc2 by (auto simp: scanned_def)
    then show ?thesis using no_hole [of s2 sz] scanned_mono None by fastforce
  qed (use sc2 in auto)
  then obtain r3 s3 where r3: "(case r2 of Some tp \<Rightarrow> Some (Some tp, s2) | None \<Rightarrow> handle_no_hole ops sz s2)
      = Some (r3, s3)" and sc3: "scanned ?A sz r3 s3" by blast
  have "\<exists>r s4. (case r3 of Some tp \<Rightarrow> Some (Some tp, s3) | None \<Rightarrow> Some (get_new_block ops s3)) = Some (r, s4) \<and>
      scanned ?A sz r s4"
  proof (cases r3)
    case None
    obtain r s4 where "get_new_block ops s3 = (r, s4)" by fastforce
    moreover have "busy {#} s3" "avail s3 \<subseteq> ?A" using sc3 None by (auto simp: scanned_def)
    ultimately show ?thesis using new_block [of s3 r s4 sz] sz(2) scanned_mono None by fastforce
  qed (use sc3 in auto)
  then obtain r4 s4 where r4: "(case r3 of Some tp \<Rightarrow> Some (Some tp, s3) | None \<Rightarrow> Some (get_new_block ops s3))
      = Some (r4, s4)" and sc4: "scanned ?A sz r4 s4" by blast
  note run = Allocator_allocate_def [of ops header sz s] take r2 r3 r4
  show ?thesis
  proof (cases r4)
    case None
    then show ?thesis
      using sc4 busy_inv by (simp add: run scanned_def Address_null_def)
  next
    case (Some tp)
    then have "hand ?A tp s4" "fits sz tp" using sc4 by (auto simp: scanned_def)
    from allocate_from_tuple [OF this sz] Some show ?thesis by (auto simp: run)
  qed
qed

end

end
