(* ===== verification/Allocators.thy ===== *)
theory Allocators
  imports Allocation
begin

text \<open>
  The three allocators of \<open>src/allocation.rs\<close> as instances of the contract \<open>allocator_contract\<close>. They share one
  invariant: every block in use is held exactly once, by a thread-local tuple, by a list of one of the
  allocators, or by a running operation. The bytes that an allocation may return are read off the same
  places.
\<close>

section \<open>What the allocators hold\<close>

text \<open>An asset is a block together with the bytes of it that can still be allocated.\<close>

type_synonym asset = "usize \<times> usize set"

definition current_assets :: "block_map \<Rightarrow> BlockTuple option \<Rightarrow> asset multiset" where
  "current_assets hdr c = (case c of None \<Rightarrow> {#} | Some tp \<Rightarrow> {#(fst tp, tuple_bytes hdr tp)#})"

definition full_assets :: "usize list \<Rightarrow> asset multiset" where
  "full_assets bs = image_mset (\<lambda>b. (b, {})) (mset bs)"

definition thread_assets :: "block_map \<Rightarrow> TLSState \<Rightarrow> asset multiset" where
  "thread_assets hdr t = current_assets hdr (current_block t) + current_assets hdr (current_ovf_block t)"

definition normal_assets :: "block_map \<Rightarrow> NormalAllocator \<Rightarrow> asset multiset" where
  "normal_assets hdr a = full_assets (n_unavailable_blocks a) +
     image_mset (\<lambda>b. (b, hole_bytes (hdr b) b 0)) (mset (n_recyclable_blocks a)) +
     current_assets hdr (n_current_block a)"

definition overflow_assets :: "block_map \<Rightarrow> OverflowAllocator \<Rightarrow> asset multiset" where
  "overflow_assets hdr a = full_assets (o_unavailable_blocks a) + current_assets hdr (o_current_block a)"

definition evac_assets :: "block_map \<Rightarrow> EvacAllocator \<Rightarrow> asset multiset" where
  "evac_assets hdr a = full_assets (e_unavailable_blocks a) +
     image_mset (\<lambda>b. (b, {b + LINE_SIZE..<b + BLOCK_SIZE})) (mset (e_evac_headroom a)) +
     current_assets hdr (e_current_block a)"

definition assets :: "block_map \<Rightarrow> heap_state \<Rightarrow> asset multiset" where
  "assets hdr s = (\<Sum>t \<in># mset (threads s). thread_assets hdr t) + normal_assets hdr (allocator (space s)) +
     overflow_assets hdr (overflow_allocator (space s)) + evac_assets hdr (evac_allocator (space s))"

definition current_ok :: "BlockTuple option \<Rightarrow> bool" where
  "current_ok c \<longleftrightarrow> (case c of None \<Rightarrow> True | Some tp \<Rightarrow> offsets_ok tp)"

definition currents_ok :: "heap_state \<Rightarrow> bool" where
  "currents_ok s \<longleftrightarrow> (\<forall>t \<in> set (threads s). current_ok (current_block t) \<and> current_ok (current_ovf_block t)) \<and>
     current_ok (n_current_block (allocator (space s))) \<and>
     current_ok (o_current_block (overflow_allocator (space s))) \<and>
     current_ok (e_current_block (evac_allocator (space s))) \<and>
     length (e_evac_headroom (evac_allocator (space s))) \<le> EVAC_HEADROOM"

text \<open>
  The invariant of the space, with the blocks \<open>H\<close> held by somebody else (a running allocation, the
  collector): the blocks of the assets and \<open>H\<close> are, each exactly once, the blocks in use.
\<close>

definition space_ok :: "usize multiset \<Rightarrow> heap_state \<Rightarrow> bool" where
  "space_ok H s \<longleftrightarrow> block_allocator_ok (block_allocator (space s)) \<and>
     image_mset fst (assets (blocks s) s) + H = mset_set (used_blocks (block_allocator (space s))) \<and>
     (\<forall>b. block_valid (blocks s b)) \<and> self_id s < length (threads s) \<and> currents_ok s"

text \<open>What no allocator touches: the bitmap, the memory and the extent of the mapping.\<close>

definition outside :: "heap_state \<Rightarrow> SpaceBitmap \<times> memory \<times> usize \<times> usize" where
  "outside s = (bitmap (space s), mem s, mmap_start (mmap (block_allocator (space s))),
     data_bound (block_allocator (space s)))"

definition space_at :: "SpaceBitmap \<times> memory \<times> usize \<times> usize \<Rightarrow> usize multiset \<Rightarrow> heap_state \<Rightarrow> bool" where
  "space_at f C s \<longleftrightarrow> space_ok C s \<and> outside s = f"

definition avail_bytes :: "heap_state \<Rightarrow> usize set" where
  "avail_bytes s = \<Union>(snd ` set_mset (assets (blocks s) s)) \<union> reserve_bytes (block_allocator (space s))"

lemmas asset_defs = current_assets_def full_assets_def thread_assets_def normal_assets_def
  overflow_assets_def evac_assets_def

lemma full_assets_simps [simp]:
  "full_assets [] = {#}" "full_assets (vec_push bs b) = add_mset (b, {}) (full_assets bs)"
  by (simp_all add: full_assets_def)

lemma current_simps [simp]:
  "current_assets hdr None = {#}" "current_assets hdr (Some tp) = {#(fst tp, tuple_bytes hdr tp)#}"
  "current_ok None" "current_ok (Some tp) = offsets_ok tp"
  by (simp_all add: current_assets_def current_ok_def)

section \<open>Moving assets\<close>

lemma assets_set_tls:
  assumes "self_id s < length (threads s)"
  shows "assets hdr (set_tls t s) + thread_assets hdr (tls s) = assets hdr s + thread_assets hdr t"
proof -
  have "mset (threads s) = add_mset (tls s) (mset (threads s) - {#tls s#})"
    using assms by (simp add: nth_mem_mset)
  then have "(\<Sum>t \<in># mset (threads s). thread_assets hdr t)
      = thread_assets hdr (tls s) + (\<Sum>t \<in># mset (threads s) - {#tls s#}. thread_assets hdr t)"
    by (metis image_mset_add_mset sum_mset.insert)
  then show ?thesis
    using assms by (simp add: assets_def set_tls_def mset_update ac_simps)
qed

lemma assets_set_normal:
  "assets hdr (set_normal a s) + normal_assets hdr (allocator (space s)) = assets hdr s + normal_assets hdr a"
  by (simp add: assets_def set_normal_def ac_simps)

lemma assets_set_evac:
  "assets hdr (set_evac a s) + evac_assets hdr (evac_allocator (space s)) = assets hdr s + evac_assets hdr a"
  by (simp add: assets_def set_evac_def ac_simps)

lemma set_simps [simp]:
  "blocks (set_tls t s) = blocks s" "space (set_tls t s) = space s" "self_id (set_tls t s) = self_id s"
  "length (threads (set_tls t s)) = length (threads s)"
  "blocks (set_normal a s) = blocks s" "threads (set_normal a s) = threads s"
  "self_id (set_normal a s) = self_id s" "space (set_normal a s) = (space s)\<lparr>allocator := a\<rparr>"
  "blocks (set_evac e s) = blocks s" "threads (set_evac e s) = threads s"
  "self_id (set_evac e s) = self_id s" "space (set_evac e s) = (space s)\<lparr>evac_allocator := e\<rparr>"
  "mem (set_tls t s) = mem s" "mem (set_normal a s) = mem s" "mem (set_evac e s) = mem s"
  by (simp_all add: set_tls_def set_normal_def set_evac_def)

lemma outside_simps [simp]:
  "outside (set_tls t s) = outside s" "outside (set_normal a s) = outside s" "outside (set_evac e s) = outside s"
  by (simp_all add: outside_def set_tls_def set_normal_def set_evac_def)

lemma assets_other_space:
  "assets hdr (s\<lparr>space := (space s)\<lparr>block_allocator := ba\<rparr>\<rparr>) = assets hdr s"
  "assets hdr (s\<lparr>space := (space s)\<lparr>block_allocator := ba\<rparr>, blocks := bl\<rparr>) = assets hdr s"
  "assets hdr (s\<lparr>blocks := bl\<rparr>) = assets hdr s"
  by (simp_all add: assets_def)

text \<open>The assets depend on the headers of the held blocks only, and only on their line maps.\<close>

lemma current_assets_cong:
  "(\<And>b B. (b, B) \<in># current_assets hdr c \<Longrightarrow> line_map (hdr' b) = line_map (hdr b)) \<Longrightarrow>
   current_assets hdr' c = current_assets hdr c"
  by (auto simp: current_assets_def tuple_bytes_def hole_bytes_def split: option.splits prod.splits)

lemma assets_cong:
  assumes "\<And>b B. (b, B) \<in># assets hdr s \<Longrightarrow> line_map (hdr' b) = line_map (hdr b)"
  shows "assets hdr' s = assets hdr s"
proof -
  have "thread_assets hdr' t = thread_assets hdr t" if "t \<in> set (threads s)" for t
    using assms that unfolding thread_assets_def
    by (intro arg_cong2 [where f = "(+)"] current_assets_cong) (auto simp: assets_def thread_assets_def)
  then have "image_mset (thread_assets hdr') (mset (threads s)) = image_mset (thread_assets hdr) (mset (threads s))"
    by (intro image_mset_cong) simp
  moreover have "normal_assets hdr' (allocator (space s)) = normal_assets hdr (allocator (space s))"
  proof -
    have "hole_bytes (hdr' b) b 0 = hole_bytes (hdr b) b 0"
      if "b \<in> set (n_recyclable_blocks (allocator (space s)))" for b
      using assms [of b "hole_bytes (hdr b) b 0"] that
      by (auto simp: assets_def normal_assets_def hole_bytes_def)
    then have "image_mset (\<lambda>b. (b, hole_bytes (hdr' b) b 0)) (mset (n_recyclable_blocks (allocator (space s))))
        = image_mset (\<lambda>b. (b, hole_bytes (hdr b) b 0)) (mset (n_recyclable_blocks (allocator (space s))))"
      by (intro image_mset_cong) simp
    moreover have "current_assets hdr' (n_current_block (allocator (space s)))
        = current_assets hdr (n_current_block (allocator (space s)))"
      using assms by (intro current_assets_cong) (auto simp: assets_def normal_assets_def)
    ultimately show ?thesis by (simp add: normal_assets_def)
  qed
  moreover have "current_assets hdr' (o_current_block (overflow_allocator (space s)))
      = current_assets hdr (o_current_block (overflow_allocator (space s)))"
    using assms by (intro current_assets_cong) (auto simp: assets_def overflow_assets_def)
  moreover have "current_assets hdr' (e_current_block (evac_allocator (space s)))
      = current_assets hdr (e_current_block (evac_allocator (space s)))"
    using assms by (intro current_assets_cong) (auto simp: assets_def evac_assets_def)
  ultimately show ?thesis by (simp add: assets_def overflow_assets_def evac_assets_def)
qed

lemma hole_bytes_inside: "x \<in> hole_bytes blk b l \<Longrightarrow> x \<in> block_bytes b"
  using hole_bytes_block by blast

lemma current_assets_inside:
  "current_ok c \<Longrightarrow> (b, B) \<in># current_assets hdr c \<Longrightarrow> B \<subseteq> block_bytes b"
  using tuple_bytes_block by (fastforce simp: current_assets_def split: option.splits)

lemma asset_inside:
  assumes "currents_ok s" and "(b, B) \<in># assets hdr s"
  shows "B \<subseteq> block_bytes b"
  using assms hole_bytes_block [of "hdr b" b 0]
  by (auto simp: assets_def normal_assets_def overflow_assets_def evac_assets_def thread_assets_def
      full_assets_def currents_ok_def dest!: current_assets_inside [rotated])

section \<open>Consequences of the invariant\<close>

lemma space_ok_asset:
  assumes "space_ok H s" and "(b, B) \<in># assets (blocks s) s"
  shows "b \<in> used_blocks (block_allocator (space s))" "b \<notin># H"
proof -
  let ?u = "used_blocks (block_allocator (space s))" and ?F = "image_mset fst (assets (blocks s) s)"
  have fin: "finite ?u" by (simp add: used_blocks_def)
  have eq: "?F + H = mset_set ?u" using assms(1) by (simp add: space_ok_def)
  have F: "b \<in># ?F" using assms(2) by force
  then have "b \<in># mset_set ?u" unfolding eq [symmetric] by simp
  then show "b \<in> ?u" using fin by simp
  show "b \<notin># H"
  proof
    assume "b \<in># H"
    with F have "0 < count ?F b" "0 < count H b" by (simp_all only: count_greater_zero_iff)
    then have "count (?F + H) b \<ge> 2" unfolding count_union by linarith
    moreover have "count (mset_set ?u) b \<le> 1" by (simp add: count_mset_set')
    ultimately show False unfolding eq by simp
  qed
qed

lemma space_ok_hand:
  assumes "space_ok H s" and "b \<in># H"
  shows "b \<in> used_blocks (block_allocator (space s))"
proof -
  have "b \<in># mset_set (used_blocks (block_allocator (space s)))"
    using assms by (metis space_ok_def union_iff)
  then show ?thesis by (simp add: used_blocks_def)
qed

lemma reserve_used_disjoint:
  assumes "block_allocator_ok ba" and "b \<in> used_blocks ba"
  shows "block_bytes b \<inter> reserve_bytes ba = {}"
proof -
  have b: "b \<in> built_blocks ba" "b \<notin> set (free_blocks ba)" using assms(2) by (auto simp: used_blocks_def)
  note inside = built_block_inside [OF assms(1) b(1)]
  have "block_bytes b \<inter> block_bytes c = {}" if "c \<in> set (free_blocks ba)" for c
  proof (rule blocks_disjoint [OF inside(1)])
    show "BLOCK_SIZE dvd c" using assms(1) that by (auto simp: block_allocator_ok_def built_blocks_def)
    show "b \<noteq> c" using b(2) that by blast
  qed
  moreover have "block_bytes b \<inter> {data ba..<data_bound ba} = {}" using inside(3) by auto
  ultimately show ?thesis unfolding reserve_bytes_def by blast
qed

lemma hand_not_available:
  assumes "space_ok H s" and "b \<in># H"
  shows "BLOCK_SIZE dvd b \<and> 0 < b \<and> block_bytes b \<inter> avail_bytes s = {}"
proof -
  let ?ba = "block_allocator (space s)"
  have ok: "block_allocator_ok ?ba" "currents_ok s" using assms(1) by (auto simp: space_ok_def)
  have used: "b \<in> used_blocks ?ba" using assms by (rule space_ok_hand)
  have dvd: "BLOCK_SIZE dvd c \<and> 0 < c" if "c \<in> used_blocks ?ba" for c
    using built_block_inside [OF ok(1), of c] that by (simp add: used_blocks_def)
  have "block_bytes b \<inter> B = {}" if "(c, B) \<in># assets (blocks s) s" for c B
  proof -
    have "b \<noteq> c" "c \<in> used_blocks ?ba" using space_ok_asset [OF assms(1) that] assms(2) by auto
    then have "block_bytes b \<inter> block_bytes c = {}" using dvd used by (intro blocks_disjoint) auto
    then show ?thesis using asset_inside [OF ok(2) that] by blast
  qed
  then have "block_bytes b \<inter> \<Union>(snd ` set_mset (assets (blocks s) s)) = {}" by fastforce
  then show ?thesis
    using reserve_used_disjoint [OF ok(1) used] dvd [OF used] by (auto simp: avail_bytes_def)
qed

lemma avail_inside:
  assumes "space_ok H s" and "x \<in> avail_bytes s"
  shows "Mmap_aligned (mmap (block_allocator (space s))) \<le> x" "x < data_bound (block_allocator (space s))"
proof -
  let ?ba = "block_allocator (space s)"
  have ok: "block_allocator_ok ?ba" "currents_ok s" using assms(1) by (auto simp: space_ok_def)
  have block: "Mmap_aligned (mmap ?ba) \<le> y \<and> y < data_bound ?ba" if "b \<in> built_blocks ?ba" "y \<in> block_bytes b" for b y
    using built_block_inside [OF ok(1) that(1)] that by (auto simp: built_blocks_def)
  consider b B where "(b, B) \<in># assets (blocks s) s" "x \<in> B" | "x \<in> reserve_bytes ?ba"
    using assms(2) by (auto simp: avail_bytes_def)
  then have "Mmap_aligned (mmap ?ba) \<le> x \<and> x < data_bound ?ba"
  proof cases
    case 1
    then show ?thesis
      using block [of b x] asset_inside [OF ok(2) 1(1)] space_ok_asset(1) [OF assms(1) 1(1)]
      by (auto simp: used_blocks_def)
  next
    case 2
    then show ?thesis using ok(1) block by (auto simp: reserve_bytes_def block_allocator_ok_def)
  qed
  then show "Mmap_aligned (mmap ?ba) \<le> x" "x < data_bound ?ba" by auto
qed

text \<open>
  An operation that keeps the headers and the block allocator and moves one asset: it receives a block
  that was in somebody's hands, or gives one away.
\<close>

definition same_frame :: "heap_state \<Rightarrow> heap_state \<Rightarrow> bool" where
  "same_frame s s' \<longleftrightarrow> blocks s' = blocks s \<and> block_allocator (space s') = block_allocator (space s) \<and>
     self_id s' = self_id s \<and> length (threads s') = length (threads s)"

lemma gain_asset:
  assumes "space_ok (add_mset b C) s" and "same_frame s s'" and "currents_ok s'"
    and "assets (blocks s) s' = add_mset (b, B) (assets (blocks s) s)"
  shows "space_ok C s'" "avail_bytes s' \<subseteq> avail_bytes s \<union> B"
  using assms by (auto simp: space_ok_def same_frame_def avail_bytes_def)

lemma lose_asset:
  assumes "space_ok C s" and "same_frame s s'" and "currents_ok s'"
    and "assets (blocks s) s = add_mset (b, B) (assets (blocks s) s')"
  shows "space_ok (add_mset b C) s'" "avail_bytes s' \<subseteq> avail_bytes s" "B \<subseteq> avail_bytes s"
  using assms by (auto simp: space_ok_def same_frame_def avail_bytes_def)

lemma keep_assets:
  assumes "space_ok C s" and "same_frame s s'" and "currents_ok s'"
    and "assets (blocks s) s' = assets (blocks s) s"
  shows "space_ok C s'" "avail_bytes s' = avail_bytes s"
  using assms by (auto simp: space_ok_def same_frame_def avail_bytes_def)

section \<open>The operations on the assets\<close>

lemma full_block_assets [simp]:
  "assets hdr (NormalAllocator_handle_full_block b s) = add_mset (b, {}) (assets hdr s)"
  "assets hdr (OverflowAllocator_handle_full_block b s) = add_mset (b, {}) (assets hdr s)"
  "assets hdr (EvacAllocator_handle_full_block b s) = add_mset (b, {}) (assets hdr s)"
  by (simp_all add: NormalAllocator_handle_full_block_def OverflowAllocator_handle_full_block_def
      EvacAllocator_handle_full_block_def assets_def set_normal_def set_evac_def Let_def
      normal_assets_def overflow_assets_def evac_assets_def)

lemma full_block_simps [simp]:
  "blocks (NormalAllocator_handle_full_block b s) = blocks s"
  "threads (NormalAllocator_handle_full_block b s) = threads s"
  "self_id (NormalAllocator_handle_full_block b s) = self_id s"
  "block_allocator (space (NormalAllocator_handle_full_block b s)) = block_allocator (space s)"
  "currents_ok (NormalAllocator_handle_full_block b s) = currents_ok s"
  "blocks (OverflowAllocator_handle_full_block b s) = blocks s"
  "threads (OverflowAllocator_handle_full_block b s) = threads s"
  "self_id (OverflowAllocator_handle_full_block b s) = self_id s"
  "block_allocator (space (OverflowAllocator_handle_full_block b s)) = block_allocator (space s)"
  "currents_ok (OverflowAllocator_handle_full_block b s) = currents_ok s"
  "blocks (EvacAllocator_handle_full_block b s) = blocks s"
  "threads (EvacAllocator_handle_full_block b s) = threads s"
  "self_id (EvacAllocator_handle_full_block b s) = self_id s"
  "block_allocator (space (EvacAllocator_handle_full_block b s)) = block_allocator (space s)"
  "currents_ok (EvacAllocator_handle_full_block b s) = currents_ok s"
  "e_current_block (evac_allocator (space (EvacAllocator_handle_full_block b s)))
     = e_current_block (evac_allocator (space s))"
  "outside (NormalAllocator_handle_full_block b s) = outside s"
  "outside (OverflowAllocator_handle_full_block b s) = outside s"
  "outside (EvacAllocator_handle_full_block b s) = outside s"
  by (simp_all add: outside_def NormalAllocator_handle_full_block_def OverflowAllocator_handle_full_block_def
      EvacAllocator_handle_full_block_def currents_ok_def Let_def)

lemma full_block_ok:
  assumes "space_ok (add_mset b C) s"
  shows "space_ok C (NormalAllocator_handle_full_block b s)"
    "space_ok C (OverflowAllocator_handle_full_block b s)"
    "space_ok C (EvacAllocator_handle_full_block b s)"
  using assms by (simp_all add: space_ok_def)

lemma full_block_avail:
  "avail_bytes (NormalAllocator_handle_full_block b s) = avail_bytes s"
  "avail_bytes (OverflowAllocator_handle_full_block b s) = avail_bytes s"
  "avail_bytes (EvacAllocator_handle_full_block b s) = avail_bytes s"
  by (simp_all add: avail_bytes_def)

text \<open>A new block of the global allocator.\<close>

lemma tuple_bytes_new: "tuple_bytes hdr (b, 128, 32767) = {b + LINE_SIZE..<b + BLOCK_SIZE}"
proof -
  have "hole_bytes (hdr b) b 255 = {}" by (auto simp: hole_bytes_def BLOCK_SIZE_def)
  then show ?thesis by (auto simp: tuple_bytes_def const_simps)
qed

lemma offsets_new: "offsets_ok (b, 128, 32767)"
  by (simp add: offsets_ok_def)

lemma as_u16_consts [simp]: "as_u16 LINE_SIZE = 128" "as_u16 (BLOCK_SIZE - Suc 0) = 32767"
  "as_u16 (size_of_ImmixBlock - Suc 0) = 47"
  by (simp_all add: as_u16_def const_simps)

lemma get_global_block_cases:
  assumes ok: "space_ok K s"
  obtains (none) "get_global_block s = (None, s)"
  | (some) b s' where "get_global_block s = (Some (b, 128, 32767), s')" "space_ok (add_mset b K) s'"
      "avail_bytes s' \<subseteq> avail_bytes s" "tuple_bytes (blocks s') (b, 128, 32767) \<subseteq> avail_bytes s"
      "threads s' = threads s" "self_id s' = self_id s" "outside s' = outside s"
proof -
  let ?ba = "block_allocator (space s)"
  have ba: "block_allocator_ok ?ba" and valid: "\<And>c. block_valid (blocks s c)"
    using ok by (auto simp: space_ok_def)
  obtain r ba' bl where get: "BlockAllocator_get_block ?ba (blocks s) = (r, ba', bl)" by (metis prod_cases3)
  show ?thesis
  proof (cases r)
    case None
    then have "ba' = ?ba" "bl = blocks s"
      using get get_block_cases [OF ba, of "blocks s"] by auto
    then have "get_global_block s = (None, s)" using get None by (simp add: get_global_block_def)
    then show ?thesis by (rule none)
  next
    case (Some b)
    note spec = get_block_spec [OF ba get [unfolded Some]]
    define hdr where "hdr = bl(b := (bl b)\<lparr>allocated := True\<rparr>)"
    define s' where "s' = s\<lparr>space := (space s)\<lparr>block_allocator := ba'\<rparr>, blocks := hdr\<rparr>"
    have run: "get_global_block s = (Some (b, 128, 32767), s')"
      using get Some by (simp add: get_global_block_def s'_def hdr_def Let_def)
    have hdr: "line_map (hdr c) = line_map (blocks s c)" if "c \<noteq> b" for c
      using spec(7) that by (auto simp: hdr_def)
    have fresh: "c \<noteq> b" if "(c, B) \<in># assets (blocks s) s" for c B
      using space_ok_asset(1) [OF ok that] spec(2) by blast
    have assets: "assets (blocks s') s' = assets (blocks s) s"
    proof -
      have "assets (blocks s') s' = assets hdr s" by (simp add: s'_def assets_other_space)
      also have "\<dots> = assets (blocks s) s" by (rule assets_cong) (use hdr fresh in blast)
      finally show ?thesis .
    qed
    have "mset_set (used_blocks ba') = add_mset b (mset_set (used_blocks ?ba))"
      using spec(2,3) by (simp add: used_blocks_def)
    moreover have "block_valid (hdr c)" for c
      using spec(7) valid by (auto simp: hdr_def)
    moreover have "currents_ok s'" using ok by (simp add: s'_def space_ok_def currents_ok_def)
    ultimately have ok': "space_ok (add_mset b K) s'"
      using ok spec(1) assets by (simp add: space_ok_def s'_def)
    have av: "avail_bytes s' \<subseteq> avail_bytes s"
      using assets spec(5) by (auto simp: avail_bytes_def s'_def)
    have "{b + LINE_SIZE..<b + BLOCK_SIZE} \<subseteq> block_bytes b" by auto
    then have "tuple_bytes (blocks s') (b, 128, 32767) \<subseteq> avail_bytes s"
      using spec(4) unfolding tuple_bytes_new avail_bytes_def by blast
    then show ?thesis using some [OF run ok' av] spec(8,9) by (simp add: s'_def outside_def)
  qed
qed

section \<open>The instance for \<open>NormalAllocator\<close>\<close>

text \<open>\<open>C\<close> are the blocks that the collector keeps.\<close>

definition normal_busy ::
    "SpaceBitmap \<times> memory \<times> usize \<times> usize \<Rightarrow> usize multiset \<Rightarrow> usize multiset \<Rightarrow> heap_state \<Rightarrow> bool" where
  "normal_busy f C H s \<longleftrightarrow> space_ok (H + C) s \<and> outside s = f \<and> current_block (tls s) = None"

interpretation normal_scan: hole_scanner blocks NormalAllocator_handle_full_block "normal_busy f C" avail_bytes
  for f C
  by unfold_locales (auto simp: normal_busy_def full_block_ok full_block_avail space_ok_def)

lemma normal_pop_recyclable:
  assumes busy: "normal_busy f C {#} s" and rec: "n_recyclable_blocks (allocator (space s)) = rest @ [b]"
  defines "s' \<equiv> set_normal ((allocator (space s))\<lparr>n_recyclable_blocks := rest\<rparr>) s"
  shows "normal_busy f C {#b#} s'" "avail_bytes s' \<subseteq> avail_bytes s"
    "hole_bytes (blocks s' b) b 0 \<subseteq> avail_bytes s"
proof -
  have a: "assets hdr s = add_mset (b, hole_bytes (hdr b) b 0) (assets hdr s')" for hdr
    using rec by (simp add: s'_def set_normal_def assets_def normal_assets_def)
  have "currents_ok s' = currents_ok s" by (simp add: s'_def currents_ok_def)
  then show "normal_busy f C {#b#} s'"
    using busy a by (simp add: normal_busy_def space_ok_def s'_def)
  show "avail_bytes s' \<subseteq> avail_bytes s"
    using a [of "blocks s"] by (auto simp: avail_bytes_def s'_def)
  show "hole_bytes (blocks s' b) b 0 \<subseteq> avail_bytes s"
    using a [of "blocks s"] by (auto simp: avail_bytes_def s'_def)
qed

text \<open>\<open>handle_no_hole\<close> gives up on larger objects and without recyclable blocks; otherwise it scans the last recyclable block from its first line on.\<close>

lemma normal_no_hole_none:
  assumes "sz \<ge> LINE_SIZE \<or> n_recyclable_blocks (allocator (space s)) = []"
  shows "NormalAllocator_handle_no_hole sz s = Some (None, s)"
proof -
  have "set_normal ((allocator (space s))\<lparr>n_recyclable_blocks := []\<rparr>) s = s" if "n_recyclable_blocks (allocator (space s)) = []"
    using that by (simp add: set_normal_def)
  then show ?thesis using assms by (subst NormalAllocator_handle_no_hole.simps) auto
qed

lemma normal_no_hole_step:
  assumes "sz < LINE_SIZE" and "n_recyclable_blocks (allocator (space s)) = rest @ [b]"
  defines "s1 \<equiv> set_normal ((allocator (space s))\<lparr>n_recyclable_blocks := rest\<rparr>) s"
  shows "NormalAllocator_handle_no_hole sz s = do {
      found \<leftarrow> ImmixBlock_scan_block b (blocks s1 b) 47;
      case found of
        None \<Rightarrow> NormalAllocator_handle_no_hole sz (NormalAllocator_handle_full_block b s1)
      | Some (low, high) \<Rightarrow> do {
          (hole, s) \<leftarrow> Allocator_scan_for_hole blocks NormalAllocator_handle_full_block sz (b, low, high) s1;
          case hole of Some tp \<Rightarrow> Some (Some tp, s) | None \<Rightarrow> NormalAllocator_handle_no_hole sz s } }"
proof -
  have "blocks s = blocks s1" by (simp add: s1_def)
  then show ?thesis using assms(1,2) by (subst NormalAllocator_handle_no_hole.simps) (simp add: s1_def [symmetric] Let_def)
qed

text \<open>One recyclable block \<open>b\<close>: a hole of it is found, or it is full and the search goes on with the next block.\<close>

lemma normal_no_hole_block:
  assumes step: "sz < LINE_SIZE" "n_recyclable_blocks (allocator (space s)) = rest @ [b]" and busy: "normal_busy f C {#} s"
  defines "s1 \<equiv> set_normal ((allocator (space s))\<lparr>n_recyclable_blocks := rest\<rparr>) s"
  assumes again: "\<exists>r s'. NormalAllocator_handle_no_hole sz (NormalAllocator_handle_full_block b s1) = Some (r, s') \<and>
      normal_scan.scanned f C (avail_bytes s) sz r s'"
  shows "\<exists>r s'. NormalAllocator_handle_no_hole sz s = Some (r, s') \<and> normal_scan.scanned f C (avail_bytes s) sz r s'"
proof -
  note pop = normal_pop_recyclable [OF busy step(2), folded s1_def] and unfold = normal_no_hole_step [OF step, folded s1_def]
  from scan_block_tuple [of "blocks s1" b 47, OF normal_scan.header_valid [OF pop(1)]] show ?thesis
  proof (elim disjE exE conjE)
    assume "ImmixBlock_scan_block b (blocks s1 b) 47 = Some None"
    then show ?thesis using again by (simp add: unfold)
  next
    fix low high
    assume found: "ImmixBlock_scan_block b (blocks s1 b) 47 = Some (Some (low, high))"
      and tp: "offsets_ok (b, low, high)" "tuple_bytes (blocks s1) (b, low, high) \<subseteq> hole_bytes (blocks s1 b) b (47 div 128)"
    have "normal_scan.hand f C (avail_bytes s) (b, low, high) s1" using pop tp by (auto simp: normal_scan.hand_def)
    from normal_scan.scan_for_hole_spec [OF this, of sz] obtain r s2 where
      r: "Allocator_scan_for_hole blocks NormalAllocator_handle_full_block sz (b, low, high) s1 = Some (r, s2)"
      "normal_scan.scanned f C (avail_bytes s) sz r s2" "s2 = (if r = None then NormalAllocator_handle_full_block b s1 else s1)"
      unfolding fst_conv by blast
    then show ?thesis using again by (cases r) (simp_all add: unfold found)
  qed
qed

lemma normal_handle_no_hole_spec:
  assumes "normal_busy f C {#} s"
  shows "\<exists>r s'. NormalAllocator_handle_no_hole sz s = Some (r, s') \<and>
    normal_scan.scanned f C (avail_bytes s) sz r s'"
  using assms
proof (induction "length (n_recyclable_blocks (allocator (space s)))" arbitrary: s rule: less_induct)
  case less
  let ?a = "allocator (space s)"
  show ?case
  proof (cases "sz \<ge> LINE_SIZE \<or> n_recyclable_blocks ?a = []")
    case True
    then show ?thesis using less.prems normal_no_hole_none by (simp add: normal_scan.scanned_def)
  next
    case False
    then obtain rest b where snoc: "n_recyclable_blocks ?a = rest @ [b]" by (cases "n_recyclable_blocks ?a" rule: rev_cases) auto
    define s1 where "s1 = set_normal (?a\<lparr>n_recyclable_blocks := rest\<rparr>) s"
    let ?s2 = "NormalAllocator_handle_full_block b s1"
    note pop = normal_pop_recyclable [OF less.prems snoc, folded s1_def]
    have "length (n_recyclable_blocks (allocator (space ?s2))) < length (n_recyclable_blocks ?a)"
      using snoc by (simp add: s1_def NormalAllocator_handle_full_block_def Let_def)
    moreover have "normal_busy f C {#} ?s2" "avail_bytes ?s2 \<subseteq> avail_bytes s"
      using normal_scan.full_busy [OF pop(1)] normal_scan.full_avail [OF pop(1)] pop(2) by auto
    ultimately have "\<exists>r s'. NormalAllocator_handle_no_hole sz ?s2 = Some (r, s') \<and> normal_scan.scanned f C (avail_bytes s) sz r s'"
      using less.hyps [of ?s2] normal_scan.scanned_mono by blast
    then show ?thesis using False normal_no_hole_block [OF _ snoc less.prems] unfolding s1_def by auto
  qed
qed

text \<open>Taking a tuple out of a slot and putting one in, for the thread-local slots and the one of \<open>EvacAllocator\<close>.\<close>

lemma tls_set_tls [simp]:
  "self_id s < length (threads s) \<Longrightarrow> threads (set_tls t s) ! self_id s = t"
  by (simp add: set_tls_def)

lemma same_frame_simps [simp]:
  "same_frame s (set_tls t s)" "same_frame s (set_normal a s)" "same_frame s (set_evac e s)"
  by (simp_all add: same_frame_def)

lemma currents_ok_set_tls:
  "space_ok H s \<Longrightarrow> current_ok (current_block t) \<Longrightarrow> current_ok (current_ovf_block t) \<Longrightarrow>
   currents_ok (set_tls t s)"
  by (auto simp: space_ok_def currents_ok_def set_tls_def dest!: set_update_subset_insert [THEN subsetD])

lemma tls_slots_ok:
  "space_ok H s \<Longrightarrow> self_id s < length (threads s) \<and> current_ok (current_block (tls s)) \<and>
     current_ok (current_ovf_block (tls s))"
  by (auto simp: space_ok_def currents_ok_def)

definition slot_put :: "(BlockTuple option \<Rightarrow> heap_state \<Rightarrow> heap_state) \<Rightarrow> (heap_state \<Rightarrow> BlockTuple option) \<Rightarrow> bool" where
  "slot_put upd slot \<longleftrightarrow> (\<forall>s c H. space_ok H s \<longrightarrow>
     same_frame s (upd c s) \<and> outside (upd c s) = outside s \<and> slot (upd c s) = c \<and> current_ok (slot s) \<and>
     (current_ok c \<longrightarrow> currents_ok (upd c s)) \<and>
     assets (blocks s) (upd c s) + current_assets (blocks s) (slot s)
       = assets (blocks s) s + current_assets (blocks s) c)"

definition normal_slot :: "BlockTuple option \<Rightarrow> heap_state \<Rightarrow> heap_state" where
  "normal_slot c s = set_tls ((tls s)\<lparr>current_block := c\<rparr>) s"

definition overflow_slot :: "BlockTuple option \<Rightarrow> heap_state \<Rightarrow> heap_state" where
  "overflow_slot c s = set_tls ((tls s)\<lparr>current_ovf_block := c\<rparr>) s"

definition evac_slot :: "BlockTuple option \<Rightarrow> heap_state \<Rightarrow> heap_state" where
  "evac_slot c s = set_evac ((evac_allocator (space s))\<lparr>e_current_block := c\<rparr>) s"

lemma slots:
  "slot_put normal_slot (\<lambda>s. current_block (tls s))"
  "slot_put overflow_slot (\<lambda>s. current_ovf_block (tls s))"
  "slot_put evac_slot (\<lambda>s. e_current_block (evac_allocator (space s)))"
proof -
  show "slot_put normal_slot (\<lambda>s. current_block (tls s))"
    unfolding slot_put_def
  proof (intro allI impI conjI)
    fix s c H assume ok: "space_ok H s"
    note t = tls_slots_ok [OF ok]
    show "assets (blocks s) (normal_slot c s) + current_assets (blocks s) (current_block (tls s))
        = assets (blocks s) s + current_assets (blocks s) c"
      using assets_set_tls [of s "blocks s" "(tls s)\<lparr>current_block := c\<rparr>"] t
      by (simp add: normal_slot_def thread_assets_def)
    show "current_ok c \<Longrightarrow> currents_ok (normal_slot c s)"
      using currents_ok_set_tls [OF ok] t by (simp add: normal_slot_def)
  qed (use tls_slots_ok in \<open>auto simp: normal_slot_def\<close>)
  show "slot_put overflow_slot (\<lambda>s. current_ovf_block (tls s))"
    unfolding slot_put_def
  proof (intro allI impI conjI)
    fix s c H assume ok: "space_ok H s"
    note t = tls_slots_ok [OF ok]
    show "assets (blocks s) (overflow_slot c s) + current_assets (blocks s) (current_ovf_block (tls s))
        = assets (blocks s) s + current_assets (blocks s) c"
      using assets_set_tls [of s "blocks s" "(tls s)\<lparr>current_ovf_block := c\<rparr>"] t
      by (simp add: overflow_slot_def thread_assets_def)
    show "current_ok c \<Longrightarrow> currents_ok (overflow_slot c s)"
      using currents_ok_set_tls [OF ok] t by (simp add: overflow_slot_def)
  qed (use tls_slots_ok in \<open>auto simp: overflow_slot_def\<close>)
  show "slot_put evac_slot (\<lambda>s. e_current_block (evac_allocator (space s)))"
    by (auto simp: slot_put_def evac_slot_def assets_def set_evac_def evac_assets_def space_ok_def
        currents_ok_def same_frame_def outside_def)
qed

lemma slot_outside: "slot_put upd slot \<Longrightarrow> space_ok H s \<Longrightarrow> outside (upd c s) = outside s"
  unfolding slot_put_def by blast

lemma put_into_slot:
  assumes "slot_put upd slot" and "space_ok (add_mset (fst tp) C) s" and "slot s = None" and "offsets_ok tp"
  shows "space_ok C (upd (Some tp) s)" "avail_bytes (upd (Some tp) s) \<subseteq> avail_bytes s \<union> tuple_bytes (blocks s) tp"
proof -
  have "same_frame s (upd (Some tp) s)" "currents_ok (upd (Some tp) s)"
    "assets (blocks s) (upd (Some tp) s) = add_mset (fst tp, tuple_bytes (blocks s) tp) (assets (blocks s) s)"
    using assms unfolding slot_put_def by fastforce+
  from gain_asset [OF assms(2) this] show "space_ok C (upd (Some tp) s)"
    "avail_bytes (upd (Some tp) s) \<subseteq> avail_bytes s \<union> tuple_bytes (blocks s) tp" by auto
qed

lemma take_from_slot:
  assumes "slot_put upd slot" and "space_ok C s"
  shows "slot s = None \<Longrightarrow> space_ok C (upd None s) \<and> avail_bytes (upd None s) \<subseteq> avail_bytes s"
    and "slot s = Some tp \<Longrightarrow> space_ok (add_mset (fst tp) C) (upd None s) \<and>
      avail_bytes (upd None s) \<subseteq> avail_bytes s \<and> offsets_ok tp \<and>
      tuple_bytes (blocks (upd None s)) tp \<subseteq> avail_bytes s"
    and "slot (upd None s) = None"
proof -
  have f: "same_frame s (upd None s)" "currents_ok (upd None s)" "slot (upd None s) = None" "current_ok (slot s)"
    "assets (blocks s) (upd None s) + current_assets (blocks s) (slot s) = assets (blocks s) s"
    using assms unfolding slot_put_def by fastforce+
  show "slot (upd None s) = None" by (rule f(3))
  show "space_ok C (upd None s) \<and> avail_bytes (upd None s) \<subseteq> avail_bytes s" if "slot s = None"
    using keep_assets [OF assms(2) f(1,2)] f(5) that by simp
  show "space_ok (add_mset (fst tp) C) (upd None s) \<and> avail_bytes (upd None s) \<subseteq> avail_bytes s \<and>
      offsets_ok tp \<and> tuple_bytes (blocks (upd None s)) tp \<subseteq> avail_bytes s" if "slot s = Some tp"
  proof -
    have "assets (blocks s) s = add_mset (fst tp, tuple_bytes (blocks s) tp) (assets (blocks s) (upd None s))"
      using f(5) that by simp
    from lose_asset [OF assms(2) f(1,2) this] f(1,4) that show ?thesis by (simp add: same_frame_def)
  qed
qed

lemma normal_new_block:
  assumes busy: "normal_busy f C {#} s" and new: "NormalAllocator_get_new_block s = (r, s')" and sz: "sz \<le> LARGE_OBJECT"
  shows "normal_scan.scanned f C (avail_bytes s) sz r s'"
proof -
  have ok: "space_ok C s" and fit: "fits sz (b, 128, 32767)" for b
    using busy sz by (auto simp: normal_busy_def fits_def LARGE_OBJECT_def)
  show ?thesis
  proof (cases rule: get_global_block_cases [OF ok, case_names none some])
    case none
    then show ?thesis
      using busy new by (simp add: normal_scan.scanned_def NormalAllocator_get_new_block_def)
  next
    case (some b s1)
    then show ?thesis
      using busy new fit offsets_new
      by (auto simp: normal_scan.scanned_def normal_scan.hand_def normal_busy_def NormalAllocator_get_new_block_def)
  qed
qed

interpretation normal: allocator_contract Normal_ops blocks "normal_busy f C" avail_bytes "space_at f C" for f C
proof
  fix s s' :: heap_state and b H tp sz r
  note ops = Normal_ops_def NormalAllocator_take_current_block_def NormalAllocator_put_current_block_def normal_slot_def
  show "normal_busy f C H s \<Longrightarrow> block_valid (blocks s b)" by (rule normal_scan.header_valid)
  show "normal_busy f C {#b#} s \<Longrightarrow> normal_busy f C {#} (handle_full_block Normal_ops b s)"
    "normal_busy f C {#b#} s \<Longrightarrow> avail_bytes (handle_full_block Normal_ops b s) \<subseteq> avail_bytes s"
    using normal_scan.full_busy normal_scan.full_avail by (simp_all add: Normal_ops_def)
  show "normal_busy f C {#b#} s \<Longrightarrow> BLOCK_SIZE dvd b \<and> 0 < b \<and> block_bytes b \<inter> avail_bytes s = {}"
    using hand_not_available [of "{#b#} + C" s b] by (simp add: normal_busy_def)
  show "normal_busy f C {#} s \<Longrightarrow> space_at f C s" by (simp add: normal_busy_def space_at_def)
  show "normal_busy f C {#} s \<Longrightarrow> \<exists>r s'. handle_no_hole Normal_ops sz s = Some (r, s') \<and>
      hole_scanner.scanned blocks (normal_busy f C) avail_bytes (avail_bytes s) sz r s'"
    using normal_handle_no_hole_spec by (simp add: Normal_ops_def)
  show "normal_busy f C {#fst tp#} s \<Longrightarrow> offsets_ok tp \<Longrightarrow> space_at f C (put_current_block Normal_ops tp s)"
    "normal_busy f C {#fst tp#} s \<Longrightarrow> offsets_ok tp \<Longrightarrow>
       avail_bytes (put_current_block Normal_ops tp s) \<subseteq> avail_bytes s \<union> tuple_bytes (blocks s) tp"
    using put_into_slot [OF slots(1), of tp C s] by (simp_all add: normal_busy_def space_at_def ops)
  show "space_at f C s \<Longrightarrow> take_current_block Normal_ops s = (None, s') \<Longrightarrow>
      normal_busy f C {#} s' \<and> avail_bytes s' \<subseteq> avail_bytes s"
    using take_from_slot(1,3) [OF slots(1), of C s] by (auto simp: normal_busy_def space_at_def ops Let_def)
  show "space_at f C s \<Longrightarrow> take_current_block Normal_ops s = (Some tp, s') \<Longrightarrow>
      hole_scanner.hand blocks (normal_busy f C) avail_bytes (avail_bytes s) tp s'"
    using take_from_slot(2,3) [OF slots(1), of C s] by (auto simp: normal_scan.hand_def normal_busy_def space_at_def ops Let_def)
  show "normal_busy f C {#} s \<Longrightarrow> get_new_block Normal_ops s = (r, s') \<Longrightarrow> sz \<le> LARGE_OBJECT \<Longrightarrow>
      hole_scanner.scanned blocks (normal_busy f C) avail_bytes (avail_bytes s) sz r s'"
    by (rule normal_new_block) (simp_all add: Normal_ops_def)
qed

section \<open>The instance for \<open>OverflowAllocator\<close>\<close>

definition overflow_busy ::
    "SpaceBitmap \<times> memory \<times> usize \<times> usize \<Rightarrow> usize multiset \<Rightarrow> usize multiset \<Rightarrow> heap_state \<Rightarrow> bool" where
  "overflow_busy f C H s \<longleftrightarrow> space_ok (H + C) s \<and> outside s = f \<and> current_ovf_block (tls s) = None"

interpretation overflow_scan: hole_scanner blocks OverflowAllocator_handle_full_block "overflow_busy f C" avail_bytes
  for f C
  by unfold_locales (auto simp: overflow_busy_def full_block_ok full_block_avail space_ok_def)

lemma overflow_new_block:
  assumes busy: "overflow_busy f C {#} s" and new: "OverflowAllocator_get_new_block s = (r, s')" and sz: "sz \<le> LARGE_OBJECT"
  shows "overflow_scan.scanned f C (avail_bytes s) sz r s'"
proof -
  have ok: "space_ok C s" and fit: "fits sz (b, 128, 32767)" for b
    using busy sz by (auto simp: overflow_busy_def fits_def LARGE_OBJECT_def)
  show ?thesis
  proof (cases rule: get_global_block_cases [OF ok, case_names none some])
    case none
    then show ?thesis
      using busy new by (simp add: overflow_scan.scanned_def OverflowAllocator_get_new_block_def)
  next
    case (some b s1)
    then show ?thesis
      using busy new fit offsets_new
      by (auto simp: overflow_scan.scanned_def overflow_scan.hand_def overflow_busy_def OverflowAllocator_get_new_block_def)
  qed
qed

interpretation overflow: allocator_contract Overflow_ops blocks "overflow_busy f C" avail_bytes "space_at f C" for f C
proof
  fix s s' :: heap_state and b H tp sz r
  note ops = Overflow_ops_def OverflowAllocator_take_current_block_def OverflowAllocator_put_current_block_def overflow_slot_def
  show "overflow_busy f C H s \<Longrightarrow> block_valid (blocks s b)" by (rule overflow_scan.header_valid)
  show "overflow_busy f C {#b#} s \<Longrightarrow> overflow_busy f C {#} (handle_full_block Overflow_ops b s)"
    "overflow_busy f C {#b#} s \<Longrightarrow> avail_bytes (handle_full_block Overflow_ops b s) \<subseteq> avail_bytes s"
    using overflow_scan.full_busy overflow_scan.full_avail by (simp_all add: Overflow_ops_def)
  show "overflow_busy f C {#b#} s \<Longrightarrow> BLOCK_SIZE dvd b \<and> 0 < b \<and> block_bytes b \<inter> avail_bytes s = {}"
    using hand_not_available [of "{#b#} + C" s b] by (simp add: overflow_busy_def)
  show "overflow_busy f C {#} s \<Longrightarrow> space_at f C s" by (simp add: overflow_busy_def space_at_def)
  show "overflow_busy f C {#} s \<Longrightarrow> \<exists>r s'. handle_no_hole Overflow_ops sz s = Some (r, s') \<and>
      hole_scanner.scanned blocks (overflow_busy f C) avail_bytes (avail_bytes s) sz r s'"
    by (simp add: Overflow_ops_def OverflowAllocator_handle_no_hole_def overflow_scan.scanned_def)
  show "overflow_busy f C {#fst tp#} s \<Longrightarrow> offsets_ok tp \<Longrightarrow> space_at f C (put_current_block Overflow_ops tp s)"
    "overflow_busy f C {#fst tp#} s \<Longrightarrow> offsets_ok tp \<Longrightarrow>
       avail_bytes (put_current_block Overflow_ops tp s) \<subseteq> avail_bytes s \<union> tuple_bytes (blocks s) tp"
    using put_into_slot [OF slots(2), of tp C s] by (simp_all add: overflow_busy_def space_at_def ops)
  show "space_at f C s \<Longrightarrow> take_current_block Overflow_ops s = (None, s') \<Longrightarrow>
      overflow_busy f C {#} s' \<and> avail_bytes s' \<subseteq> avail_bytes s"
    using take_from_slot(1,3) [OF slots(2), of C s] by (auto simp: overflow_busy_def space_at_def ops Let_def)
  show "space_at f C s \<Longrightarrow> take_current_block Overflow_ops s = (Some tp, s') \<Longrightarrow>
      hole_scanner.hand blocks (overflow_busy f C) avail_bytes (avail_bytes s) tp s'"
    using take_from_slot(2,3) [OF slots(2), of C s] by (auto simp: overflow_scan.hand_def overflow_busy_def space_at_def ops Let_def)
  show "overflow_busy f C {#} s \<Longrightarrow> get_new_block Overflow_ops s = (r, s') \<Longrightarrow> sz \<le> LARGE_OBJECT \<Longrightarrow>
      hole_scanner.scanned blocks (overflow_busy f C) avail_bytes (avail_bytes s) sz r s'"
    by (rule overflow_new_block) (simp_all add: Overflow_ops_def)
qed

section \<open>The instance for \<open>EvacAllocator\<close>\<close>

definition evac_busy ::
    "SpaceBitmap \<times> memory \<times> usize \<times> usize \<Rightarrow> usize multiset \<Rightarrow> usize multiset \<Rightarrow> heap_state \<Rightarrow> bool" where
  "evac_busy f C H s \<longleftrightarrow> space_ok (H + C) s \<and> outside s = f \<and> e_current_block (evac_allocator (space s)) = None"

interpretation evac_scan: hole_scanner blocks EvacAllocator_handle_full_block "evac_busy f C" avail_bytes
  for f C
  by unfold_locales (auto simp: evac_busy_def full_block_ok full_block_avail space_ok_def)

text \<open>A new block comes out of the headroom.\<close>

lemma evac_new_block:
  assumes busy: "evac_busy f C {#} s" and new: "EvacAllocator_get_new_block s = (r, s')" and sz: "sz \<le> LARGE_OBJECT"
  shows "evac_scan.scanned f C (avail_bytes s) sz r s'"
proof -
  let ?a = "evac_allocator (space s)"
  have ok: "space_ok C s" using busy by (simp add: evac_busy_def)
  show ?thesis
  proof (cases "e_evac_headroom ?a" rule: rev_cases)
    case Nil
    then have "r = None" "s' = s" using new by (auto simp: EvacAllocator_get_new_block_def set_evac_def)
    then show ?thesis using busy by (simp add: evac_scan.scanned_def)
  next
    case (snoc rest b)
    define s1 where "s1 = set_evac (?a\<lparr>e_evac_headroom := rest\<rparr>) s"
    have r: "r = Some (b, 128, 32767)"
      and s': "s' = s1\<lparr>blocks := (blocks s1)(b := (blocks s1 b)\<lparr>allocated := True\<rparr>)\<rparr>"
      using new snoc by (auto simp: EvacAllocator_get_new_block_def s1_def Let_def)
    have "assets (blocks s) s = add_mset (b, {b + LINE_SIZE..<b + BLOCK_SIZE}) (assets (blocks s) s1)"
      using snoc by (simp add: s1_def set_evac_def assets_def evac_assets_def)
    moreover have "same_frame s s1" by (simp add: s1_def)
    moreover have "currents_ok s1" using ok snoc by (simp add: s1_def space_ok_def currents_ok_def)
    ultimately have l: "space_ok (add_mset b C) s1" "avail_bytes s1 \<subseteq> avail_bytes s"
      "{b + LINE_SIZE..<b + BLOCK_SIZE} \<subseteq> avail_bytes s" using lose_asset [OF ok] by blast+
    have "assets (blocks s') s' = assets (blocks s1) s1"
      unfolding s' assets_other_space by (rule assets_cong) simp
    then have "space_ok (add_mset b C) s'" "avail_bytes s' = avail_bytes s1"
      using l(1) by (auto simp: space_ok_def avail_bytes_def s' currents_ok_def)
    moreover have "fits sz (b, 128, 32767)" using sz by (simp add: fits_def LARGE_OBJECT_def)
    moreover have "e_current_block (evac_allocator (space s')) = None"
      using busy by (simp add: s' s1_def evac_busy_def)
    moreover have "outside s' = f" using busy by (simp add: s' s1_def evac_busy_def outside_def)
    ultimately show ?thesis
      using l(2,3) offsets_new
      by (simp add: evac_scan.scanned_def evac_scan.hand_def evac_busy_def r tuple_bytes_new)
  qed
qed

interpretation evac: allocator_contract Evac_ops blocks "evac_busy f C" avail_bytes "space_at f C" for f C
proof
  fix s s' :: heap_state and b H tp sz r
  note ops = Evac_ops_def EvacAllocator_take_current_block_def EvacAllocator_put_current_block_def evac_slot_def
  show "evac_busy f C H s \<Longrightarrow> block_valid (blocks s b)" by (rule evac_scan.header_valid)
  show "evac_busy f C {#b#} s \<Longrightarrow> evac_busy f C {#} (handle_full_block Evac_ops b s)"
    "evac_busy f C {#b#} s \<Longrightarrow> avail_bytes (handle_full_block Evac_ops b s) \<subseteq> avail_bytes s"
    using evac_scan.full_busy evac_scan.full_avail by (simp_all add: Evac_ops_def)
  show "evac_busy f C {#b#} s \<Longrightarrow> BLOCK_SIZE dvd b \<and> 0 < b \<and> block_bytes b \<inter> avail_bytes s = {}"
    using hand_not_available [of "{#b#} + C" s b] by (simp add: evac_busy_def)
  show "evac_busy f C {#} s \<Longrightarrow> space_at f C s" by (simp add: evac_busy_def space_at_def)
  show "evac_busy f C {#} s \<Longrightarrow> \<exists>r s'. handle_no_hole Evac_ops sz s = Some (r, s') \<and>
      hole_scanner.scanned blocks (evac_busy f C) avail_bytes (avail_bytes s) sz r s'"
    by (simp add: Evac_ops_def EvacAllocator_handle_no_hole_def evac_scan.scanned_def)
  show "evac_busy f C {#fst tp#} s \<Longrightarrow> offsets_ok tp \<Longrightarrow> space_at f C (put_current_block Evac_ops tp s)"
    "evac_busy f C {#fst tp#} s \<Longrightarrow> offsets_ok tp \<Longrightarrow>
       avail_bytes (put_current_block Evac_ops tp s) \<subseteq> avail_bytes s \<union> tuple_bytes (blocks s) tp"
    using put_into_slot [OF slots(3), of tp C s] by (simp_all add: evac_busy_def space_at_def ops)
  show "space_at f C s \<Longrightarrow> take_current_block Evac_ops s = (None, s') \<Longrightarrow>
      evac_busy f C {#} s' \<and> avail_bytes s' \<subseteq> avail_bytes s"
    using take_from_slot(1,3) [OF slots(3), of C s] by (auto simp: evac_busy_def space_at_def ops Let_def)
  show "space_at f C s \<Longrightarrow> take_current_block Evac_ops s = (Some tp, s') \<Longrightarrow>
      hole_scanner.hand blocks (evac_busy f C) avail_bytes (avail_bytes s) tp s'"
    using take_from_slot(2,3) [OF slots(3), of C s] by (auto simp: evac_scan.hand_def evac_busy_def space_at_def ops Let_def)
  show "evac_busy f C {#} s \<Longrightarrow> get_new_block Evac_ops s = (r, s') \<Longrightarrow> sz \<le> LARGE_OBJECT \<Longrightarrow>
      hole_scanner.scanned blocks (evac_busy f C) avail_bytes (avail_bytes s) sz r s'"
    by (rule evac_new_block) (simp_all add: Evac_ops_def)
qed

end
