(* ===== verification/Immix_Space.thy ===== *)
theory Immix_Space
  imports Allocators
begin

text \<open>
  \<open>ImmixSpace\<close> of \<open>src/allocation.rs\<close>: the space made of the block allocator, the object bitmap and the
  three allocators. The RTTI table \<open>T\<close> gives the size of an object and is a parameter.
\<close>

section \<open>The operations\<close>

definition ImmixSpace_filter_fast :: "ImmixSpace \<Rightarrow> Address \<Rightarrow> bool" where
  "ImmixSpace_filter_fast sp addr =
     (if \<not> BlockAllocator_is_in_space (block_allocator sp) addr then False else True)"

definition ImmixSpace_filter :: "ImmixSpace \<Rightarrow> Address \<Rightarrow> Address option option" where
  "ImmixSpace_filter sp addr =
     (if addr mod 16 \<noteq> 0 then Some None
      else if BlockAllocator_is_in_space (block_allocator sp) addr then do {
        t \<leftarrow> SpaceBitmap_test 16 (bitmap sp) addr;
        Some (if t then Some addr else None) }
      else Some None)"

definition ImmixSpace_new :: "usize option \<Rightarrow> usize \<Rightarrow> ImmixSpace option" where
  "ImmixSpace_new mapped heap_sz = do {
     ba \<leftarrow> BlockAllocator_new mapped heap_sz;
     Some \<lparr>block_allocator = ba,
           bitmap = SpaceBitmap_create 16 (mmap_start (mmap ba)) heap_sz,
           allocator = NormalAllocator_new,
           overflow_allocator = OverflowAllocator_new,
           evac_allocator = EvacAllocator_new,
           space_live_mark = False\<rparr> }"

definition ImmixSpace_evac_headroom :: "ImmixSpace \<Rightarrow> usize" where
  "ImmixSpace_evac_headroom sp = EvacAllocator_evac_headroom (evac_allocator sp)"

definition ImmixSpace_return_blocks :: "usize list \<Rightarrow> ImmixSpace \<Rightarrow> ImmixSpace" where
  "ImmixSpace_return_blocks bs sp =
     sp\<lparr>block_allocator := BlockAllocator_return_blocks bs (block_allocator sp)\<rparr>"

definition ImmixSpace_set_current_live_mark :: "bool \<Rightarrow> ImmixSpace \<Rightarrow> ImmixSpace" where
  "ImmixSpace_set_current_live_mark m sp = sp\<lparr>space_live_mark := m\<rparr>"

definition ImmixSpace_set_recyclable_blocks :: "usize list \<Rightarrow> ImmixSpace \<Rightarrow> ImmixSpace" where
  "ImmixSpace_set_recyclable_blocks bs sp =
     sp\<lparr>allocator := NormalAllocator_set_recyclable_blocks bs (allocator sp)\<rparr>"

definition ImmixSpace_extend_evac_headroom :: "usize list \<Rightarrow> ImmixSpace \<Rightarrow> ImmixSpace" where
  "ImmixSpace_extend_evac_headroom bs sp =
     sp\<lparr>evac_allocator := EvacAllocator_extend_evac_headroom bs (evac_allocator sp)\<rparr>"

definition ImmixSpace_get_all_blocks :: "ImmixSpace \<Rightarrow> usize list \<times> ImmixSpace" where
  "ImmixSpace_get_all_blocks sp =
     (let (normal_blocks, a) = NormalAllocator_get_all_blocks (allocator sp);
          (overflow_blocks, o') = OverflowAllocator_get_all_blocks (overflow_allocator sp);
          (evac_blocks, e) = EvacAllocator_get_all_blocks (evac_allocator sp)
      in (normal_blocks @ overflow_blocks @ evac_blocks,
          sp\<lparr>allocator := a, overflow_allocator := o', evac_allocator := e\<rparr>))"

definition ImmixSpace_set_gc_object :: "Address \<Rightarrow> ImmixSpace \<Rightarrow> ImmixSpace option" where
  "ImmixSpace_set_gc_object object sp = do {
     bm \<leftarrow> SpaceBitmap_set 16 (bitmap sp) object;
     Some (sp\<lparr>bitmap := bm\<rparr>) }"

definition ImmixSpace_unset_gc_object :: "Address \<Rightarrow> ImmixSpace \<Rightarrow> ImmixSpace option" where
  "ImmixSpace_unset_gc_object object sp = do {
     bm \<leftarrow> SpaceBitmap_clear 16 (bitmap sp) object;
     Some (sp\<lparr>bitmap := bm\<rparr>) }"

definition on_space :: "(ImmixSpace \<Rightarrow> ImmixSpace option) \<Rightarrow> heap_state \<Rightarrow> heap_state option" where
  "on_space f s = do { sp \<leftarrow> f (space s); Some (s\<lparr>space := sp\<rparr>) }"

definition ImmixSpace_allocate :: "usize \<Rightarrow> heap_state \<Rightarrow> (Address \<times> heap_state) option" where
  "ImmixSpace_allocate sz s = do {
     (ptr, s) \<leftarrow> (if sz < MEDIUM_OBJECT then Allocator_allocate Normal_ops blocks sz s
                   else Allocator_allocate Overflow_ops blocks sz s);
     s \<leftarrow> (if Address_is_non_null ptr then on_space (ImmixSpace_set_gc_object ptr) s else Some s);
     Some (ptr, s) }"

text \<open>\<open>copy_nonoverlapping\<close> of \<open>n\<close> bytes, word by word.\<close>

definition copy_nonoverlapping :: "usize \<Rightarrow> usize \<Rightarrow> usize \<Rightarrow> memory \<Rightarrow> memory" where
  "copy_nonoverlapping src dst n m =
     (\<lambda>x. if dst \<le> x \<and> x < dst + n \<and> (x - dst) mod 8 = 0 then m (src + (x - dst)) else m x)"

definition ImmixSpace_maybe_evacuate ::
    "rtti_table \<Rightarrow> Address \<Rightarrow> heap_state \<Rightarrow> (Address option \<times> heap_state) option" where
  "ImmixSpace_maybe_evacuate T addr s = do {
     let block_info = ImmixBlock_get_block_ptr addr;
     let is_pinned = RawGc_is_pinned (RawGc_at (mem s) addr);
     let is_candidate = evacuation_candidate (blocks s block_info);
     if is_pinned \<or> \<not> is_candidate then Some (None, s)
     else do {
       let sz = object_size T (mem s) addr;
       (new_object, s) \<leftarrow> Allocator_allocate Evac_ops blocks (align_usize sz 16) s;
       if Address_is_non_null new_object then do {
         let s = s\<lparr>mem := copy_nonoverlapping addr new_object sz (mem s)\<rparr>;
         s \<leftarrow> on_space (ImmixSpace_set_gc_object new_object) s;
         Some (Some new_object, s) }
       else Some (None, s) } }"

section \<open>The invariant with the bitmap\<close>

definition bitmap_ok :: "ImmixSpace \<Rightarrow> bool" where
  "bitmap_ok sp \<longleftrightarrow> heap_begin (bitmap sp) = mmap_start (mmap (block_allocator sp)) \<and>
     16 dvd heap_begin (bitmap sp) \<and>
     data_bound (block_allocator sp) \<le> heap_begin (bitmap sp) + 16 * bitmap_cells (bitmap sp)"

definition immix_ok :: "usize multiset \<Rightarrow> heap_state \<Rightarrow> bool" where
  "immix_ok C s \<longleftrightarrow> space_ok C s \<and> bitmap_ok (space s)"

text \<open>The addresses with a set bit: the allocated objects that conservative roots can name.\<close>

definition gc_objects :: "ImmixSpace \<Rightarrow> Address set" where
  "gc_objects sp = {heap_begin (bitmap sp) + i * 16 |i. SpaceBitmap_marked (bitmap sp) i}"

lemma outside_eqD:
  assumes "outside s' = outside s"
  shows "bitmap (space s') = bitmap (space s)" "mem s' = mem s"
    "bitmap_ok (space s') = bitmap_ok (space s)" "gc_objects (space s') = gc_objects (space s)"
    "ImmixSpace_filter_fast (space s') = ImmixSpace_filter_fast (space s)"
  using assms by (auto simp: outside_def bitmap_ok_def gc_objects_def ImmixSpace_filter_fast_def
      BlockAllocator_is_in_space_def fun_eq_iff)

text \<open>A new space with no block in use, whatever the number of registered threads.\<close>

definition idle_thread :: "TLSState \<Rightarrow> bool" where
  "idle_thread t \<longleftrightarrow> current_block t = None \<and> current_ovf_block t = None"

lemma new_space_ok:
  assumes new: "ImmixSpace_new (Some a) sz = Some sp" and sz: "BLOCK_SIZE \<le> sz" "2048 dvd sz" "sz + 1024 \<le> 2 ^ 64"
    and a: "16 dvd a"
    and s: "space s = sp" "blocks s = (\<lambda>_. ImmixBlock_new)" "self_id s < length (threads s)"
      "\<forall>t \<in> set (threads s). idle_thread t"
  shows "immix_ok {#} s" "gc_objects (space s) = {}"
proof -
  obtain ba where ba: "BlockAllocator_new (Some a) sz = Some ba"
    and sp: "sp = \<lparr>block_allocator = ba, bitmap = SpaceBitmap_create 16 (mmap_start (mmap ba)) sz,
       allocator = NormalAllocator_new, overflow_allocator = OverflowAllocator_new,
       evac_allocator = EvacAllocator_new, space_live_mark = False\<rparr>"
    using new by (auto simp: ImmixSpace_new_def bind_eq_Some_conv)
  have start: "mmap_start (mmap ba) = a" "data_bound ba = a + sz"
    using ba by (auto simp: BlockAllocator_new_def Mmap_new_def)
  have "thread_assets hdr t = {#}" if "t \<in> set (threads s)" for t hdr
    using s(4) that by (simp add: thread_assets_def idle_thread_def)
  then have "image_mset (thread_assets hdr) (mset (threads s)) = image_mset (\<lambda>_. {#}) (mset (threads s))" for hdr
    by (intro image_mset_cong) simp
  then have "assets hdr s = {#}" for hdr
    using s(1) by (simp add: assets_def sp normal_assets_def overflow_assets_def evac_assets_def
        NormalAllocator_new_def OverflowAllocator_new_def EvacAllocator_new_def)
  moreover have "currents_ok s"
    using s(1,4) by (simp add: currents_ok_def sp idle_thread_def NormalAllocator_new_def
        OverflowAllocator_new_def EvacAllocator_new_def)
  ultimately have "space_ok {#} s"
    using new_ok [OF sz(1) ba] s by (simp add: space_ok_def sp)
  moreover have "16 * bitmap_cells (bitmap sp) = sz"
    using create_cells_page [OF sz(2,3), of a] dvd_trans [OF _ sz(2), of 16] by (simp add: sp start)
  then have "bitmap_ok sp" using a by (simp add: bitmap_ok_def sp start)
  ultimately show "immix_ok {#} s" using s(1) by (simp add: immix_ok_def)
  show "gc_objects (space s) = {}" by (simp add: gc_objects_def s(1) sp)
qed

lemma set_gc_object_spec:
  assumes ok: "immix_ok C s" and a: "mmap_start (mmap (block_allocator (space s))) \<le> a"
    "a < data_bound (block_allocator (space s))" "16 dvd a"
  shows "\<exists>bm. on_space (ImmixSpace_set_gc_object a) s = Some (s\<lparr>space := (space s)\<lparr>bitmap := bm\<rparr>\<rparr>) \<and>
    immix_ok C (s\<lparr>space := (space s)\<lparr>bitmap := bm\<rparr>\<rparr>) \<and>
    avail_bytes (s\<lparr>space := (space s)\<lparr>bitmap := bm\<rparr>\<rparr>) = avail_bytes s \<and>
    gc_objects ((space s)\<lparr>bitmap := bm\<rparr>) = insert a (gc_objects (space s))"
proof -
  let ?bm = "bitmap (space s)"
  define off where "off = a - heap_begin ?bm"
  have b: "heap_begin ?bm = mmap_start (mmap (block_allocator (space s)))" "16 dvd heap_begin ?bm"
    "data_bound (block_allocator (space s)) \<le> heap_begin ?bm + 16 * bitmap_cells ?bm"
    using ok by (auto simp: immix_ok_def bitmap_ok_def)
  have a_eq: "a = heap_begin ?bm + off" "16 dvd off" using a b by (auto simp: off_def dvd_diff_nat)
  have "off div 16 < bitmap_cells ?bm" using a(2) b(3) a_eq(1) by (simp add: div_less_iff_less_mult)
  from SpaceBitmap_set_offset [OF this] obtain ws where
    ws: "SpaceBitmap_set 16 ?bm a = Some (?bm\<lparr>mem_map := ws\<rparr>)" "length ws = length (mem_map ?bm)"
    "\<forall>j. words_bit ws j = (j = off div 16 \<or> SpaceBitmap_marked ?bm j)" by (auto simp: a_eq)
  let ?s = "s\<lparr>space := (space s)\<lparr>bitmap := ?bm\<lparr>mem_map := ws\<rparr>\<rparr>\<rparr>"
  have as: "assets (blocks s) ?s = assets (blocks s) s" by (simp add: assets_def)
  then have "immix_ok C ?s"
    using ok ws(2) by (auto simp: immix_ok_def space_ok_def bitmap_ok_def currents_ok_def)
  moreover have "avail_bytes ?s = avail_bytes s" using as by (simp add: avail_bytes_def)
  moreover have "gc_objects ((space s)\<lparr>bitmap := ?bm\<lparr>mem_map := ws\<rparr>\<rparr>) = insert a (gc_objects (space s))"
  proof -
    have "heap_begin ?bm + off div 16 * 16 = a" using a_eq by simp
    moreover have "SpaceBitmap_marked (?bm\<lparr>mem_map := ws\<rparr>) j = (j = off div 16 \<or> SpaceBitmap_marked ?bm j)" for j
      using ws(3) by (simp add: SpaceBitmap_marked_def)
    ultimately show ?thesis by (auto simp: gc_objects_def)
  qed
  ultimately show ?thesis using ws(1) by (auto simp: on_space_def ImmixSpace_set_gc_object_def)
qed

text \<open>What one allocation from the space does.\<close>

definition allocated_object :: "usize \<Rightarrow> Address \<Rightarrow> bool" where
  "allocated_object sz a \<longleftrightarrow> a \<noteq> 0 \<and> 16 dvd a \<and>
     (\<exists>b. BLOCK_SIZE dvd b \<and> b + LINE_SIZE \<le> a \<and> a + sz < b + BLOCK_SIZE)"

lemma immix_allocate_spec:
  assumes ok: "immix_ok C s" and sz: "16 dvd sz" "0 < sz" "sz \<le> LARGE_OBJECT"
  shows "\<exists>a s'. ImmixSpace_allocate sz s = Some (a, s') \<and> immix_ok C s' \<and> mem s' = mem s \<and>
    (a = 0 \<and> avail_bytes s' \<subseteq> avail_bytes s \<and> gc_objects (space s') = gc_objects (space s) \<or>
     allocated_object sz a \<and> {a..<a + sz} \<subseteq> avail_bytes s \<and> avail_bytes s' \<subseteq> avail_bytes s - {a..<a + sz} \<and>
     gc_objects (space s') = insert a (gc_objects (space s)))"
proof -
  let ?alloc = "if sz < MEDIUM_OBJECT then Allocator_allocate Normal_ops blocks sz s
    else Allocator_allocate Overflow_ops blocks sz s"
  have inv: "space_at (outside s) C s" using ok by (simp add: space_at_def immix_ok_def)
  obtain a s1 where run: "?alloc = Some (a, s1)" and s1: "space_ok C s1" "outside s1 = outside s"
    and cases: "a = 0 \<and> avail_bytes s1 \<subseteq> avail_bytes s \<or>
      allocated_object sz a \<and> {a..<a + sz} \<subseteq> avail_bytes s \<and> avail_bytes s1 \<subseteq> avail_bytes s - {a..<a + sz}"
    using normal.allocate_spec [OF inv sz(1,3)] overflow.allocate_spec [OF inv sz(1,3)]
    unfolding allocated_object_def space_at_def by (cases "sz < MEDIUM_OBJECT") auto
  note same = outside_eqD [OF s1(2)]
  have ok1: "immix_ok C s1" using ok s1 same by (simp add: immix_ok_def)
  show ?thesis
  proof (cases "a = 0")
    case True
    then show ?thesis
      using run ok1 cases same by (simp add: ImmixSpace_allocate_def Address_is_non_null_def allocated_object_def)
  next
    case False
    then have obj: "allocated_object sz a" "{a..<a + sz} \<subseteq> avail_bytes s" "avail_bytes s1 \<subseteq> avail_bytes s - {a..<a + sz}"
      using cases by auto
    have "a \<in> avail_bytes s" using obj(2) sz(2) by auto
    then have "mmap_start (mmap (block_allocator (space s))) \<le> a" "a < data_bound (block_allocator (space s))"
      using avail_inside [of C s a] Mmap_aligned_props(2) [of "mmap (block_allocator (space s))"] ok
      by (auto simp: immix_ok_def)
    then have "mmap_start (mmap (block_allocator (space s1))) \<le> a" "a < data_bound (block_allocator (space s1))"
      using s1(2) by (auto simp: outside_def)
    with set_gc_object_spec [OF ok1] obj(1) obtain bm where
      "on_space (ImmixSpace_set_gc_object a) s1 = Some (s1\<lparr>space := (space s1)\<lparr>bitmap := bm\<rparr>\<rparr>)"
      "immix_ok C (s1\<lparr>space := (space s1)\<lparr>bitmap := bm\<rparr>\<rparr>)"
      "avail_bytes (s1\<lparr>space := (space s1)\<lparr>bitmap := bm\<rparr>\<rparr>) = avail_bytes s1"
      "gc_objects ((space s1)\<lparr>bitmap := bm\<rparr>) = insert a (gc_objects (space s1))"
      unfolding allocated_object_def by blast
    then show ?thesis
      using False run obj same by (simp add: ImmixSpace_allocate_def Address_is_non_null_def)
  qed
qed

text \<open>A run of allocations, and the ranges it returns.\<close>

fun allocate_all :: "usize list \<Rightarrow> heap_state \<Rightarrow> (Address list \<times> heap_state) option" where
  "allocate_all [] s = Some ([], s)"
| "allocate_all (sz # szs) s = do {
     (a, s) \<leftarrow> ImmixSpace_allocate sz s;
     (as, s) \<leftarrow> allocate_all szs s;
     Some (a # as, s) }"

definition object_size_ok :: "usize \<Rightarrow> bool" where
  "object_size_ok sz \<longleftrightarrow> 16 dvd sz \<and> 0 < sz \<and> sz \<le> LARGE_OBJECT"

lemma allocate_all_spec:
  assumes "immix_ok C s" and "\<forall>sz \<in> set szs. object_size_ok sz"
  shows "\<exists>as s'. allocate_all szs s = Some (as, s') \<and> immix_ok C s' \<and> length as = length szs \<and>
    avail_bytes s' \<subseteq> avail_bytes s \<and> gc_objects (space s') = gc_objects (space s) \<union> (set as - {0}) \<and>
    (\<forall>i < length as. as ! i \<noteq> 0 \<longrightarrow> allocated_object (szs ! i) (as ! i) \<and>
       {as ! i..<as ! i + szs ! i} \<subseteq> avail_bytes s - avail_bytes s' \<and>
       (\<forall>j < i. as ! j \<noteq> 0 \<longrightarrow> {as ! j..<as ! j + szs ! j} \<inter> {as ! i..<as ! i + szs ! i} = {}))"
  using assms
proof (induction szs arbitrary: s)
  case (Cons sz szs)
  obtain a s1 where a: "ImmixSpace_allocate sz s = Some (a, s1)" "immix_ok C s1" and mono: "avail_bytes s1 \<subseteq> avail_bytes s"
    and gc: "gc_objects (space s1) = gc_objects (space s) \<union> ({a} - {0})"
    and obj: "a \<noteq> 0 \<Longrightarrow> allocated_object sz a \<and> {a..<a + sz} \<subseteq> avail_bytes s - avail_bytes s1"
    using immix_allocate_spec [of C s sz] Cons.prems unfolding object_size_ok_def allocated_object_def by auto blast+
  obtain as s' where as: "allocate_all szs s1 = Some (as, s')" "immix_ok C s'" "length as = length szs"
    "avail_bytes s' \<subseteq> avail_bytes s1" "gc_objects (space s') = gc_objects (space s1) \<union> (set as - {0})"
    and each: "\<And>i. i < length as \<Longrightarrow> as ! i \<noteq> 0 \<Longrightarrow> allocated_object (szs ! i) (as ! i) \<and>
       {as ! i..<as ! i + szs ! i} \<subseteq> avail_bytes s1 - avail_bytes s' \<and>
       (\<forall>j < i. as ! j \<noteq> 0 \<longrightarrow> {as ! j..<as ! j + szs ! j} \<inter> {as ! i..<as ! i + szs ! i} = {})"
    using Cons.IH [OF a(2)] Cons.prems(2) by auto
  have "allocated_object ((sz # szs) ! i) ((a # as) ! i) \<and>
      {(a # as) ! i..<(a # as) ! i + (sz # szs) ! i} \<subseteq> avail_bytes s - avail_bytes s' \<and>
      (\<forall>j < i. (a # as) ! j \<noteq> 0 \<longrightarrow>
        {(a # as) ! j..<(a # as) ! j + (sz # szs) ! j} \<inter> {(a # as) ! i..<(a # as) ! i + (sz # szs) ! i} = {})"
    if i: "i < length (a # as)" "(a # as) ! i \<noteq> 0" for i
  proof (cases i)
    case 0
    then show ?thesis using obj i as(4) by auto
  next
    case (Suc k)
    then have k: "k < length as" "as ! k \<noteq> 0" using i by auto
    have "{a..<a + sz} \<inter> {as ! k..<as ! k + szs ! k} = {}" if "a \<noteq> 0"
      using obj [OF that] each [OF k] by blast
    moreover have "{as ! k..<as ! k + szs ! k} \<subseteq> avail_bytes s - avail_bytes s'" using each [OF k] mono by blast
    ultimately show ?thesis using each [OF k] Suc by (auto simp: less_Suc_eq_0_disj)
  qed
  moreover have "gc_objects (space s') = gc_objects (space s) \<union> (set (a # as) - {0})" using gc as(5) by auto
  moreover have "avail_bytes s' \<subseteq> avail_bytes s" using mono as(4) by blast
  moreover have "allocate_all (sz # szs) s = Some (a # as, s')" "length (a # as) = length (sz # szs)"
    using a(1) as(1,3) by simp_all
  ultimately show ?case using as(2) by blast
qed simp

section \<open>The conservative filter\<close>

lemma filter_spec:
  assumes "bitmap_ok (space s)" and ba: "ba = block_allocator (space s)"
  shows "(addr \<noteq> data_bound ba \<longrightarrow>
      ImmixSpace_filter (space s) addr
        = Some (if addr \<in> gc_objects (space s) \<and> mmap_start (mmap ba) < addr \<and> addr < data_bound ba
                then Some addr else None)) \<and>
    (16 * bitmap_cells (bitmap (space s)) = data_bound ba - mmap_start (mmap ba) \<and> 16 dvd data_bound ba \<and>
     mmap_start (mmap ba) < data_bound ba \<longrightarrow> ImmixSpace_filter (space s) (data_bound ba) = None)"
proof -
  let ?bm = "bitmap (space s)"
  have b: "heap_begin ?bm = mmap_start (mmap ba)" "16 dvd heap_begin ?bm"
    "data_bound ba \<le> heap_begin ?bm + 16 * bitmap_cells ?bm"
    using assms by (auto simp: bitmap_ok_def)
  have at: "ImmixSpace_filter (space s) x = (if 16 dvd x then
      if x - heap_begin ?bm < 16 * bitmap_cells ?bm then Some (if x \<in> gc_objects (space s) then Some x else None)
      else None else Some None)" if x: "heap_begin ?bm < x" "x \<le> data_bound ba" for x
  proof (cases "16 dvd x")
    case True
    define off where "off = x - heap_begin ?bm"
    have off: "x = heap_begin ?bm + off" "16 dvd off" using True b(2) x(1) by (auto simp: off_def dvd_diff_nat)
    have "SpaceBitmap_test 16 ?bm x = (if off div 16 < bitmap_cells ?bm
        then Some (SpaceBitmap_marked ?bm (off div 16)) else None)"
      unfolding off(1) by (rule SpaceBitmap_test_offset)
    moreover have "x \<in> gc_objects (space s) \<longleftrightarrow> SpaceBitmap_marked ?bm (off div 16)"
      using off by (auto simp: gc_objects_def)
    ultimately show ?thesis using True x b(1) off
      by (auto simp: ImmixSpace_filter_def BlockAllocator_is_in_space_def ba dvd_eq_mod_eq_0 [symmetric]
          div_less_iff_less_mult mult.commute)
  qed (auto simp: ImmixSpace_filter_def dvd_eq_mod_eq_0)
  have aligned: "16 dvd x" if "x \<in> gc_objects (space s)" for x
    using that b(2) by (auto simp: gc_objects_def)
  have "ImmixSpace_filter (space s) addr
      = Some (if addr \<in> gc_objects (space s) \<and> mmap_start (mmap ba) < addr \<and> addr < data_bound ba
              then Some addr else None)" if "addr \<noteq> data_bound ba"
  proof (cases "heap_begin ?bm < addr \<and> addr \<le> data_bound ba")
    case True
    then show ?thesis using at [of addr] aligned [of addr] that b by auto
  next
    case False
    then show ?thesis using b(1)
      by (auto simp: ImmixSpace_filter_def BlockAllocator_is_in_space_def ba)
  qed
  moreover have "ImmixSpace_filter (space s) (data_bound ba) = None"
    if "16 * bitmap_cells ?bm = data_bound ba - mmap_start (mmap ba)" "16 dvd data_bound ba"
      "mmap_start (mmap ba) < data_bound ba"
    using at [of "data_bound ba"] b that by simp
  ultimately show ?thesis by blast
qed

section \<open>Evacuation\<close>

lemma copy_simps:
  "8 dvd i \<Longrightarrow> i < n \<Longrightarrow> copy_nonoverlapping src dst n m (dst + i) = m (src + i)"
  "x \<notin> {dst..<dst + n} \<Longrightarrow> copy_nonoverlapping src dst n m x = m x"
  by (auto simp: copy_nonoverlapping_def)

lemma filter_fast_bitmap [simp]:
  "ImmixSpace_filter_fast (sp\<lparr>bitmap := bm\<rparr>) = ImmixSpace_filter_fast sp"
  by (simp add: ImmixSpace_filter_fast_def fun_eq_iff)

text \<open>The end of an evacuation: the object is copied to the allocated bytes and recorded in the bitmap.\<close>

lemma copy_and_record:
  fixes m :: memory
  assumes ok: "immix_ok C s" "immix_ok C s1" and same: "outside s1 = outside s"
    and obj: "allocated_object sz n" "{n..<n + sz} \<subseteq> avail_bytes s" "0 < sz"
  defines "s2 \<equiv> s1\<lparr>mem := m\<rparr>"
  shows "\<exists>bm. on_space (ImmixSpace_set_gc_object n) s2 = Some (s2\<lparr>space := (space s2)\<lparr>bitmap := bm\<rparr>\<rparr>) \<and>
    immix_ok C (s2\<lparr>space := (space s2)\<lparr>bitmap := bm\<rparr>\<rparr>) \<and>
    avail_bytes (s2\<lparr>space := (space s2)\<lparr>bitmap := bm\<rparr>\<rparr>) = avail_bytes s1 \<and>
    gc_objects ((space s2)\<lparr>bitmap := bm\<rparr>) = insert n (gc_objects (space s1))"
proof -
  have ok2: "immix_ok C s2" and av: "avail_bytes s2 = avail_bytes s1"
    using ok(2) by (simp_all add: s2_def immix_ok_def space_ok_def assets_def currents_ok_def avail_bytes_def)
  have "n \<in> avail_bytes s" using obj(2,3) by auto
  then have "mmap_start (mmap (block_allocator (space s))) \<le> n" "n < data_bound (block_allocator (space s))"
    using avail_inside [of C s n] Mmap_aligned_props(2) [of "mmap (block_allocator (space s))"] ok(1) by (auto simp: immix_ok_def)
  then have "mmap_start (mmap (block_allocator (space s2))) \<le> n" "n < data_bound (block_allocator (space s2))"
    using same by (auto simp: s2_def outside_def)
  then show ?thesis using set_gc_object_spec [OF ok2] obj(1) av unfolding allocated_object_def by (auto simp: s2_def)
qed

lemma maybe_evacuate_spec:
  assumes ok: "immix_ok C s" and sz: "0 < object_size T (mem s) addr" "object_size T (mem s) addr \<le> LARGE_OBJECT"
  shows "\<exists>r s'. ImmixSpace_maybe_evacuate T addr s = Some (r, s') \<and> immix_ok C s' \<and>
    ImmixSpace_filter_fast (space s') = ImmixSpace_filter_fast (space s) \<and>
    (case r of
       None \<Rightarrow> mem s' = mem s \<and> gc_objects (space s') = gc_objects (space s) \<and> avail_bytes s' \<subseteq> avail_bytes s
     | Some n \<Rightarrow> \<not> RawGc_is_pinned (RawGc_at (mem s) addr) \<and>
         evacuation_candidate (blocks s (ImmixBlock_get_block_ptr addr)) \<and>
         allocated_object (object_size T (mem s) addr) n \<and>
         {n..<n + object_size T (mem s) addr} \<subseteq> avail_bytes s \<and>
         avail_bytes s' \<subseteq> avail_bytes s - {n..<n + object_size T (mem s) addr} \<and>
         gc_objects (space s') = insert n (gc_objects (space s)) \<and>
         mem s' = copy_nonoverlapping addr n (object_size T (mem s) addr) (mem s))"
proof -
  define sz where "sz = object_size T (mem s) addr"
  have sz16: "16 dvd sz" "sz \<le> LARGE_OBJECT" "0 < sz" using sz by (auto simp: sz_def)
  then have al: "align_usize sz 16 = sz" by (intro align_usize_16_id) (auto simp: LARGE_OBJECT_def)
  show ?thesis
  proof (cases "RawGc_is_pinned (RawGc_at (mem s) addr) \<or> \<not> evacuation_candidate (blocks s (ImmixBlock_get_block_ptr addr))")
    case True
    then show ?thesis using ok by (auto simp: ImmixSpace_maybe_evacuate_def Let_def)
  next
    case False
    have inv: "space_at (outside s) C s" using ok by (simp add: space_at_def immix_ok_def)
    obtain n s1 where run: "Allocator_allocate Evac_ops blocks sz s = Some (n, s1)" "space_ok C s1" "outside s1 = outside s"
      and cases: "n = 0 \<and> avail_bytes s1 \<subseteq> avail_bytes s \<or>
        allocated_object sz n \<and> {n..<n + sz} \<subseteq> avail_bytes s \<and> avail_bytes s1 \<subseteq> avail_bytes s - {n..<n + sz}"
      using evac.allocate_spec [OF inv sz16(1,2)] unfolding allocated_object_def space_at_def by auto
    note same = outside_eqD [OF run(3)]
    have ok1: "immix_ok C s1" using ok run same by (simp add: immix_ok_def)
    note def = ImmixSpace_maybe_evacuate_def [of T addr s] sz_def [symmetric] al run(1)
    show ?thesis
    proof (cases "n = 0")
      case True
      then show ?thesis
        using False ok1 same cases by (auto simp: def Address_is_non_null_def allocated_object_def Let_def)
    next
      case nz: False
      then have obj: "allocated_object sz n" "{n..<n + sz} \<subseteq> avail_bytes s" "avail_bytes s1 \<subseteq> avail_bytes s - {n..<n + sz}"
        using cases by auto
      from copy_and_record [OF ok ok1 run(3) obj(1,2) sz16(3), of "copy_nonoverlapping addr n sz (mem s1)"] obtain bm where
        "on_space (ImmixSpace_set_gc_object n) (s1\<lparr>mem := copy_nonoverlapping addr n sz (mem s1)\<rparr>)
          = Some (s1\<lparr>mem := copy_nonoverlapping addr n sz (mem s1), space := (space s1)\<lparr>bitmap := bm\<rparr>\<rparr>)"
        "immix_ok C (s1\<lparr>mem := copy_nonoverlapping addr n sz (mem s1), space := (space s1)\<lparr>bitmap := bm\<rparr>\<rparr>)"
        "avail_bytes (s1\<lparr>mem := copy_nonoverlapping addr n sz (mem s1), space := (space s1)\<lparr>bitmap := bm\<rparr>\<rparr>) = avail_bytes s1"
        "gc_objects ((space s1)\<lparr>bitmap := bm\<rparr>) = insert n (gc_objects (space s1))" by auto
      then show ?thesis using False nz obj same by (simp add: def Address_is_non_null_def Let_def filter_fast_bitmap)
    qed
  qed
qed

section \<open>Properties\<close>

text \<open>A program with one registered thread and a fresh heap of sixteen blocks, for the witnesses.\<close>

definition sample_heap :: "heap_state" where
  "sample_heap = \<lparr>space = the (ImmixSpace_new (Some 65536) 524288), blocks = (\<lambda>_. ImmixBlock_new), mem = (\<lambda>_. 0),
     threads = [\<lparr>safepoint = 0, gc_state = 0, current_block = None, current_ovf_block = None,
                 stack_bottom = 0, stack_end = 0\<rparr>], self_id = 0\<rparr>"

lemma sample_heap_new: "ImmixSpace_new (Some 65536) 524288 = Some (space sample_heap)"
  by (simp add: sample_heap_def ImmixSpace_new_def BlockAllocator_new_def Mmap_new_def)

lemma sample_heap_sizes: "BLOCK_SIZE \<le> (524288::nat)" "2048 dvd (524288::nat)" "16 dvd (65536::nat)"
  by (simp_all add: BLOCK_SIZE_def)

lemma sample_heap_parts:
  "blocks sample_heap = (\<lambda>_. ImmixBlock_new)" "self_id sample_heap < length (threads sample_heap)"
  "\<forall>t \<in> set (threads sample_heap). idle_thread t" "mem sample_heap = (\<lambda>_. 0)"
  by (simp_all add: sample_heap_def idle_thread_def)

lemma sample_heap_ok: "immix_ok {#} sample_heap" "gc_objects (space sample_heap) = {}"
  using new_space_ok [OF sample_heap_new sample_heap_sizes(1,2) _ sample_heap_sizes(3) refl sample_heap_parts(1-3)]
  by simp_all

text \<open>C4: From a newly created space, every run of small and medium allocations completes without a panic. Each
  address that is not null is 16-byte aligned, lies with its whole object inside one block of the mapped heap past
  the block's header line, and no two objects of the run share a byte. The bitmap then holds exactly the
  addresses returned.\<close>

theorem new_space_allocations:
  assumes "ImmixSpace_new (Some a) sz = Some sp" "BLOCK_SIZE \<le> sz" "2048 dvd sz" "sz + 1024 \<le> 2 ^ 64" "16 dvd a"
    and "space s = sp" "blocks s = (\<lambda>_. ImmixBlock_new)" "self_id s < length (threads s)"
      "\<forall>t \<in> set (threads s). idle_thread t"
    and "\<forall>n \<in> set szs. object_size_ok n"
  shows "\<exists>as s'. allocate_all szs s = Some (as, s') \<and> length as = length szs \<and>
    gc_objects (space s') = set as - {0} \<and>
    (\<forall>i < length as. as ! i \<noteq> 0 \<longrightarrow> allocated_object (szs ! i) (as ! i) \<and>
       {as ! i..<as ! i + szs ! i} \<subseteq> {a..<a + sz} \<and>
       (\<forall>j < i. as ! j \<noteq> 0 \<longrightarrow> {as ! j..<as ! j + szs ! j} \<inter> {as ! i..<as ! i + szs ! i} = {}))"
proof -
  note new = new_space_ok [OF assms(1-9)]
  have "avail_bytes s \<subseteq> {a..<a + sz}"
  proof
    fix x assume "x \<in> avail_bytes s"
    moreover have "mmap_start (mmap (block_allocator sp)) = a" "data_bound (block_allocator sp) = a + sz"
      using assms(1) by (auto simp: ImmixSpace_new_def BlockAllocator_new_def Mmap_new_def bind_eq_Some_conv)
    ultimately show "x \<in> {a..<a + sz}"
      using avail_inside [of "{#}" s x] Mmap_aligned_props(2) [of "mmap (block_allocator sp)"] new(1) assms(6)
      by (auto simp: immix_ok_def)
  qed
  then show ?thesis using allocate_all_spec [OF new(1) assms(10)] new(2) by (fastforce simp: subset_iff)
qed

theorem new_space_allocations_witness:
  "\<exists>as s'. allocate_all [32, 4096, 16] sample_heap = Some (as, s') \<and> length as = 3 \<and>
     gc_objects (space s') = set as - {0}"
  using new_space_allocations [OF sample_heap_new sample_heap_sizes(1,2) _ sample_heap_sizes(3) refl
      sample_heap_parts(1-3), of "[32, 4096, 16]"]
  by (force simp: object_size_ok_def LARGE_OBJECT_def)

text \<open>C5: In every state that satisfies the invariant, with recycled, current and headroom blocks, an allocation of a
  small or medium object completes and keeps the invariant. Either it returns null and no byte becomes
  available, or the object lies in bytes that were available and stop being so, and exactly its address
  is added to the bitmap. Memory is not touched.\<close>

theorem immix_allocate_sound:
  assumes "immix_ok C s" "object_size_ok sz"
  shows "\<exists>a s'. ImmixSpace_allocate sz s = Some (a, s') \<and> immix_ok C s' \<and> mem s' = mem s \<and>
    (a = 0 \<and> avail_bytes s' \<subseteq> avail_bytes s \<and> gc_objects (space s') = gc_objects (space s) \<or>
     allocated_object sz a \<and> {a..<a + sz} \<subseteq> avail_bytes s \<and> avail_bytes s' \<subseteq> avail_bytes s - {a..<a + sz} \<and>
     gc_objects (space s') = insert a (gc_objects (space s)))"
  using immix_allocate_spec [OF assms(1)] assms(2) unfolding object_size_ok_def by blast

theorem immix_allocate_sound_witness:
  "\<exists>a s'. ImmixSpace_allocate 64 sample_heap = Some (a, s') \<and> immix_ok {#} s' \<and> mem s' = (\<lambda>_. 0)"
  using immix_allocate_sound [OF sample_heap_ok(1), of 64] sample_heap_parts(4)
  by (force simp: object_size_ok_def LARGE_OBJECT_def)

text \<open>C19: The conservative filter accepts an address that is not the data bound exactly when it is a recorded object
  above the start of the mapping, and returns it unchanged. It never panics there. At the data bound, which the
  range test lets through, it reads past the end of the bitmap when the bitmap covers exactly the heap.\<close>

theorem filter_exact:
  assumes "immix_ok C s" and ba: "ba = block_allocator (space s)"
  shows "(addr \<noteq> data_bound ba \<longrightarrow>
      ImmixSpace_filter (space s) addr
        = Some (if addr \<in> gc_objects (space s) \<and> mmap_start (mmap ba) < addr \<and> addr < data_bound ba
                then Some addr else None)) \<and>
    (16 * bitmap_cells (bitmap (space s)) = data_bound ba - mmap_start (mmap ba) \<and> 16 dvd data_bound ba \<and>
     mmap_start (mmap ba) < data_bound ba \<longrightarrow> ImmixSpace_filter (space s) (data_bound ba) = None)"
  using assms by (intro filter_spec) (simp_all add: immix_ok_def)

theorem filter_exact_witness:
  "ImmixSpace_filter (space sample_heap) 65552 = Some None \<and> ImmixSpace_filter (space sample_heap) 589824 = None"
proof -
  have ba: "data_bound (block_allocator (space sample_heap)) = 589824"
    "mmap_start (mmap (block_allocator (space sample_heap))) = 65536"
    "bitmap (space sample_heap) = SpaceBitmap_create 16 65536 524288"
    by (simp_all add: sample_heap_def ImmixSpace_new_def BlockAllocator_new_def Mmap_new_def)
  have "16 * bitmap_cells (SpaceBitmap_create 16 65536 524288) = 524288"
    using create_cells_page [of 524288 65536] by simp
  then show ?thesis
    using filter_exact [OF sample_heap_ok(1) refl, of 65552] sample_heap_ok(2) ba by simp
qed


text \<open>The heap of the witness with two blocks built: one held by the collector and marked as a candidate, the other
  in the headroom of the evacuation allocator.\<close>

definition evac_heap :: heap_state where
  "evac_heap = sample_heap\<lparr>space := (space sample_heap)\<lparr>
       block_allocator := (block_allocator (space sample_heap))\<lparr>data := 163840\<rparr>,
       evac_allocator := EvacAllocator_new\<lparr>e_evac_headroom := [131072]\<rparr>\<rparr>,
     blocks := (\<lambda>b. ImmixBlock_new\<lparr>evacuation_candidate := b = 98304\<rparr>)\<rparr>"

lemma evac_heap_ok: "immix_ok {#98304#} evac_heap"
proof -
  have ba: "block_allocator (space evac_heap) = \<lparr>free_blocks = [], data_bound = 589824, data = 163840,
      mmap = \<lparr>mmap_start = 65536, mmap_end = 589824, mmap_size = 524288, advice = []\<rparr>\<rparr>"
    by (simp add: evac_heap_def sample_heap_def ImmixSpace_new_def BlockAllocator_new_def Mmap_new_def)
  have "used_blocks (block_allocator (space evac_heap)) = {98304, 131072}"
  proof (intro set_eqI iffI)
    fix b assume "b \<in> used_blocks (block_allocator (space evac_heap))"
    then obtain k where k: "b = 32768 * k" "98304 \<le> b" "b < 163840"
      by (auto simp: used_blocks_def built_blocks_def ba Mmap_aligned_def BLOCK_SIZE_def dvd_def)
    then have "k = 3 \<or> k = 4" by linarith
    then show "b \<in> {98304, 131072}" using k(1) by auto
  qed (auto simp: used_blocks_def built_blocks_def ba Mmap_aligned_def BLOCK_SIZE_def dvd_def)
  moreover have "assets (blocks evac_heap) evac_heap = {#(131072, {131072 + LINE_SIZE..<131072 + BLOCK_SIZE})#}"
    by (simp add: evac_heap_def sample_heap_def ImmixSpace_new_def BlockAllocator_new_def Mmap_new_def assets_def
        asset_defs EvacAllocator_new_def NormalAllocator_new_def OverflowAllocator_new_def)
  moreover have "currents_ok evac_heap"
    by (simp add: evac_heap_def sample_heap_def ImmixSpace_new_def BlockAllocator_new_def Mmap_new_def currents_ok_def
        EvacAllocator_new_def NormalAllocator_new_def OverflowAllocator_new_def EVAC_HEADROOM_def)
  moreover have "block_allocator_ok (block_allocator (space evac_heap))"
    by (simp add: block_allocator_ok_def ba Mmap_aligned_def BLOCK_SIZE_def)
  moreover have "bitmap_ok (space evac_heap)"
    using sample_heap_ok(1) by (auto simp: immix_ok_def bitmap_ok_def evac_heap_def)
  ultimately show ?thesis by (simp add: immix_ok_def space_ok_def) (simp add: evac_heap_def sample_heap_def)
qed

lemma evac_heap_simps:
  "mem (evac_heap\<lparr>mem := m\<rparr>) = m" "blocks evac_heap = (\<lambda>b. ImmixBlock_new\<lparr>evacuation_candidate := b = 98304\<rparr>)"
  "evac_allocator (space evac_heap) = \<lparr>e_unavailable_blocks = [], e_evac_headroom = [131072], e_current_block = None\<rparr>"
  "object_size sample_rtti m a = 16" "ImmixBlock_get_block_ptr 98432 = 98304" "align_usize 16 16 = 16"
  by (simp_all add: evac_heap_def EvacAllocator_new_def object_size_def sample_rtti_def RawGc_rtti_def align_usize_def
      ImmixBlock_get_block_ptr_def BLOCK_SIZE_def)

lemma evac_heap_hand: "{98432..<98432 + 16} \<inter> avail_bytes (evac_heap\<lparr>mem := m\<rparr>) = {}"
proof -
  have "block_bytes 98304 \<inter> avail_bytes evac_heap = {}"
    using hand_not_available [of "{#98304#}" evac_heap 98304] evac_heap_ok by (simp add: immix_ok_def)
  moreover have "{98432..<98432 + 16} \<subseteq> block_bytes 98304" by (auto simp: BLOCK_SIZE_def)
  moreover have "avail_bytes (evac_heap\<lparr>mem := m\<rparr>) = avail_bytes evac_heap" by (simp add: avail_bytes_def assets_def)
  ultimately show ?thesis by blast
qed

lemma evac_heap_allocate:
  "\<exists>s'. Allocator_allocate Evac_ops blocks 16 (evac_heap\<lparr>mem := m\<rparr>) = Some (131200, s') \<and>
     e_current_block (evac_allocator (space s')) = Some (131072, 144, 32767) \<and>
     evacuation_candidate (blocks s' 98304) \<and> mem s' = m"
  by (simp add: Allocator_allocate_def Evac_ops_def EvacAllocator_take_current_block_def evac_heap_simps Let_def
      EvacAllocator_handle_no_hole_def EvacAllocator_get_new_block_def vec_pop_def set_evac_def
      EvacAllocator_put_current_block_def
      Allocator_allocate_from_block_def align_usize_def ImmixBlock_offset_def as_u16_def LINE_SIZE_def BLOCK_SIZE_def)

text \<open>What an evacuation that succeeds has done, given what its allocation did.\<close>

lemma maybe_evacuate_result:
  assumes "\<not> RawGc_is_pinned (RawGc_at (mem s) a)" "evacuation_candidate (blocks s (ImmixBlock_get_block_ptr a))"
    and "Allocator_allocate Evac_ops blocks (align_usize (object_size T (mem s) a) 16) s = Some (n, s1)" "n \<noteq> 0"
    and "ImmixSpace_maybe_evacuate T a s = Some (r, s')"
  shows "r = Some n" "evac_allocator (space s') = evac_allocator (space s1)" "blocks s' = blocks s1"
  using assms by (auto simp: ImmixSpace_maybe_evacuate_def Let_def Address_is_non_null_def bind_eq_Some_conv on_space_def
      ImmixSpace_set_gc_object_def)

lemma zero_header: "m a = 0 \<Longrightarrow> \<not> RawGc_is_pinned (RawGc_at m a)"
  by (simp add: RawGc_at_def RawGc_is_pinned_def TaggedPointer_bit_is_set_def bit_is_set_def one_shl_def)

lemma immix_ok_mem:
  "immix_ok C (s\<lparr>mem := m\<rparr>) = immix_ok C s" "avail_bytes (s\<lparr>mem := m\<rparr>) = avail_bytes s"
  by (simp_all add: immix_ok_def space_ok_def assets_def currents_ok_def avail_bytes_def)

lemma evac_heap_moves:
  assumes "m 98432 = 0"
  shows "\<exists>s'. ImmixSpace_maybe_evacuate sample_rtti 98432 (evac_heap\<lparr>mem := m\<rparr>) = Some (Some 131200, s') \<and>
     e_current_block (evac_allocator (space s')) = Some (131072, 144, 32767) \<and> evacuation_candidate (blocks s' 98304)"
proof -
  let ?s = "evac_heap\<lparr>mem := m\<rparr>"
  obtain r s' where r: "ImmixSpace_maybe_evacuate sample_rtti 98432 ?s = Some (r, s')"
    using maybe_evacuate_spec [of "{#98304#}" ?s sample_rtti 98432] evac_heap_ok
    by (auto simp: immix_ok_mem evac_heap_simps LARGE_OBJECT_def)
  obtain s1 where "Allocator_allocate Evac_ops blocks 16 ?s = Some (131200, s1)"
    "e_current_block (evac_allocator (space s1)) = Some (131072, 144, 32767)" "evacuation_candidate (blocks s1 98304)"
    using evac_heap_allocate by blast
  with maybe_evacuate_result [OF _ _ _ _ r, of 131200 s1] assms zero_header [of m 98432] show ?thesis
    using r by (simp add: evac_heap_simps)
qed


end
