(* ===== verification/Large_Object_Space.thy ===== *)
theory Large_Object_Space
  imports Object
begin

unbundle bit_operations_syntax

text \<open>
  The large object space (\<open>src/large_object_space.rs\<close>): objects that are allocated with \<open>malloc\<close>, each behind a
  \<open>PreciseAllocation\<close> header, and the list of their headers. The addresses that \<open>malloc\<close> returns are
  arguments of the operations (\<open>None\<close> is a null pointer), the calls of \<open>free\<close> are recorded in order, and
  the search of \<open>[T]::binary_search\<close>, whose result is unspecified on a slice that is not sorted, is a
  parameter too.
\<close>

section \<open>\<open>PreciseAllocation\<close>\<close>

record PreciseAllocation =
  cell_size :: usize
  is_marked :: bool
  index_in_space :: u32
  adjusted_alignment :: bool
  has_valid_cell :: bool

text \<open>The headers in memory that \<open>malloc\<close> gave out, by address, and the calls of \<open>free\<close> so far.\<close>

record malloc_heap =
  headers :: "usize \<Rightarrow> PreciseAllocation"
  freed :: "usize list"

definition ALIGNMENT :: usize where [const_simps]: "ALIGNMENT = 16"
definition HALF_ALIGNMENT :: usize where [const_simps]: "HALF_ALIGNMENT = ALIGNMENT div 2"

definition PreciseAllocation_is_precise :: "usize \<Rightarrow> bool" where
  "PreciseAllocation_is_precise raw_ptr \<longleftrightarrow> raw_ptr AND HALF_ALIGNMENT \<noteq> 0"

text \<open>The size of the \<open>repr(C)\<close> struct: a \<open>usize\<close>, a \<open>bool\<close>, a \<open>u32\<close> and two \<open>bool\<close>s with their padding.\<close>

definition size_of_PreciseAllocation :: usize where [const_simps]: "size_of_PreciseAllocation = 24"

definition clear_low_bits :: "usize \<Rightarrow> usize \<Rightarrow> usize" where
  "clear_low_bits x n = unat ((of_nat x :: u64) AND NOT (of_nat n))"

definition PreciseAllocation_header_size :: usize where
  "PreciseAllocation_header_size =
     clear_low_bits (size_of_PreciseAllocation + HALF_ALIGNMENT - 1) (HALF_ALIGNMENT - 1) OR HALF_ALIGNMENT"

definition PreciseAllocation_from_cell :: "usize \<Rightarrow> usize option" where
  "PreciseAllocation_from_cell ptr = usub ptr PreciseAllocation_header_size"

definition PreciseAllocation_base_pointer :: "usize \<Rightarrow> PreciseAllocation \<Rightarrow> usize option" where
  "PreciseAllocation_base_pointer self h =
     (if adjusted_alignment h then usub self HALF_ALIGNMENT else Some self)"

definition PreciseAllocation_clear_marked :: "PreciseAllocation \<Rightarrow> PreciseAllocation" where
  "PreciseAllocation_clear_marked h = h\<lparr>is_marked := False\<rparr>"

definition PreciseAllocation_test_and_set_marked :: "PreciseAllocation \<Rightarrow> bool \<times> PreciseAllocation" where
  "PreciseAllocation_test_and_set_marked h = (if is_marked h then (True, h) else (False, h\<lparr>is_marked := True\<rparr>))"

definition PreciseAllocation_cell :: "usize \<Rightarrow> usize" where
  "PreciseAllocation_cell self = Address_offset self PreciseAllocation_header_size"

definition PreciseAllocation_above_lower_bound :: "usize \<Rightarrow> usize \<Rightarrow> bool" where
  "PreciseAllocation_above_lower_bound self raw_ptr \<longleftrightarrow> PreciseAllocation_cell self \<le> raw_ptr"

definition PreciseAllocation_below_upper_bound :: "usize \<Rightarrow> PreciseAllocation \<Rightarrow> usize \<Rightarrow> bool" where
  "PreciseAllocation_below_upper_bound self h raw_ptr \<longleftrightarrow>
     raw_ptr \<le> PreciseAllocation_cell self + cell_size h + 8"

definition PreciseAllocation_contains :: "usize \<Rightarrow> PreciseAllocation \<Rightarrow> usize \<Rightarrow> bool" where
  "PreciseAllocation_contains self h raw_ptr \<longleftrightarrow>
     PreciseAllocation_above_lower_bound self raw_ptr \<and> PreciseAllocation_below_upper_bound self h raw_ptr"

definition PreciseAllocation_is_live :: "PreciseAllocation \<Rightarrow> bool" where
  "PreciseAllocation_is_live h = is_marked h"

definition PreciseAllocation_flip :: "PreciseAllocation \<Rightarrow> PreciseAllocation" where
  "PreciseAllocation_flip h = PreciseAllocation_clear_marked h"

definition PreciseAllocation_is_empty :: "PreciseAllocation \<Rightarrow> bool" where
  "PreciseAllocation_is_empty h \<longleftrightarrow> \<not> is_marked h"

text \<open>\<open>sweep\<close> runs the finalizer of the cell when the allocation is not live.\<close>

definition PreciseAllocation_sweep ::
    "rtti_table \<Rightarrow> usize \<Rightarrow> malloc_heap \<times> memory \<Rightarrow> bool \<times> malloc_heap \<times> memory" where
  "PreciseAllocation_sweep T self = (\<lambda>(mh, m).
     let h = headers mh self in
     if has_valid_cell h \<and> \<not> PreciseAllocation_is_live h then
       let mh = mh\<lparr>headers := (headers mh)(self := h\<lparr>has_valid_cell := False\<rparr>)\<rparr>;
           cell = PreciseAllocation_cell self;
           m = (case finalizer (RawGc_rtti T (RawGc_at m cell)) of Some fin \<Rightarrow> fin cell m | None \<Rightarrow> m)
       in (False, mh, m)
     else (True, mh, m))"

text \<open>\<open>Layout::from_size_align\<close> refuses sizes above \<open>isize::MAX\<close> and \<open>LibcAlloc::allocate\<close> a null pointer.\<close>

definition LibcAlloc_allocate :: "usize option \<Rightarrow> usize \<Rightarrow> usize option" where
  "LibcAlloc_allocate malloced sz = (if sz < 2 ^ 63 then malloced else None)"

definition is_aligned_for_precise_allocation :: "usize \<Rightarrow> bool" where
  "is_aligned_for_precise_allocation m \<longleftrightarrow> m AND (ALIGNMENT - 1) = 0"

definition PreciseAllocation_try_create ::
    "usize option \<Rightarrow> usize \<Rightarrow> u32 \<Rightarrow> malloc_heap \<Rightarrow> (usize \<times> malloc_heap) option" where
  "PreciseAllocation_try_create malloced sz ix mh = do {
     let adjusted_alignment_allocation_size = PreciseAllocation_header_size + sz + HALF_ALIGNMENT;
     space \<leftarrow> LibcAlloc_allocate malloced adjusted_alignment_allocation_size;
     (space, adjusted) \<leftarrow>
       (if \<not> is_aligned_for_precise_allocation space then
          if is_aligned_for_precise_allocation (space + HALF_ALIGNMENT)
          then Some (space + HALF_ALIGNMENT, True) else None
        else Some (space, False));
     if sz \<noteq> 0 \<and> PreciseAllocation_is_precise (PreciseAllocation_cell space) then
       Some (space, mh\<lparr>headers := (headers mh)(space :=
         \<lparr>cell_size = sz, is_marked = False, index_in_space = ix, adjusted_alignment = adjusted,
          has_valid_cell = True\<rparr>)\<rparr>)
     else None }"

definition PreciseAllocation_destroy :: "usize \<Rightarrow> malloc_heap \<Rightarrow> malloc_heap option" where
  "PreciseAllocation_destroy self mh = do {
     base \<leftarrow> PreciseAllocation_base_pointer self (headers mh self);
     Some (mh\<lparr>freed := freed mh @ [base]\<rparr>) }"

section \<open>\<open>LargeObjectSpace\<close>\<close>

record LargeObjectSpace =
  allocations :: "usize list"
  los_live_mark :: bool

definition LargeObjectSpace_new :: LargeObjectSpace where
  "LargeObjectSpace_new = \<lparr>allocations = [], los_live_mark = False\<rparr>"

text \<open>The loop of \<open>Vec::retain\<close> in \<open>sweep\<close>: the retained headers and the bytes swept so far.\<close>

fun sweep_retain :: "rtti_table \<Rightarrow> usize list \<Rightarrow> malloc_heap \<times> memory \<Rightarrow>
    (usize list \<times> usize \<times> malloc_heap \<times> memory) option" where
  "sweep_retain T [] (mh, m) = Some ([], 0, mh, m)"
| "sweep_retain T (p # ps) (mh, m) = do {
     let (retain, mh, m) = PreciseAllocation_sweep T p (mh, m);
     if retain then do {
       (kept, swept, r) \<leftarrow> sweep_retain T ps (mh, m);
       Some (p # kept, swept, r) }
     else do {
       mh \<leftarrow> PreciseAllocation_destroy p mh;
       (kept, swept, r) \<leftarrow> sweep_retain T ps (mh, m);
       Some (kept, swept + cell_size (headers mh p), r) } }"

definition LargeObjectSpace_sweep ::
    "rtti_table \<Rightarrow> LargeObjectSpace \<times> malloc_heap \<times> memory \<Rightarrow>
     (usize \<times> LargeObjectSpace \<times> malloc_heap \<times> memory) option" where
  "LargeObjectSpace_sweep T = (\<lambda>(los, r). do {
     (kept, swept, r) \<leftarrow> sweep_retain T (allocations los) r;
     Some (swept, los\<lparr>allocations := sort kept\<rparr>, r) })"

definition LargeObjectSpace_contains ::
    "(usize list \<Rightarrow> usize \<Rightarrow> bool) \<Rightarrow> LargeObjectSpace \<Rightarrow> malloc_heap \<Rightarrow> Address \<Rightarrow> bool option" where
  "LargeObjectSpace_contains binary_search los mh p =
     (if allocations los = [] then Some False
      else if PreciseAllocation_above_lower_bound (hd (allocations los)) p \<and>
              PreciseAllocation_below_upper_bound (last (allocations los)) (headers mh (last (allocations los))) p
      then do {
        q \<leftarrow> PreciseAllocation_from_cell p;
        Some (binary_search (allocations los) q) }
      else Some False)"

definition LargeObjectSpace_alloc ::
    "usize option \<Rightarrow> usize \<Rightarrow> usize \<Rightarrow> LargeObjectSpace \<times> malloc_heap \<times> memory \<Rightarrow>
     (Address \<times> LargeObjectSpace \<times> malloc_heap \<times> memory) option" where
  "LargeObjectSpace_alloc malloced sz vt = (\<lambda>(los, mh, m). do {
     let ix = length (allocations los) mod 2 ^ 32;
     (cell, mh) \<leftarrow> PreciseAllocation_try_create malloced sz ix mh;
     if cell = 0 then Some (Address_null, los, mh, m)
     else do {
       let ps = vec_push (allocations los) cell;
       let ps = (if cell < ps ! (length ps - 1) \<or> cell < ps ! 0 then sort ps else ps);
       let raw = PreciseAllocation_cell cell;
       let m = put_header raw (snd (RawGc_mark (RawGc_new vt) (los_live_mark los))) m;
       Some (raw, los\<lparr>allocations := ps\<rparr>, mh, m) } })"

text \<open>\<open>Drop\<close> destroys the allocations from the end.\<close>

definition LargeObjectSpace_drop :: "LargeObjectSpace \<Rightarrow> malloc_heap \<Rightarrow> malloc_heap option" where
  "LargeObjectSpace_drop los mh = for_each PreciseAllocation_destroy (rev (allocations los)) mh"

section \<open>Layout\<close>

lemma sorted_bounds:
  assumes "sorted (xs :: usize list)" "x \<in> set xs"
  shows "hd xs \<le> x" "x \<le> last xs"
proof -
  obtain i where i: "i < length xs" "x = xs ! i" using assms(2) by (auto simp: in_set_conv_nth)
  then have "xs \<noteq> []" by auto
  with i show "hd xs \<le> x" "x \<le> last xs"
    using sorted_nth_mono [OF assms(1), of 0 i] sorted_nth_mono [OF assms(1), of i "length xs - 1"]
    by (auto simp: hd_conv_nth last_conv_nth)
qed

lemma header_size_24 [simp]: "PreciseAllocation_header_size = 24"
proof -
  have "(31::u64) AND NOT 7 = 24" by simp
  then show ?thesis by (simp add: PreciseAllocation_header_size_def clear_low_bits_def const_simps)
qed

lemma cell_eq [simp]: "PreciseAllocation_cell p = p + 24"
  by (simp add: PreciseAllocation_cell_def Address_offset_def)

lemma is_aligned_iff: "is_aligned_for_precise_allocation p \<longleftrightarrow> 16 dvd p"
proof -
  have "p AND (ALIGNMENT - 1) = p mod 16"
    using take_bit_eq_mask [of 4 p] by (simp add: ALIGNMENT_def take_bit_eq_mod mask_eq_exp_minus_1)
  then show ?thesis by (simp add: is_aligned_for_precise_allocation_def dvd_eq_mod_eq_0)
qed

lemma is_precise_iff: "PreciseAllocation_is_precise p \<longleftrightarrow> odd (p div 8)"
  using bit_iff_and_push_bit_not_eq_0 [of p 3]
  by (simp add: PreciseAllocation_is_precise_def const_simps bit_iff_odd push_bit_eq_mult)

text \<open>The place of the header in the memory that starts at \<open>r\<close>, and what \<open>try_create\<close> does.\<close>

definition header_place :: "usize \<Rightarrow> usize" where
  "header_place r = (if 16 dvd r then r else r + 8)"

definition new_header :: "usize \<Rightarrow> usize \<Rightarrow> u32 \<Rightarrow> PreciseAllocation" where
  "new_header r sz ix = \<lparr>cell_size = sz, is_marked = False, index_in_space = ix, adjusted_alignment = (\<not> 16 dvd r),
     has_valid_cell = True\<rparr>"

lemma header_place_aligned: "8 dvd r \<Longrightarrow> 16 dvd header_place r"
proof -
  assume "8 dvd r"
  then obtain k where "r = 8 * k" ..
  then show ?thesis by (cases "even k") (auto simp: header_place_def elim!: evenE oddE)
qed

lemma try_create_eq:
  assumes "8 dvd r"
  shows "PreciseAllocation_try_create (Some r) sz ix mh =
    (if 0 < sz \<and> sz + 32 < 2 ^ 63
     then Some (header_place r, mh\<lparr>headers := (headers mh)(header_place r := new_header r sz ix)\<rparr>) else None)"
proof -
  obtain k where "header_place r = 16 * k" using header_place_aligned [OF assms] ..
  then have "odd ((header_place r + 24) div 8)" by simp
  then show ?thesis using header_place_aligned [OF assms]
    by (auto simp: PreciseAllocation_try_create_def Let_def LibcAlloc_allocate_def is_aligned_iff is_precise_iff
        header_place_def new_header_def HALF_ALIGNMENT_def ALIGNMENT_def add.commute split: if_splits)
qed

lemma alloc_eq:
  assumes "8 dvd r" "0 < r" "0 < sz" "sz + 32 < 2 ^ 63"
  shows "LargeObjectSpace_alloc (Some r) sz vt (los, mh, m) =
    Some (header_place r + 24,
      los\<lparr>allocations := (if allocations los \<noteq> [] \<and> header_place r < hd (allocations los)
        then sort (allocations los @ [header_place r]) else allocations los @ [header_place r])\<rparr>,
      mh\<lparr>headers := (headers mh)(header_place r := new_header r sz (length (allocations los) mod 2 ^ 32))\<rparr>,
      put_header (header_place r + 24) (snd (RawGc_mark (RawGc_new vt) (los_live_mark los))) m)"
proof -
  have "header_place r \<noteq> 0" using assms(2) by (auto simp: header_place_def)
  moreover have "(xs @ [x]) ! 0 = (if xs = [] then x else hd xs)" for xs and x :: usize
    by (simp add: nth_append hd_conv_nth)
  ultimately show ?thesis
    using assms by (simp add: LargeObjectSpace_alloc_def try_create_eq vec_push_def Let_def)
qed

text \<open>The memory that belongs to an allocation, and allocations that \<open>malloc\<close> keeps apart.\<close>

definition base_of :: "malloc_heap \<Rightarrow> usize \<Rightarrow> usize" where
  "base_of mh p = (if adjusted_alignment (headers mh p) then p - 8 else p)"

definition region_of :: "malloc_heap \<Rightarrow> usize \<Rightarrow> usize set" where
  "region_of mh p = {base_of mh p..<base_of mh p + 32 + cell_size (headers mh p)}"

definition los_ok :: "LargeObjectSpace \<Rightarrow> malloc_heap \<Rightarrow> bool" where
  "los_ok los mh \<longleftrightarrow> distinct (allocations los) \<and>
     (\<forall>p \<in> set (allocations los). 16 dvd p \<and> 0 < p \<and> has_valid_cell (headers mh p) \<and> p \<in> region_of mh p) \<and>
     (\<forall>p \<in> set (allocations los). \<forall>q \<in> set (allocations los). p \<noteq> q \<longrightarrow> region_of mh p \<inter> region_of mh q = {})"

lemma new_header_region:
  assumes "8 dvd r"
  shows "base_of (mh\<lparr>headers := (headers mh)(header_place r := new_header r sz ix)\<rparr>) (header_place r) = r"
    "region_of (mh\<lparr>headers := (headers mh)(header_place r := new_header r sz ix)\<rparr>) (header_place r) = {r..<r + 32 + sz}"
    "header_place r \<in> {r..<r + 32 + sz}"
  by (auto simp: base_of_def region_of_def new_header_def header_place_def)

lemma alloc_los_ok:
  assumes ok: "los_ok los mh" and r: "8 dvd r" "0 < r" "0 < sz" "sz + 32 < 2 ^ 63"
    and fresh: "\<forall>p \<in> set (allocations los). region_of mh p \<inter> {r..<r + 32 + sz} = {}"
    and run: "LargeObjectSpace_alloc (Some r) sz vt (los, mh, m) = Some (a, los', mh', m')"
  shows "a = header_place r + 24" "los_ok los' mh'" "set (allocations los') = insert (header_place r) (set (allocations los))"
    "header_place r \<notin> set (allocations los)" "\<not> is_marked (headers mh' (header_place r))" "region_of mh' (header_place r) = {r..<r + 32 + sz}"
    "freed mh' = freed mh" "\<forall>p \<in> set (allocations los). headers mh' p = headers mh p"
proof -
  let ?p = "header_place r" and ?ps = "allocations los"
  note run = run [unfolded alloc_eq [OF r]]
  have mh': "mh' = mh\<lparr>headers := (headers mh)(?p := new_header r sz (length ?ps mod 2 ^ 32))\<rparr>" using run by auto
  have set': "set (allocations los') = insert ?p (set ?ps)" "distinct (allocations los') = distinct (?p # ?ps)"
    using run by (auto split: if_splits)
  have notin: "?p \<notin> set ?ps"
  proof
    assume "?p \<in> set ?ps"
    then have "?p \<in> region_of mh ?p" using ok by (auto simp: los_ok_def)
    then show False using fresh \<open>?p \<in> set ?ps\<close> new_header_region(3) [OF r(1), of sz] by blast
  qed
  have same: "headers mh' p = headers mh p" "region_of mh' p = region_of mh p" if "p \<in> set ?ps" for p
    using that notin by (auto simp: mh' region_of_def base_of_def)
  have new: "region_of mh' ?p = {r..<r + 32 + sz}" using new_header_region(2) [OF r(1)] by (simp add: mh')
  have "0 < ?p" using r(2) by (auto simp: header_place_def)
  moreover have "has_valid_cell (headers mh' ?p)" "\<not> is_marked (headers mh' ?p)" by (simp_all add: mh' new_header_def)
  ultimately show "los_ok los' mh'"
    using ok fresh same new notin set' new_header_region(3) [OF r(1), of sz] header_place_aligned [OF r(1)]
    unfolding los_ok_def by (simp add: Int_commute)
  show "a = header_place r + 24" using run by auto
  show "set (allocations los') = insert ?p (set ?ps)" "?p \<notin> set ?ps" "region_of mh' ?p = {r..<r + 32 + sz}" by fact+
  show "\<not> is_marked (headers mh' ?p)" by fact
  show "freed mh' = freed mh" by (simp add: mh')
  show "\<forall>p \<in> set ?ps. headers mh' p = headers mh p" using same by blast
qed

text \<open>Sweeping a list of distinct headers with valid cells.\<close>

lemma sweep_retain_spec:
  assumes "distinct ps" "\<forall>p \<in> set ps. has_valid_cell (headers mh p) \<and> (adjusted_alignment (headers mh p) \<longrightarrow> 8 \<le> p)"
  shows "\<exists>mh' m'. sweep_retain T ps (mh, m) = Some (filter (\<lambda>p. is_marked (headers mh p)) ps,
      (\<Sum>p \<leftarrow> filter (\<lambda>p. \<not> is_marked (headers mh p)) ps. cell_size (headers mh p)), mh', m') \<and>
    freed mh' = freed mh @ map (base_of mh) (filter (\<lambda>p. \<not> is_marked (headers mh p)) ps) \<and>
    (\<forall>p. is_marked (headers mh' p) = is_marked (headers mh p)) \<and>
    (\<forall>p. p \<notin> set ps \<or> is_marked (headers mh p) \<longrightarrow> headers mh' p = headers mh p)"
  using assms
proof (induction ps arbitrary: mh m)
  case (Cons p ps)
  show ?case
  proof (cases "is_marked (headers mh p)")
    case True
    then show ?thesis using Cons.IH [of mh m] Cons.prems
      by (auto simp: PreciseAllocation_sweep_def PreciseAllocation_is_live_def)
  next
    case False
    define fin where "fin = (case finalizer (RawGc_rtti T (RawGc_at m (p + 24))) of Some fin \<Rightarrow> fin (p + 24) m | None \<Rightarrow> m)"
    define mh1 where "mh1 = mh\<lparr>headers := (headers mh)(p := (headers mh p)\<lparr>has_valid_cell := False\<rparr>),
      freed := freed mh @ [base_of mh p]\<rparr>"
    have hd: "headers mh1 q = headers mh q" "base_of mh1 q = base_of mh q" if "q \<in> set ps" for q
      using that Cons.prems(1) by (auto simp: mh1_def base_of_def)
    have marks: "is_marked (headers mh1 q) = is_marked (headers mh q)" "cell_size (headers mh1 q) = cell_size (headers mh q)" for q
      by (auto simp: mh1_def)
    have ind: "\<forall>q \<in> set ps. has_valid_cell (headers mh1 q) \<and> (adjusted_alignment (headers mh1 q) \<longrightarrow> 8 \<le> q)" "distinct ps"
      using hd Cons.prems by auto
    obtain mh' m' where r: "sweep_retain T ps (mh1, fin) = Some (filter (\<lambda>p. is_marked (headers mh1 p)) ps,
        (\<Sum>p \<leftarrow> filter (\<lambda>p. \<not> is_marked (headers mh1 p)) ps. cell_size (headers mh1 p)), mh', m')"
      "freed mh' = freed mh1 @ map (base_of mh1) (filter (\<lambda>p. \<not> is_marked (headers mh1 p)) ps)"
      "\<forall>p. is_marked (headers mh' p) = is_marked (headers mh1 p)"
      "\<forall>p. p \<notin> set ps \<or> is_marked (headers mh1 p) \<longrightarrow> headers mh' p = headers mh1 p"
      using Cons.IH [OF ind(2,1)] by blast
    have "PreciseAllocation_sweep T p (mh, m)
        = (False, mh\<lparr>headers := (headers mh)(p := (headers mh p)\<lparr>has_valid_cell := False\<rparr>)\<rparr>, fin)"
      using False Cons.prems(2) by (simp add: PreciseAllocation_sweep_def PreciseAllocation_is_live_def fin_def Let_def)
    moreover have "PreciseAllocation_destroy p (mh\<lparr>headers := (headers mh)(p := (headers mh p)\<lparr>has_valid_cell := False\<rparr>)\<rparr>) = Some mh1"
      using Cons.prems(2)
      by (auto simp: PreciseAllocation_destroy_def PreciseAllocation_base_pointer_def mh1_def base_of_def
          HALF_ALIGNMENT_def ALIGNMENT_def)
    moreover have "map (base_of mh1) (filter P ps) = map (base_of mh) (filter P ps)" for P using hd by simp
    ultimately show ?thesis using False r marks Cons.prems(1)
      by (auto simp: mh1_def)
  qed
qed simp

text \<open>A run of allocations; every request comes with the address that \<open>malloc\<close> returns for it.\<close>

fun los_alloc_all :: "(usize \<times> usize \<times> usize) list \<Rightarrow> LargeObjectSpace \<times> malloc_heap \<times> memory \<Rightarrow>
    (Address list \<times> LargeObjectSpace \<times> malloc_heap \<times> memory) option" where
  "los_alloc_all [] st = Some ([], st)"
| "los_alloc_all ((r, sz, vt) # reqs) st = do {
     (a, st) \<leftarrow> LargeObjectSpace_alloc (Some r) sz vt st;
     (as, st) \<leftarrow> los_alloc_all reqs st;
     Some (a # as, st) }"

text \<open>What \<open>malloc\<close> promises: addresses aligned to 8 and memory that does not overlap.\<close>

definition malloc_region :: "usize \<times> usize \<times> usize \<Rightarrow> usize set" where
  "malloc_region req = (case req of (r, sz, vt) \<Rightarrow> {r..<r + 32 + sz})"

definition malloc_request :: "usize \<times> usize \<times> usize \<Rightarrow> bool" where
  "malloc_request req \<longleftrightarrow> (case req of (r, sz, vt) \<Rightarrow> 8 dvd r \<and> 0 < r \<and> 0 < sz \<and> sz + 32 < 2 ^ 63)"

fun malloc_apart :: "(usize \<times> usize \<times> usize) list \<Rightarrow> bool" where
  "malloc_apart [] \<longleftrightarrow> True"
| "malloc_apart (req # reqs) \<longleftrightarrow> (\<forall>req' \<in> set reqs. malloc_region req \<inter> malloc_region req' = {}) \<and> malloc_apart reqs"

lemma los_alloc_all_spec:
  assumes "los_ok los mh" "\<forall>p \<in> set (allocations los). \<not> is_marked (headers mh p)"
    and "\<forall>req \<in> set reqs. malloc_request req" "malloc_apart reqs"
    and "\<forall>req \<in> set reqs. \<forall>p \<in> set (allocations los). region_of mh p \<inter> malloc_region req = {}"
  shows "\<exists>as los' mh' m'. los_alloc_all reqs (los, mh, m) = Some (as, los', mh', m') \<and>
    as = map (\<lambda>req. header_place (fst req) + 24) reqs \<and> los_ok los' mh' \<and> freed mh' = freed mh \<and>
    set (allocations los') = set (allocations los) \<union> (\<lambda>req. header_place (fst req)) ` set reqs \<and>
    (\<forall>p \<in> set (allocations los'). \<not> is_marked (headers mh' p))"
  using assms
proof (induction reqs arbitrary: los mh m)
  case (Cons req reqs)
  obtain r sz vt where req: "req = (r, sz, vt)" by (cases req)
  have r: "8 dvd r" "0 < r" "0 < sz" "sz + 32 < 2 ^ 63" using Cons.prems(3) by (auto simp: req malloc_request_def)
  have fresh: "\<forall>p \<in> set (allocations los). region_of mh p \<inter> {r..<r + 32 + sz} = {}"
    using Cons.prems(5) by (simp add: req malloc_region_def)
  obtain a los1 mh1 m1 where run: "LargeObjectSpace_alloc (Some r) sz vt (los, mh, m) = Some (a, los1, mh1, m1)"
    using alloc_eq [OF r] by blast
  note one = alloc_los_ok [OF Cons.prems(1) r fresh run]
  have reg: "region_of mh1 p = region_of mh p" if "p \<in> set (allocations los)" for p
    using one(8) that by (auto simp: region_of_def base_of_def)
  have "region_of mh1 p \<inter> malloc_region req' = {}" if "req' \<in> set reqs" "p \<in> set (allocations los1)" for req' p
  proof (cases "p = header_place r")
    case True
    then show ?thesis using one(6) Cons.prems(4) that(1) by (auto simp: req malloc_region_def)
  next
    case False
    then have "p \<in> set (allocations los)" using that(2) one(3) by simp
    then show ?thesis using Cons.prems(5) that(1) reg by simp
  qed
  moreover have "\<forall>p \<in> set (allocations los1). \<not> is_marked (headers mh1 p)"
    using one(3,5,8) Cons.prems(2) by auto
  ultimately obtain as los' mh' m' where "los_alloc_all reqs (los1, mh1, m1) = Some (as, los', mh', m')"
    "as = map (\<lambda>req. header_place (fst req) + 24) reqs" "los_ok los' mh'" "freed mh' = freed mh1"
    "set (allocations los') = set (allocations los1) \<union> (\<lambda>req. header_place (fst req)) ` set reqs"
    "\<forall>p \<in> set (allocations los'). \<not> is_marked (headers mh' p)"
    using Cons.IH [OF one(2), of m1] Cons.prems(3,4) by auto
  then show ?case using run one(1,3,7) by (auto simp: req)
qed simp

lemma los_ok_adjusted:
  assumes "los_ok los mh" "p \<in> set (allocations los)"
  shows "has_valid_cell (headers mh p) \<and> (adjusted_alignment (headers mh p) \<longrightarrow> 8 \<le> p)"
proof -
  have "16 dvd p" "0 < p" "has_valid_cell (headers mh p)" using assms by (auto simp: los_ok_def)
  moreover have "8 \<le> p" using calculation(1,2) dvd_imp_le by fastforce
  ultimately show ?thesis by simp
qed

lemma contains_sorted:
  assumes "sorted (allocations los)"
    and "\<forall>xs x. sorted xs \<longrightarrow> binary_search xs x = (x \<in> set xs)"
  shows "LargeObjectSpace_contains binary_search los mh p
    = Some (\<exists>q \<in> set (allocations los). p = PreciseAllocation_cell q)"
proof (cases "allocations los = []")
  case False
  let ?ps = "allocations los"
  let ?in = "hd ?ps + 24 \<le> p \<and> p \<le> last ?ps + 24 + cell_size (headers mh (last ?ps)) + 8"
  have "?in" if "q \<in> set ?ps" "p = q + 24" for q
    using sorted_bounds [OF assms(1) that(1)] that(2) by simp
  then have "\<not> (\<exists>q \<in> set ?ps. p = q + 24)" if "\<not> ?in" using that by blast
  moreover have "binary_search ?ps (p - 24) = (\<exists>q \<in> set ?ps. p = q + 24)" if "24 \<le> p"
    using assms that by force
  ultimately have "(if ?in then binary_search ?ps (p - 24) else False) = (\<exists>q \<in> set ?ps. p = q + 24)"
    by (cases ?in) simp_all
  moreover have "LargeObjectSpace_contains binary_search los mh p = Some (if ?in then binary_search ?ps (p - 24) else False)"
    using False by (simp add: LargeObjectSpace_contains_def PreciseAllocation_above_lower_bound_def
        PreciseAllocation_below_upper_bound_def PreciseAllocation_from_cell_def usub_def)
  ultimately show ?thesis by simp
qed (simp add: LargeObjectSpace_contains_def)

section \<open>Properties\<close>

text \<open>\<open>try_create\<close> with a non-null, 8-aligned result of \<open>malloc\<close> and a size that is not zero puts the
  header at a 16-aligned place and the cell 8 bytes off a 16-byte boundary, which \<open>is_precise\<close> detects. Header and
  cell lie inside the memory obtained, the header is found back from the cell, and \<open>destroy\<close> frees exactly
  the address that \<open>malloc\<close> returned. A size of zero, a null pointer or a size above \<open>isize::MAX\<close> panics.\<close>

lemma precise_allocation_layout:
  assumes "8 dvd r"
  shows "(0 < sz \<and> sz + 32 < 2 ^ 63 \<longrightarrow>
      (\<exists>p mh'. PreciseAllocation_try_create (Some r) sz ix mh = Some (p, mh') \<and> 16 dvd p \<and>
         PreciseAllocation_is_precise (PreciseAllocation_cell p) \<and> \<not> PreciseAllocation_is_precise p \<and>
         {p..<PreciseAllocation_cell p + sz} \<subseteq> {r..<r + PreciseAllocation_header_size + sz + HALF_ALIGNMENT} \<and>
         PreciseAllocation_from_cell (PreciseAllocation_cell p) = Some p \<and>
         PreciseAllocation_contains p (headers mh' p) (PreciseAllocation_cell p) \<and>
         PreciseAllocation_destroy p mh' = Some (mh'\<lparr>freed := freed mh @ [r]\<rparr>))) \<and>
    (sz = 0 \<or> 2 ^ 63 \<le> sz + 32 \<longrightarrow> PreciseAllocation_try_create (Some r) sz ix mh = None) \<and>
    PreciseAllocation_try_create None sz ix mh = None"
proof -
  obtain k where k: "header_place r = 16 * k" using header_place_aligned [OF assms] ..
  then have "odd ((header_place r + 24) div 8)" "even (header_place r div 8)" by simp_all
  then have "PreciseAllocation_is_precise (header_place r + 24)" "\<not> PreciseAllocation_is_precise (header_place r)"
    by (simp_all add: is_precise_iff)
  moreover have "PreciseAllocation_destroy (header_place r) (mh\<lparr>headers := (headers mh)(header_place r := new_header r sz ix)\<rparr>)
      = Some (mh\<lparr>headers := (headers mh)(header_place r := new_header r sz ix), freed := freed mh @ [r]\<rparr>)"
    by (auto simp: PreciseAllocation_destroy_def PreciseAllocation_base_pointer_def new_header_def header_place_def
        HALF_ALIGNMENT_def ALIGNMENT_def)
  moreover have "{header_place r..<header_place r + 24 + sz} \<subseteq> {r..<r + 24 + sz + HALF_ALIGNMENT}"
    by (auto simp: header_place_def HALF_ALIGNMENT_def ALIGNMENT_def)
  moreover have "PreciseAllocation_try_create None sz ix mh = None"
    by (simp add: PreciseAllocation_try_create_def LibcAlloc_allocate_def)
  ultimately show ?thesis
    using try_create_eq [OF assms, of sz ix mh] header_place_aligned [OF assms]
    by (auto simp: PreciseAllocation_from_cell_def PreciseAllocation_contains_def
        PreciseAllocation_above_lower_bound_def PreciseAllocation_below_upper_bound_def new_header_def add.commute)
qed


text \<open>An empty space and an empty heap, for the witnesses.\<close>

definition empty_malloc :: malloc_heap where
  "empty_malloc = \<lparr>headers = (\<lambda>_. new_header 0 0 0), freed = []\<rparr>"

lemma los_ok_new: "los_ok LargeObjectSpace_new mh" "allocations LargeObjectSpace_new = []"
  by (simp_all add: los_ok_def LargeObjectSpace_new_def)




text \<open>C27: On a sorted list of allocations, with a binary search that finds exactly the elements of a sorted slice,
  \<open>contains\<close> accepts exactly the addresses of the cells.\<close>

theorem los_contains_exact:
  assumes "sorted (allocations los)"
    and "\<forall>xs x. sorted xs \<longrightarrow> binary_search xs x = (x \<in> set xs)"
  shows "LargeObjectSpace_contains binary_search los mh p
    = Some (\<exists>q \<in> set (allocations los). p = PreciseAllocation_cell q)"
  using assms by (rule contains_sorted)

theorem los_contains_exact_witness:
  "LargeObjectSpace_contains (\<lambda>xs x. x \<in> set xs) \<lparr>allocations = [65536, 131072], los_live_mark = False\<rparr> empty_malloc 131096
     = Some True"
  using los_contains_exact [of "\<lparr>allocations = [65536, 131072], los_live_mark = False\<rparr>" "\<lambda>xs x. x \<in> set xs" empty_malloc 131096]
  by simp

text \<open>C28: \<open>alloc\<close> compares the new header with itself and with the first one only, so it keeps the list sorted exactly
  when the new header is above all others or below all of them. When the new header falls between the
  first and the last, \<open>contains\<close> rejects every larger object that lies past the end of the new one,
  whatever the binary search answers.\<close>

theorem los_alloc_loses_order:
  assumes "sorted (allocations los)" "allocations los \<noteq> []" "header_place r \<notin> set (allocations los)"
    and "8 dvd r" "0 < r" "0 < sz" "sz + 32 < 2 ^ 63"
    and "LargeObjectSpace_alloc (Some r) sz vt (los, mh, m) = Some (a, los', mh', m')"
  shows "(sorted (allocations los') \<longleftrightarrow>
      header_place r < hd (allocations los) \<or> last (allocations los) < header_place r) \<and>
    (hd (allocations los) < header_place r \<longrightarrow>
      (\<forall>q \<in> set (allocations los). a + sz + 8 < PreciseAllocation_cell q \<longrightarrow>
        LargeObjectSpace_contains binary_search los' mh' (PreciseAllocation_cell q) = Some False))"
proof -
  let ?p = "header_place r" and ?ps = "allocations los"
  have run: "a = ?p + 24" "allocations los' = (if ?p < hd ?ps then sort (?ps @ [?p]) else ?ps @ [?p])"
    "headers mh' ?p = new_header r sz (length ?ps mod 2 ^ 32)"
    using assms(2,8) alloc_eq [OF assms(4-7), of vt los mh m] by auto
  note last = sorted_bounds(2) [OF assms(1)]
  have "last ?ps \<in> set ?ps" using assms(2) by simp
  then have "last ?ps \<noteq> ?p" using assms(3) by metis
  moreover have "sorted (?ps @ [?p]) \<longleftrightarrow> (\<forall>q \<in> set ?ps. q \<le> ?p)" using assms(1) by (auto simp: sorted_append)
  ultimately have "sorted (?ps @ [?p]) \<longleftrightarrow> last ?ps < ?p"
    using last \<open>last ?ps \<in> set ?ps\<close> by (meson le_neq_implies_less le_trans less_imp_le)
  then have "sorted (allocations los') \<longleftrightarrow> ?p < hd ?ps \<or> last ?ps < ?p" using run(2) by auto
  moreover have "LargeObjectSpace_contains binary_search los' mh' (PreciseAllocation_cell q) = Some False"
    if "hd ?ps < ?p" "a + sz + 8 < PreciseAllocation_cell q" for q
    using that run by (simp add: LargeObjectSpace_contains_def PreciseAllocation_below_upper_bound_def new_header_def)
  ultimately show ?thesis by blast
qed

theorem los_alloc_loses_order_witness:
  "\<exists>los mh m. los_alloc_all [(65536, 8192, 0), (262144, 8192, 0), (131072, 8192, 0)]
      (LargeObjectSpace_new, empty_malloc, (\<lambda>_. 0)) = Some ([65560, 262168, 131096], los, mh, m) \<and>
    262144 \<in> set (allocations los) \<and>
    LargeObjectSpace_contains (\<lambda>xs x. x \<in> set xs) los mh 262168 = Some False"
proof -
  have req: "8 dvd (131072::nat)" "8192 + 32 < (2::nat) ^ 63" by simp_all
  obtain los mh m where run: "los_alloc_all [(65536, 8192, 0), (262144, 8192, 0)] (LargeObjectSpace_new, empty_malloc, (\<lambda>_. 0))
      = Some ([65560, 262168], los, mh, m)" "allocations los = [65536, 262144]"
    by (simp add: alloc_eq header_place_def LargeObjectSpace_new_def)
  obtain a los' mh' m' where alloc: "LargeObjectSpace_alloc (Some 131072) 8192 0 (los, mh, m) = Some (a, los', mh', m')"
    "a = 131096" "allocations los' = [65536, 262144, 131072]"
    by (simp add: alloc_eq header_place_def run(2))
  have "LargeObjectSpace_contains (\<lambda>xs x. x \<in> set xs) los' mh' 262168 = Some False"
    using los_alloc_loses_order [of los 131072 8192 0 mh m a los' mh' m' "\<lambda>xs x. x \<in> set xs"] alloc run(2)
    by (simp add: header_place_def)
  then show ?thesis
    using run alloc by (auto simp: bind_eq_Some_conv)
qed

end
