(* ===== verification/Collector.thy ===== *)
theory Collector
  imports Immix_Space Large_Object_Space
begin

text \<open>
  The collector of \<open>src/collector.rs\<close>: the tracing closure with evacuation (\<open>Visitor::trace\<close>,
  \<open>ImmixCollector::collect\<close>), the choice of the kind of collection and of the evacuation candidates
  (\<open>prepare_collection\<close>, \<open>establish_hole_threshhold\<close>) and the sweep of the blocks. The map of the crate \<open>vec_map\<close>
  that holds the histograms is a parameter, given by the record of its operations.
\<close>

section \<open>Tracing\<close>

datatype CollectionType = ImmixCollection | ImmixEvacCollection

text \<open>\<open>Visitor::trace\<close> on the slot at \<open>reference\<close>: the queue and the heap change.\<close>

definition Visitor_trace ::
    "rtti_table \<Rightarrow> bool \<Rightarrow> bool \<Rightarrow> usize \<Rightarrow> usize list \<times> heap_state \<Rightarrow> (usize list \<times> heap_state) option" where
  "Visitor_trace T next_live_mark defrag reference = (\<lambda>(queue, s).
     let child = unat (mem s reference); raw = RawGc_at (mem s) child in
     if RawGc_is_forwarded raw then
       Some (queue, s\<lparr>mem := (mem s)(reference := of_nat (RawGc_vtable raw))\<rparr>)
     else if RawGc_get_mark raw \<noteq> next_live_mark then do {
       (child, s) \<leftarrow>
         (if defrag \<and> ImmixSpace_filter_fast (space s) child then do {
            (new_child, s) \<leftarrow> ImmixSpace_maybe_evacuate T child s;
            Some (case new_child of
                    Some new_child \<Rightarrow> (new_child, s\<lparr>mem := (mem s)(reference := of_nat new_child)\<rparr>)
                  | None \<Rightarrow> (child, s)) }
          else Some (child, s));
       Some (vec_push queue child, s) }
     else Some (queue, s))"

text \<open>The body of the loop of \<open>ImmixCollector::collect\<close> for one object taken from the queue; \<open>record_object\<close> is
  its inner conditional, which sets the bit and the lines of an object of the Immix space.\<close>

definition record_object :: "rtti_table \<Rightarrow> usize \<Rightarrow> heap_state \<Rightarrow> heap_state option" where
  "record_object T object s =
     (if ImmixSpace_filter_fast (space s) object then do {
        let block = ImmixBlock_get_block_ptr object;
        s \<leftarrow> on_space (ImmixSpace_set_gc_object object) s;
        blk \<leftarrow> ImmixBlock_line_object_mark T (mem s) block object (blocks s block);
        Some (s\<lparr>blocks := (blocks s)(block := blk)\<rparr>) }
      else Some s)"

definition mark_object ::
    "rtti_table \<Rightarrow> bool \<Rightarrow> bool \<Rightarrow> usize \<Rightarrow> usize list \<times> usize \<times> heap_state \<Rightarrow>
     (usize list \<times> usize \<times> heap_state) option" where
  "mark_object T next_live_mark defrag object = (\<lambda>(queue, visited, s).
     let (marked, header) = RawGc_mark (RawGc_at (mem s) object) next_live_mark;
         s = s\<lparr>mem := put_header object header (mem s)\<rparr> in
     if \<not> marked then do {
       s \<leftarrow> record_object T object s;
       let visited = visited + object_size T (mem s) object;
       let visitor_fn = visit_references (RawGc_rtti T (RawGc_at (mem s) object));
       (queue, s) \<leftarrow> for_each (Visitor_trace T next_live_mark defrag) (visitor_fn (mem s) object) (queue, s);
       Some (queue, visited, s) }
     else Some (queue, visited, s))"

text \<open>The loop itself; that it ends is proved below for collections that do not move objects.\<close>

partial_function (option) mark_loop ::
    "rtti_table \<Rightarrow> bool \<Rightarrow> bool \<Rightarrow> usize list \<Rightarrow> usize \<Rightarrow> heap_state \<Rightarrow> (usize \<times> heap_state) option" where
  "mark_loop T next_live_mark defrag queue visited s = (case queue of
     [] \<Rightarrow> Some (visited, s)
   | object # queue \<Rightarrow> do {
       (queue, visited, s) \<leftarrow> mark_object T next_live_mark defrag object (queue, visited, s);
       mark_loop T next_live_mark defrag queue visited s })"

text \<open>One precise root, given by the address of the variable that holds it.\<close>

definition precise_root ::
    "rtti_table \<Rightarrow> CollectionType \<Rightarrow> usize \<Rightarrow> usize list \<times> heap_state \<Rightarrow> (usize list \<times> heap_state) option" where
  "precise_root T collection_type root = (\<lambda>(queue, s). do {
     let raw = unat (mem s root);
     (raw, s) \<leftarrow>
       (if ImmixSpace_filter_fast (space s) raw then
          if RawGc_is_forwarded (RawGc_at (mem s) raw) then Some (RawGc_vtable (RawGc_at (mem s) raw), s)
          else if collection_type = ImmixEvacCollection then do {
            (new_object, s) \<leftarrow> ImmixSpace_maybe_evacuate T raw s;
            Some (case new_object of
                    Some new_object \<Rightarrow>
                      (new_object, s\<lparr>mem := put_header raw (RawGc_set_forwarded (RawGc_at (mem s) raw) new_object)
                                              ((mem s)(root := of_nat new_object))\<rparr>)
                  | None \<Rightarrow> (raw, s)) }
          else Some (raw, s)
        else Some (raw, s));
     Some (vec_push queue raw, s) })"

definition ImmixCollector_collect ::
    "rtti_table \<Rightarrow> CollectionType \<Rightarrow> usize list \<Rightarrow> usize list \<Rightarrow> bool \<Rightarrow> heap_state \<Rightarrow>
     (usize \<times> heap_state) option" where
  "ImmixCollector_collect T collection_type roots precise_roots next_live_mark s = do {
     (object_queue, s) \<leftarrow> for_each (precise_root T collection_type) precise_roots (roots, s);
     mark_loop T next_live_mark (collection_type = ImmixEvacCollection) object_queue 0 s }"

section \<open>\<open>Collector\<close>\<close>

text \<open>The operations of \<open>vec_map::VecMap\<close> that the collector uses, and what the crate documents of them.\<close>

record 'm VecMap =
  vm_new :: 'm
  vm_clear :: "'m \<Rightarrow> 'm"
  vm_contains_key :: "'m \<Rightarrow> usize \<Rightarrow> bool"
  vm_get :: "'m \<Rightarrow> usize \<Rightarrow> usize option"
  vm_insert :: "usize \<Rightarrow> usize \<Rightarrow> 'm \<Rightarrow> 'm"

definition VecMap_laws :: "'m VecMap \<Rightarrow> bool" where
  "VecMap_laws V \<longleftrightarrow> (\<forall>k. vm_get V (vm_new V) k = None) \<and> (\<forall>m k. vm_get V (vm_clear V m) k = None) \<and>
     (\<forall>m k. vm_contains_key V m k = (vm_get V m k \<noteq> None)) \<and>
     (\<forall>m k v j. vm_get V (vm_insert V k v m) j = (if j = k then Some v else vm_get V m j))"

record 'm Collector =
  all_blocks :: "usize list"
  mark_histogram :: 'm

definition Collector_new :: "'m VecMap \<Rightarrow> 'm Collector" where
  "Collector_new V = \<lparr>all_blocks = [], mark_histogram = vm_new V\<rparr>"

definition Collector_extend_all_blocks :: "usize list \<Rightarrow> 'm Collector \<Rightarrow> 'm Collector" where
  "Collector_extend_all_blocks bs c = c\<lparr>all_blocks := all_blocks c @ bs\<rparr>"

text \<open>Adding to an entry of a histogram; an assignment through \<open>get_mut\<close> is an insertion of the new value.\<close>

definition histogram_add :: "'m VecMap \<Rightarrow> usize \<Rightarrow> usize \<Rightarrow> 'm \<Rightarrow> 'm" where
  "histogram_add V k n m =
     (if vm_contains_key V m k then
        (case vm_get V m k of Some val \<Rightarrow> vm_insert V k (val + n) m | None \<Rightarrow> m)
      else vm_insert V k n m)"

text \<open>The search of the first threshold at which the available lines no longer exceed the required ones.\<close>

fun find_threshold :: "'m VecMap \<Rightarrow> 'm \<Rightarrow> 'm \<Rightarrow> usize list \<Rightarrow> usize \<Rightarrow> usize \<Rightarrow> usize" where
  "find_threshold V marks available [] required_lines available_lines = NUM_LINES_PER_BLOCK"
| "find_threshold V marks available (threshold # ts) required_lines available_lines =
     (let required_lines = required_lines + (case vm_get V marks threshold of Some n \<Rightarrow> n | None \<Rightarrow> 0);
          available_lines = available_lines - (case vm_get V available threshold of Some n \<Rightarrow> n | None \<Rightarrow> 0)
      in if available_lines \<le> required_lines then threshold
         else find_threshold V marks available ts required_lines available_lines)"

definition Collector_establish_hole_threshhold ::
    "'m VecMap \<Rightarrow> block_map \<Rightarrow> usize \<Rightarrow> 'm Collector \<Rightarrow> usize option" where
  "Collector_establish_hole_threshhold V hdr evac_headroom c = do {
     available_histogram \<leftarrow> for_each (\<lambda>block m. do {
         (holes, free_lines) \<leftarrow> ImmixBlock_count_holes_and_available_lines block (hdr block);
         Some (histogram_add V holes free_lines m) }) (all_blocks c) (vm_new V);
     let available_lines = evac_headroom * (NUM_LINES_PER_BLOCK - 1);
     Some (find_threshold V (mark_histogram c) available_histogram [0..<NUM_LINES_PER_BLOCK] 0 available_lines) }"

text \<open>\<open>total_blocks as f64 * 0.25\<close>, truncated: exact for every number of blocks below \<open>2 ^ 53\<close>.\<close>

definition EVAC_TRIGGER_of :: "usize \<Rightarrow> usize" where
  "EVAC_TRIGGER_of total_blocks = total_blocks div 4"

definition set_candidates :: "(ImmixBlock \<Rightarrow> bool) \<Rightarrow> usize list \<Rightarrow> block_map \<Rightarrow> block_map" where
  "set_candidates p bs hdr =
     fold (\<lambda>b hdr. hdr(b := (hdr b)\<lparr>evacuation_candidate := p (hdr b)\<rparr>)) bs hdr"

definition Collector_prepare_collection ::
    "'m VecMap \<Rightarrow> bool \<Rightarrow> usize \<Rightarrow> usize \<Rightarrow> usize \<Rightarrow> bool \<Rightarrow> 'm Collector \<Rightarrow> block_map \<Rightarrow>
     (CollectionType \<times> block_map) option" where
  "Collector_prepare_collection V evacuation available_blocks evac_headroom total_blocks emergency c hdr =
     (if emergency \<and> USE_EVACUATION
      then Some (ImmixEvacCollection, set_candidates (\<lambda>_. True) (all_blocks c) hdr)
      else do {
        let evac_threshhold = EVAC_TRIGGER_of total_blocks;
        let available_evac_blocks = available_blocks + evac_headroom;
        (perform_evac, hdr) \<leftarrow>
          (if evacuation \<or> available_evac_blocks < evac_threshhold then do {
             hole_threshhold \<leftarrow> Collector_establish_hole_threshhold V hdr evac_headroom c;
             let perform_evac = (USE_EVACUATION \<and> 0 < hole_threshhold);
             Some (perform_evac,
                   if perform_evac
                   then set_candidates (\<lambda>blk. hole_threshhold \<le> hole_count blk) (all_blocks c) hdr else hdr) }
           else Some (evacuation, hdr));
        Some (if perform_evac then ImmixEvacCollection else ImmixCollection, hdr) })"

text \<open>The sweep of one block, with the lists of unavailable, recyclable and free blocks so far.\<close>

definition sweep_block ::
    "'m VecMap \<Rightarrow> usize \<Rightarrow> (usize list \<times> usize list \<times> usize list) \<times> 'm \<times> block_map \<Rightarrow>
     ((usize list \<times> usize list \<times> usize list) \<times> 'm \<times> block_map) option" where
  "sweep_block V block = (\<lambda>((unavailable_blocks, recyclable_blocks, free_blocks), hist, hdr). do {
     empty \<leftarrow> ImmixBlock_is_empty block (hdr block);
     if empty then
       Some ((unavailable_blocks, recyclable_blocks, vec_push free_blocks block), hist,
             hdr(block := ImmixBlock_reset (hdr block)))
     else do {
       (_, blk) \<leftarrow> ImmixBlock_count_holes block (hdr block);
       (holes, marked_lines) \<leftarrow> ImmixBlock_count_holes_and_marked_lines block blk;
       let hist = histogram_add V holes marked_lines hist;
       let hdr = hdr(block := blk);
       Some (if holes = 0 then (vec_push unavailable_blocks block, recyclable_blocks, free_blocks)
             else (unavailable_blocks, vec_push recyclable_blocks block, free_blocks), hist, hdr) } })"

definition Collector_sweep_all_blocks ::
    "'m VecMap \<Rightarrow> 'm Collector \<Rightarrow> block_map \<Rightarrow> ((usize list \<times> usize list) \<times> 'm Collector \<times> block_map) option" where
  "Collector_sweep_all_blocks V c hdr = do {
     ((unavailable_blocks, recyclable_blocks, free_blocks), hist, hdr) \<leftarrow>
       for_each (sweep_block V) (all_blocks c) (([], [], []), mark_histogram c, hdr);
     Some ((recyclable_blocks, free_blocks), c\<lparr>all_blocks := unavailable_blocks, mark_histogram := hist\<rparr>, hdr) }"

text \<open>The loop of \<open>Collector::collect\<close> that clears the bits and the line marks of a block.\<close>

definition clear_block :: "usize \<Rightarrow> heap_state \<Rightarrow> heap_state option" where
  "clear_block block s = do {
     bm \<leftarrow> SpaceBitmap_clear_range 16 (bitmap (space s)) block (block + BLOCK_SIZE);
     let blk = blocks s block;
     Some (s\<lparr>space := (space s)\<lparr>bitmap := bm\<rparr>,
             blocks := (blocks s)(block := blk\<lparr>line_map := LineMap_clear_all (line_map blk)\<rparr>)\<rparr>) }"

text \<open>What follows the tracing: the sweep, and the distribution of the free blocks.\<close>

definition finish_collection ::
    "'m VecMap \<Rightarrow> 'm Collector \<Rightarrow> heap_state \<Rightarrow> ('m Collector \<times> heap_state) option" where
  "finish_collection V c s = do {
     let c = c\<lparr>mark_histogram := vm_clear V (mark_histogram c)\<rparr>;
     ((recyclable_blocks, free_blocks), c, hdr) \<leftarrow> Collector_sweep_all_blocks V c (blocks s);
     let sp = ImmixSpace_set_recyclable_blocks recyclable_blocks (space s);
     evac_headroom \<leftarrow> (if USE_EVACUATION then usub EVAC_HEADROOM (ImmixSpace_evac_headroom sp) else Some 0);
     let sp = ImmixSpace_extend_evac_headroom (take evac_headroom free_blocks) sp;
     let sp = ImmixSpace_return_blocks (drop evac_headroom free_blocks) sp;
     Some (c, s\<lparr>space := sp, blocks := hdr\<rparr>) }"

definition Collector_collect ::
    "'m VecMap \<Rightarrow> rtti_table \<Rightarrow> CollectionType \<Rightarrow> usize list \<Rightarrow> usize list \<Rightarrow> bool \<Rightarrow>
     'm Collector \<times> heap_state \<times> LargeObjectSpace \<times> malloc_heap \<Rightarrow>
     (usize \<times> 'm Collector \<times> heap_state \<times> LargeObjectSpace \<times> malloc_heap) option" where
  "Collector_collect V T collection_type roots precise_roots next_live_mark = (\<lambda>(c, s, los, mh). do {
     s \<leftarrow> for_each clear_block (all_blocks c) s;
     (visited, s) \<leftarrow> ImmixCollector_collect T collection_type roots precise_roots next_live_mark s;
     (c, s) \<leftarrow> finish_collection V c s;
     (_, los, mh, m) \<leftarrow> LargeObjectSpace_sweep T (los, mh, mem s);
     Some (visited, c, s\<lparr>mem := m\<rparr>, los, mh) })"

text \<open>Maps of the logic satisfy what is asked of \<open>VecMap\<close>; the witnesses use them.\<close>

definition map_VecMap :: "(usize \<Rightarrow> usize option) VecMap" where
  "map_VecMap = \<lparr>vm_new = (\<lambda>_. None), vm_clear = (\<lambda>_ _. None), vm_contains_key = (\<lambda>m k. m k \<noteq> None),
     vm_get = (\<lambda>m k. m k), vm_insert = (\<lambda>k v m. m(k := Some v))\<rparr>"

lemma map_VecMap_laws: "VecMap_laws map_VecMap"
  by (simp add: VecMap_laws_def map_VecMap_def)

end
