(* ===== verification/Marking.thy ===== *)
theory Marking
  imports Collector
begin

text \<open>
  What a collection that does not move objects does: the closure of \<open>ImmixCollector::collect\<close> ends and marks exactly
  the objects that are reachable from the roots, and the sweep that follows leaves every byte of a marked
  object out of what the allocators may hand out next.
\<close>

section \<open>The object graph\<close>

text \<open>The slots that an object passes to the tracer and the objects they refer to.\<close>

definition slots :: "rtti_table \<Rightarrow> memory \<Rightarrow> usize \<Rightarrow> usize list" where
  "slots T m a = visit_references (RawGc_rtti T (RawGc_at m a)) m a"

definition children :: "rtti_table \<Rightarrow> memory \<Rightarrow> usize \<Rightarrow> usize list" where
  "children T m a = map (\<lambda>r. unat (m r)) (slots T m a)"

inductive_set reachable :: "rtti_table \<Rightarrow> memory \<Rightarrow> usize set \<Rightarrow> usize set"
  for T :: rtti_table and m :: memory and R :: "usize set" where
  root: "a \<in> R \<Longrightarrow> a \<in> reachable T m R"
| child: "a \<in> reachable T m R \<Longrightarrow> c \<in> set (children T m a) \<Longrightarrow> c \<in> reachable T m R"

lemma reachable_least:
  assumes "R \<subseteq> M" and "\<forall>a \<in> M. set (children T m a) \<subseteq> M"
  shows "reachable T m R \<subseteq> M"
proof
  fix a assume "a \<in> reachable T m R"
  then show "a \<in> M" by induction (use assms in auto)
qed

text \<open>Memory after the objects \<open>M\<close> are marked.\<close>

definition marked_mem :: "bool \<Rightarrow> usize set \<Rightarrow> memory \<Rightarrow> memory" where
  "marked_mem nlm M m = (\<lambda>x. if x \<in> M then raw (vtable (snd (RawGc_mark (RawGc_at m x) nlm))) else m x)"

lemma RawGc_at_marked_mem:
  "RawGc_at (marked_mem nlm M m) a = (if a \<in> M then snd (RawGc_mark (RawGc_at m a) nlm) else RawGc_at m a)"
  by (simp add: RawGc_at_def marked_mem_def)

lemma marked_mem_insert:
  "a \<notin> M \<Longrightarrow> put_header a (snd (RawGc_mark (RawGc_at m a) nlm)) (marked_mem nlm M m) = marked_mem nlm (insert a M) m"
  by (auto simp: marked_mem_def put_header_def)

lemma marked_mem_empty [simp]: "marked_mem nlm {} m = m"
  by (simp add: marked_mem_def)

lemma RawGc_mark_same: "RawGc_get_mark r = b \<Longrightarrow> snd (RawGc_mark r b) = r"
proof -
  assume "RawGc_get_mark r = b"
  then have "raw (TaggedPointer_set_bit_x (vtable r) b 0) = raw (vtable r)"
    by (intro bit_eqI) (auto simp: RawGc_get_mark_def TaggedPointer_bit_is_set_def bit_set_bit_x)
  then show ?thesis by (simp add: RawGc_mark_def Let_def)
qed

lemma put_header_same: "put_header a (RawGc_at m a) m = m"
  by (simp add: put_header_def RawGc_at_def)

text \<open>
  What the collector relies on: the finitely many objects of the heap are not yet marked for this cycle nor
  forwarded, their references lead to objects and are not stored in headers, and the type information of
  the user does not look at the tag bits of headers.
\<close>

definition tag_variant :: "usize set \<Rightarrow> memory \<Rightarrow> memory \<Rightarrow> bool" where
  "tag_variant Obj m m' \<longleftrightarrow> (\<forall>x. x \<notin> Obj \<longrightarrow> m' x = m x) \<and>
     (\<forall>x \<in> Obj. RawGc_vtable (RawGc_at m' x) = RawGc_vtable (RawGc_at m x))"

definition rtti_stable :: "rtti_table \<Rightarrow> usize set \<Rightarrow> memory \<Rightarrow> bool" where
  "rtti_stable T Obj m \<longleftrightarrow> (\<forall>m' a. tag_variant Obj m m' \<longrightarrow> a \<in> Obj \<longrightarrow>
     slots T m' a = slots T m a \<and> object_size T m' a = object_size T m a)"

lemma tag_variant_marked: "M \<subseteq> Obj \<Longrightarrow> tag_variant Obj m (marked_mem nlm M m)"
  by (auto simp: tag_variant_def RawGc_at_marked_mem) (auto simp: marked_mem_def)

lemma tag_variant_stable:
  assumes "tag_variant Obj m m'" "rtti_stable T Obj m"
  shows "rtti_stable T Obj m'"
proof -
  have "tag_variant Obj m m''" if "tag_variant Obj m' m''" for m''
    using assms(1) that by (auto simp: tag_variant_def)
  then show ?thesis using assms unfolding rtti_stable_def by metis
qed

definition heap_graph :: "rtti_table \<Rightarrow> bool \<Rightarrow> usize set \<Rightarrow> memory \<Rightarrow> bool" where
  "heap_graph T nlm Obj m \<longleftrightarrow> finite Obj \<and> rtti_stable T Obj m \<and>
     (\<forall>a \<in> Obj. \<not> RawGc_is_forwarded (RawGc_at m a) \<and> RawGc_get_mark (RawGc_at m a) \<noteq> nlm \<and>
        set (slots T m a) \<inter> Obj = {} \<and> set (children T m a) \<subseteq> Obj)"

text \<open>The objects of the Immix space lie in the blocks \<open>C\<close> of the collector.\<close>

definition objects_placed :: "rtti_table \<Rightarrow> usize multiset \<Rightarrow> usize set \<Rightarrow> heap_state \<Rightarrow> bool" where
  "objects_placed T C Obj s \<longleftrightarrow> (\<forall>a \<in> Obj. ImmixSpace_filter_fast (space s) a \<longrightarrow> 16 dvd a \<and>
     ImmixBlock_get_block_ptr a \<in># C \<and> object_in_block (ImmixBlock_get_block_ptr a) a (object_size T (mem s) a))"

text \<open>The state in which exactly the objects \<open>M\<close> have been marked since \<open>s\<close>.\<close>

definition marked_lines :: "rtti_table \<Rightarrow> heap_state \<Rightarrow> usize set \<Rightarrow> usize \<Rightarrow> nat \<Rightarrow> bool" where
  "marked_lines T s M b l \<longleftrightarrow> line_marked (blocks s b) l \<or>
     (\<exists>a \<in> M. ImmixSpace_filter_fast (space s) a \<and> ImmixBlock_get_block_ptr a = b \<and>
        l \<in> object_lines a (object_size T (mem s) a))"

definition marked_state :: "rtti_table \<Rightarrow> bool \<Rightarrow> usize multiset \<Rightarrow> heap_state \<Rightarrow> usize set \<Rightarrow> heap_state \<Rightarrow> bool" where
  "marked_state T nlm C s M s' \<longleftrightarrow>
     (\<exists>bm hdr. s' = s\<lparr>space := (space s)\<lparr>bitmap := bm\<rparr>, blocks := hdr, mem := marked_mem nlm M (mem s)\<rparr> \<and>
        (\<forall>b. \<exists>lm. hdr b = (blocks s b)\<lparr>line_map := lm\<rparr>) \<and> (\<forall>b. b \<notin># C \<longrightarrow> hdr b = blocks s b)) \<and>
     immix_ok C s' \<and> avail_bytes s' = avail_bytes s \<and>
     gc_objects (space s') = gc_objects (space s) \<union> {a \<in> M. ImmixSpace_filter_fast (space s) a} \<and>
     (\<forall>b l. line_marked (blocks s' b) l \<longleftrightarrow> marked_lines T s M b l)"

lemma same_line_map: "\<exists>lm. blk = blk\<lparr>line_map := lm\<rparr>"
  by (rule exI [of _ "line_map blk"]) simp

lemma marked_state_start: "immix_ok C s \<Longrightarrow> marked_state T nlm C s {} s"
  unfolding marked_state_def
  by (intro conjI exI [of _ "bitmap (space s)"] exI [of _ "blocks s"]) (auto simp: marked_lines_def same_line_map)

lemma marked_state_space:
  assumes "marked_state T nlm C s M s'"
  shows "ImmixSpace_filter_fast (space s') a = ImmixSpace_filter_fast (space s) a" "mem s' = marked_mem nlm M (mem s)"
    "immix_ok C s'"
  using assms by (auto simp: marked_state_def)

section \<open>Marking one object\<close>

lemma trace_slots:
  assumes g: "heap_graph T nlm Obj (mem s)" and M: "M \<subseteq> Obj" and st: "mem s' = marked_mem nlm M (mem s)"
    and rs: "\<forall>r \<in> set rs. r \<notin> Obj \<and> unat (mem s r) \<in> Obj"
  shows "for_each (Visitor_trace T nlm False) rs (queue, s')
    = Some (queue @ filter (\<lambda>c. c \<notin> M) (map (\<lambda>r. unat (mem s r)) rs), s')"
  using rs
proof (induction rs arbitrary: queue)
  case (Cons r rs)
  let ?c = "unat (mem s r)"
  have "mem s' r = mem s r" using Cons.prems M by (auto simp: st marked_mem_def)
  moreover have "RawGc_is_forwarded (RawGc_at (mem s') ?c) = False"
    "(RawGc_get_mark (RawGc_at (mem s') ?c) \<noteq> nlm) = (?c \<notin> M)"
    using g Cons.prems by (auto simp: heap_graph_def st RawGc_at_marked_mem)
  ultimately have "Visitor_trace T nlm False r (queue, s') = Some (if ?c \<in> M then queue else queue @ [?c], s')"
    by (auto simp: Visitor_trace_def Let_def vec_push_def)
  then show ?case using Cons by (cases "?c \<in> M") auto
qed simp

lemma mark_object_again:
  assumes g: "heap_graph T nlm Obj (mem s)" and a: "a \<in> M" and st: "marked_state T nlm C s M s'"
  shows "mark_object T nlm defrag a (queue, v, s') = Some (queue, v, s')"
proof -
  have mem: "mem s' = marked_mem nlm M (mem s)" using st by (rule marked_state_space)
  then have "RawGc_get_mark (RawGc_at (mem s') a) = nlm" using a by (simp add: RawGc_at_marked_mem)
  moreover from this have "snd (RawGc_mark (RawGc_at (mem s') a) nlm) = RawGc_at (mem s') a" by (rule RawGc_mark_same)
  ultimately show ?thesis
    by (simp add: mark_object_def split_beta put_header_same)
qed

text \<open>Changing the line maps of blocks of the collector and the bitmap keeps the invariant and the available bytes.\<close>

lemma immix_ok_headers:
  assumes ok: "immix_ok C s" and hdr: "\<And>b. b \<notin># C \<Longrightarrow> line_map (hdr b) = line_map (blocks s b)" "\<And>b. block_valid (hdr b)"
  shows "immix_ok C (s\<lparr>blocks := hdr\<rparr>)" "avail_bytes (s\<lparr>blocks := hdr\<rparr>) = avail_bytes s"
proof -
  have sok: "space_ok C s" using ok by (simp add: immix_ok_def)
  have as: "assets hdr s = assets (blocks s) s"
    using space_ok_asset(2) [OF sok] hdr(1) by (intro assets_cong) blast
  then show "avail_bytes (s\<lparr>blocks := hdr\<rparr>) = avail_bytes s"
    by (simp add: avail_bytes_def assets_other_space)
  show "immix_ok C (s\<lparr>blocks := hdr\<rparr>)"
    using ok as hdr(2) by (simp add: immix_ok_def space_ok_def assets_other_space currents_ok_def)
qed

lemma collector_object_inside:
  assumes ok: "immix_ok C s" and b: "b \<in># C" and x: "x \<in> block_bytes b"
  shows "mmap_start (mmap (block_allocator (space s))) < x" "x < data_bound (block_allocator (space s))"
proof -
  let ?ba = "block_allocator (space s)"
  have bok: "block_allocator_ok ?ba" and used: "b \<in> used_blocks ?ba"
    using ok b space_ok_hand by (auto simp: immix_ok_def space_ok_def)
  then have built: "b \<in> built_blocks ?ba" by (simp add: used_blocks_def)
  show "x < data_bound ?ba" using built_block_inside [OF bok built] x by auto
  have "Mmap_aligned (mmap ?ba) \<le> b" using built by (simp add: built_blocks_def)
  then show "mmap_start (mmap ?ba) < x" using Mmap_aligned_props(2) [of "mmap ?ba"] x by simp
qed

lemma mark_in_space:
  assumes st: "marked_state T nlm C s M s'" and sz: "object_size T m a = object_size T (mem s) a"
    and m: "m = marked_mem nlm (insert a M) (mem s)"
    and a: "ImmixSpace_filter_fast (space s) a" "16 dvd a" "ImmixBlock_get_block_ptr a \<in># C"
      "object_in_block (ImmixBlock_get_block_ptr a) a (object_size T (mem s) a)"
  shows "\<exists>sp blk. on_space (ImmixSpace_set_gc_object a) (s'\<lparr>mem := m\<rparr>) = Some (s'\<lparr>mem := m, space := sp\<rparr>) \<and>
    ImmixBlock_line_object_mark T m (ImmixBlock_get_block_ptr a) a (blocks s' (ImmixBlock_get_block_ptr a)) = Some blk \<and>
    marked_state T nlm C s (insert a M)
      (s'\<lparr>mem := m, space := sp, blocks := (blocks s')(ImmixBlock_get_block_ptr a := blk)\<rparr>)"
proof -
  let ?b = "ImmixBlock_get_block_ptr a" and ?m = "s'\<lparr>mem := m\<rparr>"
  obtain bm' hdr' where s': "s' = s\<lparr>space := (space s)\<lparr>bitmap := bm'\<rparr>, blocks := hdr', mem := marked_mem nlm M (mem s)\<rparr>"
    and hdr': "\<forall>b. \<exists>lm. hdr' b = (blocks s b)\<lparr>line_map := lm\<rparr>" "\<forall>b. b \<notin># C \<longrightarrow> hdr' b = blocks s b"
    and lines: "\<And>b l. line_marked (hdr' b) l \<longleftrightarrow> marked_lines T s M b l"
    using st by (auto simp: marked_state_def)
  have ok: "immix_ok C s'" using st by (rule marked_state_space)
  have "a \<in> block_bytes ?b" using a(4) by (auto simp: object_in_block_def)
  note inside = collector_object_inside [OF ok a(3) this]
  have okm: "immix_ok C ?m" using ok by (simp add: immix_ok_mem)
  obtain bm where bm: "on_space (ImmixSpace_set_gc_object a) ?m = Some (?m\<lparr>space := (space ?m)\<lparr>bitmap := bm\<rparr>\<rparr>)"
    "immix_ok C (?m\<lparr>space := (space ?m)\<lparr>bitmap := bm\<rparr>\<rparr>)"
    "avail_bytes (?m\<lparr>space := (space ?m)\<lparr>bitmap := bm\<rparr>\<rparr>) = avail_bytes ?m"
    "gc_objects ((space ?m)\<lparr>bitmap := bm\<rparr>) = insert a (gc_objects (space ?m))"
    using set_gc_object_spec [OF okm, of a] inside a(2) by auto
  have valid: "block_valid (blocks s' b)" for b using ok by (simp add: immix_ok_def space_ok_def)
  obtain lm where lm: "ImmixBlock_line_object_mark T m ?b a (blocks s' ?b) = Some ((blocks s' ?b)\<lparr>line_map := lm\<rparr>)"
    "LineMap_valid lm" "\<And>j. LineMap_marked lm j = (j \<in> object_lines a (object_size T (mem s) a) \<or> line_marked (blocks s' ?b) j)"
    using line_object_mark_spec [OF valid [of ?b], of ?b a T m] a(4) sz by auto
  define hdr where "hdr = (blocks s')(?b := (blocks s' ?b)\<lparr>line_map := lm\<rparr>)"
  let ?n = "?m\<lparr>space := (space ?m)\<lparr>bitmap := bm\<rparr>\<rparr>"
  have "line_map (hdr b) = line_map (blocks ?n b)" if "b \<notin># C" for b using that a(3) by (auto simp: hdr_def)
  moreover have "block_valid (hdr b)" for b using valid [of b] lm(2) by (simp add: hdr_def)
  ultimately have new: "immix_ok C (?n\<lparr>blocks := hdr\<rparr>)" "avail_bytes (?n\<lparr>blocks := hdr\<rparr>) = avail_bytes ?n"
    using immix_ok_headers [OF bm(2)] by blast+
  have eq: "?n\<lparr>blocks := hdr\<rparr>
      = s\<lparr>space := (space s)\<lparr>bitmap := bm\<rparr>, blocks := hdr, mem := marked_mem nlm (insert a M) (mem s)\<rparr>"
    by (simp add: s' m)
  have "\<exists>l. hdr b = (blocks s b)\<lparr>line_map := l\<rparr>" for b
    using hdr'(1) [rule_format, of b] by (auto simp: hdr_def s')
  moreover have "\<forall>b. b \<notin># C \<longrightarrow> hdr b = blocks s b" using hdr'(2) a(3) by (auto simp: hdr_def s')
  moreover have "line_marked (hdr b) l \<longleftrightarrow> marked_lines T s (insert a M) b l" for b l
    using lines [of b l] lm(3) [of l] a(1) by (auto simp: hdr_def s' marked_lines_def)
  moreover have "gc_objects (space (?n\<lparr>blocks := hdr\<rparr>)) = gc_objects (space s) \<union> {x \<in> insert a M. ImmixSpace_filter_fast (space s) x}"
    using bm(4) st a(1) by (auto simp: marked_state_def)
  moreover have "avail_bytes (?n\<lparr>blocks := hdr\<rparr>) = avail_bytes s"
    using new(2) bm(3) st by (simp add: immix_ok_mem marked_state_def)
  ultimately have "marked_state T nlm C s (insert a M) (?n\<lparr>blocks := hdr\<rparr>)"
    using new(1) unfolding marked_state_def
    by (intro conjI exI [of _ bm] exI [of _ hdr] eq) auto
  then show ?thesis
    using bm(1) lm(1) unfolding hdr_def by (intro exI [of _ "(space ?m)\<lparr>bitmap := bm\<rparr>"] exI conjI) auto
qed

lemma mark_outside:
  assumes st: "marked_state T nlm C s M s'" and a: "\<not> ImmixSpace_filter_fast (space s) a"
  shows "marked_state T nlm C s (insert a M) (s'\<lparr>mem := marked_mem nlm (insert a M) (mem s)\<rparr>)"
proof -
  have "{x \<in> insert a M. ImmixSpace_filter_fast (space s) x} = {x \<in> M. ImmixSpace_filter_fast (space s) x}"
    "marked_lines T s (insert a M) = marked_lines T s M"
    using a by (auto simp: marked_lines_def fun_eq_iff)
  moreover obtain bm hdr where "s' = s\<lparr>space := (space s)\<lparr>bitmap := bm\<rparr>, blocks := hdr, mem := marked_mem nlm M (mem s)\<rparr>"
    "\<forall>b. \<exists>lm. hdr b = (blocks s b)\<lparr>line_map := lm\<rparr>" "\<forall>b. b \<notin># C \<longrightarrow> hdr b = blocks s b"
    using st by (auto simp: marked_state_def)
  ultimately show ?thesis using st unfolding marked_state_def
    by (intro conjI exI [of _ bm] exI [of _ hdr]) (auto simp: immix_ok_mem)
qed

lemma mark_object_new:
  assumes g: "heap_graph T nlm Obj (mem s)" and pl: "objects_placed T C Obj s"
    and M: "M \<subseteq> Obj" and st: "marked_state T nlm C s M s'" and a: "a \<in> Obj" "a \<notin> M"
  shows "\<exists>s''. mark_object T nlm False a (queue, v, s') = Some
      (queue @ filter (\<lambda>c. c \<notin> insert a M) (children T (mem s) a), v + object_size T (mem s) a, s'') \<and>
    marked_state T nlm C s (insert a M) s''"
proof -
  define m where "m = marked_mem nlm (insert a M) (mem s)"
  let ?b = "ImmixBlock_get_block_ptr a"
  note sp = marked_state_space [OF st]
  have ga: "\<not> RawGc_is_forwarded (RawGc_at (mem s) a)" "RawGc_get_mark (RawGc_at (mem s) a) \<noteq> nlm"
    "set (slots T (mem s) a) \<inter> Obj = {}" "set (children T (mem s) a) \<subseteq> Obj" using g a(1) by (auto simp: heap_graph_def)
  have iM: "insert a M \<subseteq> Obj" using M a(1) by simp
  have stable: "slots T m a = slots T (mem s) a" "object_size T m a = object_size T (mem s) a"
    using g tag_variant_marked [OF iM, of "mem s" nlm] a(1) by (auto simp: heap_graph_def rtti_stable_def m_def)
  have at: "RawGc_at (mem s') a = RawGc_at (mem s) a" using a(2) by (simp add: sp(2) RawGc_at_marked_mem)
  have hd: "put_header a (snd (RawGc_mark (RawGc_at (mem s) a) nlm)) (mem s') = m"
    using marked_mem_insert [OF a(2)] by (simp add: sp(2) m_def)
  have "\<exists>s1. record_object T a (s'\<lparr>mem := m\<rparr>) = Some s1 \<and> marked_state T nlm C s (insert a M) s1"
  proof (cases "ImmixSpace_filter_fast (space s) a")
    case True
    then have pa: "16 dvd a" "?b \<in># C" "object_in_block ?b a (object_size T (mem s) a)"
      using pl a(1) by (auto simp: objects_placed_def)
    obtain sp' blk where "on_space (ImmixSpace_set_gc_object a) (s'\<lparr>mem := m\<rparr>) = Some (s'\<lparr>mem := m, space := sp'\<rparr>)"
      "ImmixBlock_line_object_mark T m ?b a (blocks s' ?b) = Some blk"
      "marked_state T nlm C s (insert a M) (s'\<lparr>mem := m, space := sp', blocks := (blocks s')(?b := blk)\<rparr>)"
      using mark_in_space [OF st stable(2) m_def True pa] by blast
    then show ?thesis using True sp(1) by (simp add: record_object_def)
  next
    case False
    then show ?thesis using mark_outside [OF st False] sp(1) by (simp add: m_def record_object_def)
  qed
  then obtain s1 where s1: "record_object T a (s'\<lparr>mem := m\<rparr>) = Some s1" "marked_state T nlm C s (insert a M) s1" by blast
  have mem1: "mem s1 = m" using marked_state_space(2) [OF s1(2)] by (simp add: m_def)
  have "for_each (Visitor_trace T nlm False) (slots T (mem s) a) (queue, s1)
      = Some (queue @ filter (\<lambda>c. c \<notin> insert a M) (map (\<lambda>r. unat (mem s r)) (slots T (mem s) a)), s1)"
    by (rule trace_slots [OF g iM]) (use ga(3,4) mem1 in \<open>auto simp: m_def children_def\<close>)
  moreover have "visit_references (RawGc_rtti T (RawGc_at m a)) m a = slots T (mem s) a"
    using stable(1) by (simp add: slots_def)
  ultimately have "mark_object T nlm False a (queue, v, s') = Some
      (queue @ filter (\<lambda>c. c \<notin> insert a M) (children T (mem s) a), v + object_size T (mem s) a, s1)"
    using s1(1) mem1 stable(2) ga(2)
    by (simp add: mark_object_def split_beta at hd children_def Let_def)
  then show ?thesis using s1(2) by blast
qed

section \<open>The loop\<close>

lemma mark_loop_simps [simp]:
  "mark_loop T nlm defrag [] v s = Some (v, s)"
  "mark_loop T nlm defrag (a # queue) v s = do {
     (queue, v, s) \<leftarrow> mark_object T nlm defrag a (queue, v, s); mark_loop T nlm defrag queue v s }"
  by (subst mark_loop.simps, simp)+

lemma sum_remove_insert:
  fixes f :: "'a \<Rightarrow> nat"
  assumes "finite A" "a \<in> A" "a \<notin> M"
  shows "(\<Sum>x \<in> A - M. f x) = f a + (\<Sum>x \<in> A - insert a M. f x)"
proof -
  have "(\<Sum>x \<in> A - M. f x) = f a + (\<Sum>x \<in> A - M - {a}. f x)" using assms by (intro sum.remove) auto
  moreover have "A - M - {a} = A - insert a M" by auto
  ultimately show ?thesis by simp
qed

lemma mark_loop_spec:
  assumes g: "heap_graph T nlm Obj (mem s)" and pl: "objects_placed T C Obj s"
    and M: "M \<subseteq> Obj" "set queue \<subseteq> Obj" and st: "marked_state T nlm C s M s'"
    and closed: "\<forall>a \<in> M. set (children T (mem s) a) \<subseteq> M \<union> set queue"
    and reach: "M \<union> set queue \<subseteq> reachable T (mem s) R" "R \<subseteq> M \<union> set queue"
  shows "\<exists>s''. mark_loop T nlm False queue v s'
      = Some (v + (\<Sum>a \<in> reachable T (mem s) R - M. object_size T (mem s) a), s'') \<and>
    marked_state T nlm C s (reachable T (mem s) R) s''"
  using M st closed reach
proof (induction "card (Obj - M)" arbitrary: M queue v s' rule: less_induct)
  case less
  note IH = less.hyps
  from less.prems show ?case
  proof (induction queue)
    case Nil
    then have "reachable T (mem s) R \<subseteq> M" using reachable_least [of R M T "mem s"] by auto
    then have "reachable T (mem s) R = M" using Nil.prems(5) by auto
    then show ?case using Nil.prems(3) by simp
  next
    case (Cons a queue)
    show ?case
    proof (cases "a \<in> M")
      case True
      then have "mark_object T nlm False a (queue, v, s') = Some (queue, v, s')"
        using mark_object_again [OF g True Cons.prems(3)] by simp
      moreover have "\<forall>x \<in> M. set (children T (mem s) x) \<subseteq> M \<union> set queue" "R \<subseteq> M \<union> set queue"
        using Cons.prems(4,6) True by auto
      ultimately show ?thesis using Cons.IH Cons.prems by simp
    next
      case False
      have a: "a \<in> Obj" using Cons.prems(2) by simp
      let ?q = "queue @ filter (\<lambda>c. c \<notin> insert a M) (children T (mem s) a)"
      obtain s1 where s1: "mark_object T nlm False a (queue, v, s') = Some (?q, v + object_size T (mem s) a, s1)"
        "marked_state T nlm C s (insert a M) s1"
        using mark_object_new [OF g pl Cons.prems(1,3) a False] by blast
      have fin: "finite Obj" using g by (simp add: heap_graph_def)
      have less: "card (Obj - insert a M) < card (Obj - M)"
        using fin a False by (intro psubset_card_mono) auto
      have ch: "set (children T (mem s) a) \<subseteq> Obj" "set (children T (mem s) a) \<subseteq> reachable T (mem s) R"
        using g a Cons.prems(5) by (auto simp: heap_graph_def intro: reachable.child)
      have q: "set ?q \<subseteq> Obj" "insert a M \<subseteq> Obj" "insert a M \<union> set ?q \<subseteq> reachable T (mem s) R" "R \<subseteq> insert a M \<union> set ?q"
        using Cons.prems ch a by auto
      have closed: "\<forall>x \<in> insert a M. set (children T (mem s) x) \<subseteq> insert a M \<union> set ?q"
        using Cons.prems(4) by auto
      obtain s2 where s2: "mark_loop T nlm False ?q (v + object_size T (mem s) a) s1
          = Some (v + object_size T (mem s) a + (\<Sum>x \<in> reachable T (mem s) R - insert a M. object_size T (mem s) x), s2)"
        "marked_state T nlm C s (reachable T (mem s) R) s2"
        using IH [OF less q(2,1) s1(2) closed q(3,4)] by blast
      have sub: "reachable T (mem s) R \<subseteq> Obj"
        using reachable_least [of R Obj T "mem s"] Cons.prems(1,2,6) g by (auto simp: heap_graph_def)
      have "a \<in> reachable T (mem s) R" using Cons.prems(5) by auto
      then show ?thesis using s1(1) s2 sum_remove_insert [OF finite_subset [OF sub fin] _ False] by (simp add: add.assoc)
    qed
  qed
qed

text \<open>The precise roots of a collection that does not move objects.\<close>

lemma precise_roots_spec:
  assumes g: "heap_graph T nlm Obj (mem s)" and rs: "\<forall>r \<in> set rs. unat (mem s r) \<in> Obj"
  shows "for_each (precise_root T ImmixCollection) rs (queue, s)
    = Some (queue @ map (\<lambda>r. unat (mem s r)) rs, s)"
  using rs
proof (induction rs arbitrary: queue)
  case (Cons r rs)
  have "\<not> RawGc_is_forwarded (RawGc_at (mem s) (unat (mem s r)))"
    using g Cons.prems by (simp add: heap_graph_def)
  then have "precise_root T ImmixCollection r (queue, s) = Some (queue @ [unat (mem s r)], s)"
    by (simp add: precise_root_def vec_push_def Let_def)
  then show ?case using Cons by simp
qed simp

lemma immix_collect_marks:
  assumes ok: "immix_ok C s" and g: "heap_graph T nlm Obj (mem s)" and pl: "objects_placed T C Obj s"
    and roots: "set roots \<subseteq> Obj" "\<forall>r \<in> set precise_roots. unat (mem s r) \<in> Obj"
    and R: "R = set roots \<union> (\<lambda>r. unat (mem s r)) ` set precise_roots"
  shows "\<exists>s'. ImmixCollector_collect T ImmixCollection roots precise_roots nlm s
      = Some (\<Sum>a \<in> reachable T (mem s) R. object_size T (mem s) a, s') \<and>
    marked_state T nlm C s (reachable T (mem s) R) s'"
proof -
  let ?q = "roots @ map (\<lambda>r. unat (mem s r)) precise_roots"
  have q: "set ?q = R" by (simp add: R)
  then have "set ?q \<subseteq> Obj" "{} \<union> set ?q \<subseteq> reachable T (mem s) R" using roots by (auto simp: R intro: reachable.root)
  then obtain s' where "mark_loop T nlm False ?q 0 s
      = Some (0 + (\<Sum>a \<in> reachable T (mem s) R - {}. object_size T (mem s) a), s')"
    "marked_state T nlm C s (reachable T (mem s) R) s'"
    using mark_loop_spec [OF g pl _ _ marked_state_start [OF ok], of ?q R 0] q by auto
  then show ?thesis
    using precise_roots_spec [OF g roots(2), of roots]
    by (simp add: ImmixCollector_collect_def)
qed

section \<open>The sweep of the blocks\<close>

definition empty_block :: "ImmixBlock \<Rightarrow> bool" where
  "empty_block blk \<longleftrightarrow> (\<forall>l. \<not> line_marked blk l)"

definition full_block :: "ImmixBlock \<Rightarrow> bool" where
  "full_block blk \<longleftrightarrow> (\<forall>l < 256. line_marked blk l)"

definition partial_block :: "ImmixBlock \<Rightarrow> bool" where
  "partial_block blk \<longleftrightarrow> \<not> empty_block blk \<and> \<not> full_block blk"

lemma runs_zero_iff: "(\<Sum>n\<leftarrow>unmarked_runs ts. (n + 1) div 2) = 0 \<longleftrightarrow> (\<forall>t \<in> set ts. t)"
  by (induction ts rule: unmarked_runs.induct) auto

definition holes_of :: "ImmixBlock \<Rightarrow> nat" where
  "holes_of blk = (\<Sum>n\<leftarrow>unmarked_runs (map (line_marked blk) [0..<256]). (n + 1) div 2)"

lemma holes_of_zero: "holes_of blk = 0 \<longleftrightarrow> full_block blk"
  unfolding holes_of_def runs_zero_iff full_block_def by auto

lemma full_not_empty: "full_block blk \<Longrightarrow> \<not> empty_block blk"
  by (auto simp: full_block_def empty_block_def intro: exI [of _ 0])

text \<open>The header of a block after the sweep.\<close>

definition swept_header :: "ImmixBlock \<Rightarrow> ImmixBlock" where
  "swept_header blk = (if empty_block blk then ImmixBlock_reset blk else blk\<lparr>hole_count := holes_of blk\<rparr>)"

lemma swept_header_simps [simp]:
  "line_marked (swept_header blk) = line_marked blk" "block_valid (swept_header blk) = block_valid blk"
  by (auto simp: swept_header_def empty_block_def fun_eq_iff)

lemma sweep_block_eq:
  assumes "block_valid (hdr b)"
  shows "\<exists>hist'. sweep_block V b ((u, r, f), hist, hdr)
    = Some ((u @ filter (\<lambda>b. full_block (hdr b)) [b], r @ filter (\<lambda>b. partial_block (hdr b)) [b],
             f @ filter (\<lambda>b. empty_block (hdr b)) [b]), hist', hdr(b := swept_header (hdr b)))"
proof (cases "empty_block (hdr b)")
  case True
  then show ?thesis using assms full_not_empty [of "hdr b"]
    by (auto simp: sweep_block_def is_empty_eq empty_block_def partial_block_def swept_header_def vec_push_def)
next
  case False
  then have "ImmixBlock_is_empty b (hdr b) = Some False" using assms by (simp add: is_empty_eq empty_block_def)
  moreover have "ImmixBlock_count_holes b (hdr b) = Some (holes_of (hdr b), swept_header (hdr b))"
    using assms False by (simp add: count_holes_eq holes_of_def swept_header_def Let_def)
  moreover have "ImmixBlock_count_holes_and_marked_lines b (swept_header (hdr b))
      = Some (holes_of (hdr b), length (filter (line_marked (hdr b)) [0..<256]))"
  proof -
    have "hole_count (swept_header (hdr b)) = holes_of (hdr b)" using False by (simp add: swept_header_def)
    then show ?thesis using count_lines_eq(1) [of "swept_header (hdr b)" b] assms by simp
  qed
  ultimately show ?thesis using False holes_of_zero [of "hdr b"]
    by (auto simp: sweep_block_def partial_block_def vec_push_def)
qed

lemma sweep_blocks_eq:
  assumes "distinct bs" "\<forall>b. block_valid (hdr b)"
  shows "\<exists>hist'. for_each (sweep_block V) bs ((u, r, f), hist, hdr)
    = Some ((u @ filter (\<lambda>b. full_block (hdr b)) bs, r @ filter (\<lambda>b. partial_block (hdr b)) bs,
             f @ filter (\<lambda>b. empty_block (hdr b)) bs), hist',
            (\<lambda>b. if b \<in> set bs then swept_header (hdr b) else hdr b))"
  using assms
proof (induction bs arbitrary: u r f hist hdr)
  case (Cons b bs)
  define h where "h = hdr(b := swept_header (hdr b))"
  obtain hist1 where one: "sweep_block V b ((u, r, f), hist, hdr)
    = Some ((u @ filter (\<lambda>b. full_block (hdr b)) [b], r @ filter (\<lambda>b. partial_block (hdr b)) [b],
             f @ filter (\<lambda>b. empty_block (hdr b)) [b]), hist1, h)"
    using sweep_block_eq [of hdr b V u r f hist] Cons.prems unfolding h_def by blast
  have same: "filter (\<lambda>c. P (h c)) bs = filter (\<lambda>c. P (hdr c)) bs" for P
    using Cons.prems(1) by (auto simp: h_def intro: filter_cong)
  have fun_eq: "(\<lambda>c. if c \<in> set bs then swept_header (h c) else h c)
      = (\<lambda>c. if c \<in> set (b # bs) then swept_header (hdr c) else hdr c)"
    using Cons.prems(1) by (auto simp: h_def fun_eq_iff)
  have "distinct bs" "\<forall>c. block_valid (h c)" using Cons.prems by (auto simp: h_def)
  note IH = Cons.IH [OF this, of "u @ filter (\<lambda>b. full_block (hdr b)) [b]" "r @ filter (\<lambda>b. partial_block (hdr b)) [b]"
        "f @ filter (\<lambda>b. empty_block (hdr b)) [b]" hist1]
  have join: "xs @ filter P (b # bs) = (xs @ filter P [b]) @ filter P bs" for xs P by simp
  show ?case using IH unfolding same fun_eq join for_each.simps one bind.bind_lunit .
qed simp

lemma sweep_all_blocks_eq:
  assumes "distinct (all_blocks c)" "\<forall>b. block_valid (hdr b)"
  shows "\<exists>hist. Collector_sweep_all_blocks V c hdr
    = Some ((filter (\<lambda>b. partial_block (hdr b)) (all_blocks c), filter (\<lambda>b. empty_block (hdr b)) (all_blocks c)),
        c\<lparr>all_blocks := filter (\<lambda>b. full_block (hdr b)) (all_blocks c), mark_histogram := hist\<rparr>,
        (\<lambda>b. if b \<in> set (all_blocks c) then swept_header (hdr b) else hdr b))"
  using sweep_blocks_eq [OF assms, of V "[]" "[]" "[]" "mark_histogram c"]
  by (auto simp: Collector_sweep_all_blocks_def)

lemma block_partition:
  "mset (filter (\<lambda>b. full_block (hdr b)) bs) + mset (filter (\<lambda>b. partial_block (hdr b)) bs) +
     mset (filter (\<lambda>b. empty_block (hdr b)) bs) = mset bs"
  using full_not_empty by (induction bs) (auto simp: partial_block_def)

lemma hand_distinct:
  assumes "space_ok (mset bs) s"
  shows "distinct bs"
proof -
  let ?u = "used_blocks (block_allocator (space s))"
  have "mset bs \<subseteq># mset_set ?u" using assms by (metis mset_subset_eq_add_right space_ok_def)
  then have le: "count (mset bs) x \<le> 1" for x
    using mset_subset_eq_count [of "mset bs" "mset_set ?u" x] by (metis (no_types) count_mset_set' le_trans less_one nat_le_linear not_less)
  have "count (mset bs) x = (if x \<in> set bs then 1 else 0)" for x
  proof (cases "x \<in> set bs")
    case True
    then have "0 < count (mset bs) x" by (simp add: count_greater_zero_iff)
    then have "count (mset bs) x = 1" using le [of x] by linarith
    then show ?thesis using True by simp
  qed (simp add: not_in_iff [symmetric])
  then show ?thesis by (simp add: distinct_count_atmost_1)
qed

text \<open>The end of a collection: the blocks are given back and the bytes that become available.\<close>

text \<open>The state after a sweep with the recyclable blocks \<open>rs\<close>, the free blocks \<open>fs\<close>, of which \<open>n\<close> go to the evacuation headroom, and the headers \<open>hdr\<close>.\<close>

definition swept_state :: "nat \<Rightarrow> usize list \<Rightarrow> usize list \<Rightarrow> block_map \<Rightarrow> heap_state \<Rightarrow> heap_state" where
  "swept_state n rs fs hdr s = s\<lparr>space := (space s)\<lparr>allocator := NormalAllocator_set_recyclable_blocks rs (allocator (space s)),
     evac_allocator := EvacAllocator_extend_evac_headroom (take n fs) (evac_allocator (space s)),
     block_allocator := BlockAllocator_return_blocks (drop n fs) (block_allocator (space s))\<rparr>, blocks := hdr\<rparr>"

lemma swept_state_simps [simp]:
  "block_allocator (space (swept_state n rs fs hdr s)) = BlockAllocator_return_blocks (drop n fs) (block_allocator (space s))"
  "blocks (swept_state n rs fs hdr s) = hdr" "self_id (swept_state n rs fs hdr s) = self_id s" "threads (swept_state n rs fs hdr s) = threads s"
  "bitmap (space (swept_state n rs fs hdr s)) = bitmap (space s)" "mem (swept_state n rs fs hdr s) = mem s"
  "n_recyclable_blocks (allocator (space (swept_state n rs fs hdr s))) = rs"
  by (simp_all add: swept_state_def NormalAllocator_set_recyclable_blocks_def)

lemma finish_assets:
  assumes ok: "space_ok (mset (bs)) s" and empty: "n_recyclable_blocks (allocator (space s)) = []"
    and hdr: "\<And>b. b \<notin> set (bs) \<Longrightarrow> hdr b = blocks s b"
  shows "assets hdr (swept_state n rs fs hdr s) = assets (blocks s) s + image_mset (\<lambda>b. (b, hole_bytes (hdr b) b 0)) (mset rs) +
      image_mset (\<lambda>b. (b, {b + LINE_SIZE..<b + BLOCK_SIZE})) (mset (take n fs))"
proof -
  have "assets hdr s = assets (blocks s) s"
  proof (rule assets_cong)
    fix b B assume "(b, B) \<in># assets (blocks s) s"
    then have "b \<notin> set (bs)" using space_ok_asset(2) [OF ok] by simp
    then show "line_map (hdr b) = line_map (blocks s b)" using hdr by simp
  qed
  then show ?thesis
    using empty by (simp add: swept_state_def assets_def normal_assets_def evac_assets_def NormalAllocator_set_recyclable_blocks_def
        EvacAllocator_extend_evac_headroom_def ac_simps)
qed

text \<open>Every block still has one owner: what was in hand is now full, recyclable, in the headroom or free.\<close>

lemma finish_owners:
  assumes ok: "space_ok (mset bs) s" and empty: "n_recyclable_blocks (allocator (space s)) = []"
    and hdr: "\<And>b. b \<notin> set bs \<Longrightarrow> hdr b = blocks s b" and part: "mset us + mset rs + mset fs = mset bs"
    and dis: "distinct fs"
  shows "block_allocator_ok (BlockAllocator_return_blocks (drop n fs) (block_allocator (space s)))"
    and "image_mset fst (assets hdr (swept_state n rs fs hdr s)) + mset us
      = mset_set (used_blocks (BlockAllocator_return_blocks (drop n fs) (block_allocator (space s))))"
proof -
  let ?ba = "block_allocator (space s)"
  have baok: "block_allocator_ok ?ba" and eq: "image_mset fst (assets (blocks s) s) + mset bs = mset_set (used_blocks ?ba)"
    using ok by (auto simp: space_ok_def)
  have "mset fs \<subseteq># mset bs" unfolding part [symmetric] by simp
  then have "set fs \<subseteq> set bs" using set_mset_mono by fastforce
  then have sub: "set (drop n fs) \<subseteq> used_blocks ?ba" "distinct (drop n fs)"
    using space_ok_hand [OF ok] set_drop_subset [of n fs] dis by auto
  note ret = return_blocks_spec [OF baok sub]
  show "block_allocator_ok (BlockAllocator_return_blocks (drop n fs) ?ba)" by (rule ret(1))
  have fin: "finite (used_blocks ?ba)" by (simp add: used_blocks_def)
  have split: "mset fs = mset (take n fs) + mset (drop n fs)" by (metis append_take_drop_id mset_append)
  have "image_mset fst (assets hdr (swept_state n rs fs hdr s)) + mset us + mset (drop n fs) = mset_set (used_blocks ?ba)"
    unfolding eq [symmetric] part [symmetric] split using finish_assets [where n = n and rs = rs and fs = fs, OF ok empty hdr]
    by (simp add: multiset.map_comp o_def)
  moreover have "mset_set (used_blocks ?ba) = mset_set (used_blocks (BlockAllocator_return_blocks (drop n fs) ?ba)) + mset (drop n fs)"
    using sub fin mset_set_Diff [OF fin sub(1)] mset_set_set [OF sub(2)]
      subset_imp_msubset_mset_set [OF sub(1) fin] by (simp add: ret(2))
  ultimately show "image_mset fst (assets hdr (swept_state n rs fs hdr s)) + mset us
      = mset_set (used_blocks (BlockAllocator_return_blocks (drop n fs) ?ba))" by simp
qed

lemma finish_avail:
  assumes ok: "space_ok (mset bs) s" and empty: "n_recyclable_blocks (allocator (space s)) = []"
    and hdr: "\<And>b. b \<notin> set bs \<Longrightarrow> hdr b = blocks s b" and hb: "\<And>b. hole_bytes (hdr b) b 0 = hole_bytes (blocks s b) b 0"
  shows "avail_bytes (swept_state n rs fs hdr s) \<subseteq> avail_bytes s \<union> (\<Union>b \<in> set rs. hole_bytes (blocks s b) b 0) \<union> (\<Union>b \<in> set fs. block_bytes b)"
proof -
  have "{b + LINE_SIZE..<b + BLOCK_SIZE} \<subseteq> block_bytes b" for b by auto
  then have "\<Union>(snd ` set_mset (assets hdr (swept_state n rs fs hdr s))) \<subseteq> \<Union>(snd ` set_mset (assets (blocks s) s)) \<union>
      (\<Union>b \<in> set rs. hole_bytes (blocks s b) b 0) \<union> (\<Union>b \<in> set fs. block_bytes b)"
    using set_take_subset [of n fs] finish_assets [where n = n and rs = rs and fs = fs, OF ok empty hdr] by (force simp: hb)
  moreover have "reserve_bytes (BlockAllocator_return_blocks (drop n fs) (block_allocator (space s)))
      \<subseteq> reserve_bytes (block_allocator (space s)) \<union> (\<Union>b \<in> set fs. block_bytes b)"
    using set_drop_subset [of n fs] by (auto simp: return_blocks_eq reserve_bytes_def)
  ultimately show ?thesis by (auto simp: avail_bytes_def)
qed

lemma finish_collection_run:
  assumes "space_ok (mset (all_blocks c)) s"
  shows "\<exists>hist. finish_collection V c s =
    Some (c\<lparr>all_blocks := filter (\<lambda>b. full_block (blocks s b)) (all_blocks c), mark_histogram := hist\<rparr>,
      swept_state (EVAC_HEADROOM - length (e_evac_headroom (evac_allocator (space s))))
        (filter (\<lambda>b. partial_block (blocks s b)) (all_blocks c)) (filter (\<lambda>b. empty_block (blocks s b)) (all_blocks c))
        (\<lambda>b. if b \<in> set (all_blocks c) then swept_header (blocks s b) else blocks s b) s)"
proof -
  have "length (e_evac_headroom (evac_allocator (space s))) \<le> EVAC_HEADROOM" "\<forall>b. block_valid (blocks s b)"
    using assms by (auto simp: space_ok_def currents_ok_def)
  then show ?thesis
    using sweep_all_blocks_eq [of "c\<lparr>mark_histogram := vm_clear V (mark_histogram c)\<rparr>" "blocks s" V] hand_distinct [OF assms]
    by (auto simp: finish_collection_def USE_EVACUATION_def ImmixSpace_evac_headroom_def EvacAllocator_evac_headroom_def
        ImmixSpace_set_recyclable_blocks_def ImmixSpace_extend_evac_headroom_def ImmixSpace_return_blocks_def Let_def swept_state_def)
qed

lemma finish_collection_spec:
  assumes ok: "immix_ok (mset (all_blocks c)) s" and empty: "n_recyclable_blocks (allocator (space s)) = []"
  shows "\<exists>c' s'. finish_collection V c s = Some (c', s') \<and> immix_ok (mset (all_blocks c')) s' \<and>
    all_blocks c' = filter (\<lambda>b. full_block (blocks s b)) (all_blocks c) \<and>
    n_recyclable_blocks (allocator (space s')) = filter (\<lambda>b. partial_block (blocks s b)) (all_blocks c) \<and>
    mem s' = mem s \<and> bitmap (space s') = bitmap (space s) \<and> threads s' = threads s \<and> self_id s' = self_id s \<and>
    avail_bytes s' \<subseteq> avail_bytes s \<union>
      (\<Union>b \<in> set (filter (\<lambda>b. partial_block (blocks s b)) (all_blocks c)). hole_bytes (blocks s b) b 0) \<union>
      (\<Union>b \<in> set (filter (\<lambda>b. empty_block (blocks s b)) (all_blocks c)). block_bytes b)"
proof -
  let ?us = "filter (\<lambda>b. full_block (blocks s b)) (all_blocks c)" and ?rs = "filter (\<lambda>b. partial_block (blocks s b)) (all_blocks c)"
    and ?fs = "filter (\<lambda>b. empty_block (blocks s b)) (all_blocks c)" and ?n = "EVAC_HEADROOM - length (e_evac_headroom (evac_allocator (space s)))"
  define hdr where "hdr = (\<lambda>b. if b \<in> set (all_blocks c) then swept_header (blocks s b) else blocks s b)"
  let ?s = "swept_state ?n ?rs ?fs hdr s"
  have sok: "space_ok (mset (all_blocks c)) s" and bok: "bitmap_ok (space s)" using ok by (auto simp: immix_ok_def)
  have valid: "\<forall>b. block_valid (hdr b)" and hb: "hole_bytes (hdr b) b 0 = hole_bytes (blocks s b) b 0"
    and out: "b \<notin> set (all_blocks c) \<Longrightarrow> hdr b = blocks s b" for b
    using sok by (simp_all add: hdr_def space_ok_def hole_bytes_def)
  have "currents_ok ?s"
    using sok by (auto simp: space_ok_def currents_ok_def swept_state_def NormalAllocator_set_recyclable_blocks_def
        EvacAllocator_extend_evac_headroom_def)
  moreover have "bitmap_ok (space ?s)" using bok by (auto simp: bitmap_ok_def return_blocks_eq)
  ultimately have "immix_ok (mset ?us) ?s"
    using sok valid finish_owners [OF sok empty out block_partition, where n = ?n] hand_distinct [OF sok] by (simp add: immix_ok_def space_ok_def)
  moreover obtain hist where "finish_collection V c s = Some (c\<lparr>all_blocks := ?us, mark_histogram := hist\<rparr>, ?s)"
    using finish_collection_run [OF sok, of V] unfolding hdr_def by blast
  ultimately show ?thesis using finish_avail [OF sok empty out hb, where n = ?n and rs = ?rs and fs = ?fs] by auto
qed

section \<open>Clearing the marks of the last cycle\<close>

lemma clear_block_spec:
  assumes ok: "immix_ok C s" and b: "b \<in># C"
  shows "\<exists>s'. clear_block b s = Some s' \<and> immix_ok C s' \<and> avail_bytes s' = avail_bytes s \<and> mem s' = mem s \<and>
    allocator (space s') = allocator (space s) \<and>
    (\<forall>a. ImmixSpace_filter_fast (space s') a = ImmixSpace_filter_fast (space s) a) \<and>
    gc_objects (space s') = gc_objects (space s) - block_bytes b \<and>
    (\<forall>b' l. line_marked (blocks s' b') l \<longleftrightarrow> b' \<noteq> b \<and> line_marked (blocks s b') l)"
proof -
  let ?bm = "bitmap (space s)" and ?ba = "block_allocator (space s)"
  have bm: "heap_begin ?bm = mmap_start (mmap ?ba)" "16 dvd heap_begin ?bm"
    "data_bound ?ba \<le> heap_begin ?bm + 16 * bitmap_cells ?bm"
    using ok by (auto simp: immix_ok_def bitmap_ok_def)
  have dvd: "BLOCK_SIZE dvd b" using hand_not_available [of C s b] ok b by (auto simp: immix_ok_def)
  have pos: "0 < BLOCK_SIZE" "16 dvd BLOCK_SIZE" by (simp_all add: BLOCK_SIZE_def)
  have in1: "heap_begin ?bm < b" using collector_object_inside(1) [OF ok b, of b] bm(1) pos by simp
  have "b + (BLOCK_SIZE - 1) \<in> block_bytes b" using pos(1) by simp
  then have in2: "b + BLOCK_SIZE \<le> data_bound ?ba"
    using collector_object_inside(2) [OF ok b, of "b + (BLOCK_SIZE - 1)"] pos(1) by linarith
  define i where "i = (b - heap_begin ?bm) div 16"
  have "16 dvd b - heap_begin ?bm" using dvd_trans [OF pos(2) dvd] bm(2) in1 by (intro dvd_diff_nat) auto
  then have b_eq: "b = heap_begin ?bm + i * 16" using in1 by (simp add: i_def)
  have e_eq: "b + BLOCK_SIZE = heap_begin ?bm + (i + 2048) * 16" using b_eq by (simp add: BLOCK_SIZE_def)
  have "(i + 2048) * 16 \<le> 16 * bitmap_cells ?bm" using e_eq in2 bm(3) by linarith
  then have "i + 2048 \<le> bitmap_cells ?bm" by simp
  then obtain ws where ws: "SpaceBitmap_clear_range 16 ?bm b (b + BLOCK_SIZE) = Some (?bm\<lparr>mem_map := ws\<rparr>)"
    "length ws = length (mem_map ?bm)" "\<And>j. words_bit ws j = (\<not> (i \<le> j \<and> j < i + 2048) \<and> SpaceBitmap_marked ?bm j)"
    using clear_range_cells [of 16 i "i + 2048" ?bm, folded b_eq e_eq] by auto
  define hdr where "hdr = (blocks s)(b := (blocks s b)\<lparr>line_map := LineMap_clear_all (line_map (blocks s b))\<rparr>)"
  let ?n = "s\<lparr>space := (space s)\<lparr>bitmap := ?bm\<lparr>mem_map := ws\<rparr>\<rparr>\<rparr>"
  have "assets (blocks s) ?n = assets (blocks s) s" by (simp add: assets_def)
  then have n: "immix_ok C ?n" "avail_bytes ?n = avail_bytes s"
    using ok ws(2) by (auto simp: immix_ok_def space_ok_def bitmap_ok_def currents_ok_def avail_bytes_def)
  have valid: "block_valid (blocks s x)" for x using ok by (simp add: immix_ok_def space_ok_def)
  have "line_map (hdr x) = line_map (blocks ?n x)" if "x \<notin># C" for x using that b by (auto simp: hdr_def)
  moreover have "block_valid (hdr x)" for x using valid by (simp add: hdr_def)
  ultimately have h: "immix_ok C (?n\<lparr>blocks := hdr\<rparr>)" "avail_bytes (?n\<lparr>blocks := hdr\<rparr>) = avail_bytes s"
    using immix_ok_headers [OF n(1), of hdr] n(2) by auto
  have "clear_block b s = Some (?n\<lparr>blocks := hdr\<rparr>)" using ws(1) by (simp add: clear_block_def hdr_def Let_def)
  moreover have "gc_objects ((space s)\<lparr>bitmap := ?bm\<lparr>mem_map := ws\<rparr>\<rparr>) = gc_objects (space s) - block_bytes b"
  proof -
    have "heap_begin ?bm + j * 16 \<in> block_bytes b \<longleftrightarrow> i \<le> j \<and> j < i + 2048" for j
      using b_eq e_eq by auto
    moreover have "SpaceBitmap_marked (?bm\<lparr>mem_map := ws\<rparr>) j = (\<not> (i \<le> j \<and> j < i + 2048) \<and> SpaceBitmap_marked ?bm j)" for j
      using ws(3) by (simp add: SpaceBitmap_marked_def)
    ultimately show ?thesis by (force simp: gc_objects_def)
  qed
  moreover have "line_marked (hdr b') l \<longleftrightarrow> b' \<noteq> b \<and> line_marked (blocks s b') l" for b' l by (simp add: hdr_def)
  ultimately show ?thesis using h by (intro exI [of _ "?n\<lparr>blocks := hdr\<rparr>"]) simp
qed

lemma clear_blocks_spec:
  assumes "immix_ok C s" and "set bs \<subseteq> set_mset C"
  shows "\<exists>s'. for_each clear_block bs s = Some s' \<and> immix_ok C s' \<and> avail_bytes s' = avail_bytes s \<and> mem s' = mem s \<and>
    allocator (space s') = allocator (space s) \<and>
    (\<forall>a. ImmixSpace_filter_fast (space s') a = ImmixSpace_filter_fast (space s) a) \<and>
    gc_objects (space s') = gc_objects (space s) - (\<Union>b \<in> set bs. block_bytes b) \<and>
    (\<forall>b l. line_marked (blocks s' b) l \<longleftrightarrow> b \<notin> set bs \<and> line_marked (blocks s b) l)"
  using assms
proof (induction bs arbitrary: s)
  case (Cons b bs)
  obtain s1 where s1: "clear_block b s = Some s1" "immix_ok C s1" "avail_bytes s1 = avail_bytes s" "mem s1 = mem s"
    "allocator (space s1) = allocator (space s)"
    "\<forall>a. ImmixSpace_filter_fast (space s1) a = ImmixSpace_filter_fast (space s) a"
    "gc_objects (space s1) = gc_objects (space s) - block_bytes b"
    "\<forall>b' l. line_marked (blocks s1 b') l \<longleftrightarrow> b' \<noteq> b \<and> line_marked (blocks s b') l"
    using clear_block_spec [OF Cons.prems(1), of b] Cons.prems(2) by auto
  obtain s' where s': "for_each clear_block bs s1 = Some s'" "immix_ok C s'" "avail_bytes s' = avail_bytes s1" "mem s' = mem s1"
    "allocator (space s') = allocator (space s1)"
    "\<forall>a. ImmixSpace_filter_fast (space s') a = ImmixSpace_filter_fast (space s1) a"
    "gc_objects (space s') = gc_objects (space s1) - (\<Union>b \<in> set bs. block_bytes b)"
    "\<forall>b' l. line_marked (blocks s' b') l \<longleftrightarrow> b' \<notin> set bs \<and> line_marked (blocks s1 b') l"
    using Cons.IH [OF s1(2)] Cons.prems(2) by auto
  have "gc_objects (space s') = gc_objects (space s) - (\<Union>b \<in> set (b # bs). block_bytes b)"
    unfolding s'(7) s1(7) by auto
  then show ?case using s1 s' by auto
qed simp

section \<open>A whole collection\<close>

lemma object_safe_in_block:
  assumes lines: "\<forall>l \<in> object_lines a sz. line_marked (hdr b) l" and ob: "object_in_block b a sz"
    and b': "BLOCK_SIZE dvd b'"
  shows "{a..<a + sz} \<inter> hole_bytes (hdr b') b' 0 = {}" "empty_block (hdr b') \<Longrightarrow> {a..<a + sz} \<inter> block_bytes b' = {}"
proof -
  have inb: "{a..<a + sz} \<subseteq> block_bytes b" using ob by (auto simp: object_in_block_def)
  have dis: "{a..<a + sz} \<inter> block_bytes b' = {}" if "b' \<noteq> b"
    using blocks_disjoint [of b b'] ob b' that inb by (auto simp: object_in_block_def)
  show "{a..<a + sz} \<inter> hole_bytes (hdr b') b' 0 = {}"
  proof (cases "b' = b")
    case True
    then show ?thesis using object_byte_marked [OF lines ob] unfolding hole_bytes_def by fastforce
  next
    case False
    then show ?thesis using dis hole_bytes_inside by blast
  qed
  show "{a..<a + sz} \<inter> block_bytes b' = {}" if "empty_block (hdr b')"
  proof (cases "b' = b")
    case True
    then have "ImmixBlock_object_to_line_num a \<notin> object_lines a sz" using that lines by (auto simp: empty_block_def)
    then show ?thesis by simp
  qed (use dis in blast)
qed

lemma disjoint_cover: "X \<subseteq> A \<union> B \<union> C \<Longrightarrow> Y \<inter> A = {} \<Longrightarrow> Y \<inter> B = {} \<Longrightarrow> Y \<inter> C = {} \<Longrightarrow> Y \<inter> X = {}"
  by blast

text \<open>The bytes of an object with marked lines are in none of the holes and free blocks that a sweep makes available.\<close>

lemma marked_object_unavailable:
  assumes ok: "immix_ok (mset bs) s" and b: "ImmixBlock_get_block_ptr a \<in> set bs"
    and ob: "object_in_block (ImmixBlock_get_block_ptr a) a n"
    and lines: "\<forall>l \<in> object_lines a n. line_marked (hdr (ImmixBlock_get_block_ptr a)) l"
    and cover: "A \<subseteq> avail_bytes s \<union> (\<Union>b \<in> set (filter (\<lambda>b. partial_block (hdr b)) bs). hole_bytes (hdr b) b 0) \<union>
      (\<Union>b \<in> set (filter (\<lambda>b. empty_block (hdr b)) bs). block_bytes b)"
  shows "{a..<a + n} \<inter> A = {}"
proof -
  have dvd: "BLOCK_SIZE dvd b'" if "b' \<in> set bs" for b' using hand_not_available [of "mset bs" s b'] ok that by (auto simp: immix_ok_def)
  have "{a..<a + n} \<inter> hole_bytes (hdr b') b' 0 = {}" if "b' \<in> set bs" for b'
    by (rule object_safe_in_block(1) [where hdr = hdr, OF lines ob dvd [OF that]])
  then have holes: "{a..<a + n} \<inter> (\<Union>b \<in> set (filter (\<lambda>b. partial_block (hdr b)) bs). hole_bytes (hdr b) b 0) = {}" by auto
  have "{a..<a + n} \<inter> block_bytes b' = {}" if "b' \<in> set bs" "empty_block (hdr b')" for b'
    by (rule object_safe_in_block(2) [where hdr = hdr, OF lines ob dvd [OF that(1)] that(2)])
  then have free: "{a..<a + n} \<inter> (\<Union>b \<in> set (filter (\<lambda>b. empty_block (hdr b)) bs). block_bytes b) = {}" unfolding set_filter by blast
  have "{a..<a + n} \<subseteq> block_bytes (ImmixBlock_get_block_ptr a)" using ob by (auto simp: object_in_block_def)
  moreover have "block_bytes (ImmixBlock_get_block_ptr a) \<inter> avail_bytes s = {}"
    using hand_not_available [of "mset bs" s "ImmixBlock_get_block_ptr a"] ok b by (simp add: immix_ok_def)
  ultimately have "{a..<a + n} \<inter> avail_bytes s = {}" by blast
  then show ?thesis using disjoint_cover [OF cover _ holes free] by blast
qed

lemma los_sweep_returns:
  assumes "los_ok los mh"
  shows "\<exists>n los' mh' m'. LargeObjectSpace_sweep T (los, mh, m) = Some (n, los', mh', m')"
proof -
  have "distinct (allocations los)" using assms by (simp add: los_ok_def)
  then show ?thesis using sweep_retain_spec [of "allocations los" mh T m] los_ok_adjusted [OF assms] by (auto simp: LargeObjectSpace_sweep_def)
qed

lemma collect_spec:
  assumes ok: "immix_ok (mset (all_blocks c)) s" and rec: "n_recyclable_blocks (allocator (space s)) = []"
    and g: "heap_graph T nlm Obj (mem s)" and pl: "objects_placed T (mset (all_blocks c)) Obj s"
    and roots: "set roots \<subseteq> Obj" "\<forall>r \<in> set precise_roots. unat (mem s r) \<in> Obj"
    and R: "R = set roots \<union> (\<lambda>r. unat (mem s r)) ` set precise_roots" and los: "los_ok los mh"
  shows "\<exists>c' s' los' mh'. Collector_collect V T ImmixCollection roots precise_roots nlm (c, s, los, mh)
      = Some (\<Sum>a \<in> reachable T (mem s) R. object_size T (mem s) a, c', s', los', mh') \<and>
    immix_ok (mset (all_blocks c')) s' \<and>
    (\<forall>a \<in> reachable T (mem s) R. ImmixSpace_filter_fast (space s) a \<longrightarrow>
       {a..<a + object_size T (mem s) a} \<inter> avail_bytes s' = {}) \<and>
    gc_objects (space s') = gc_objects (space s) - (\<Union>b \<in> set (all_blocks c). block_bytes b)
      \<union> {a \<in> reachable T (mem s) R. ImmixSpace_filter_fast (space s) a}"
proof -
  let ?C = "mset (all_blocks c)"
  let ?L = "reachable T (mem s) R"
  obtain s1 where s1: "for_each clear_block (all_blocks c) s = Some s1" "immix_ok ?C s1" "avail_bytes s1 = avail_bytes s"
    "mem s1 = mem s" "allocator (space s1) = allocator (space s)"
    "\<forall>a. ImmixSpace_filter_fast (space s1) a = ImmixSpace_filter_fast (space s) a"
    "gc_objects (space s1) = gc_objects (space s) - (\<Union>b \<in> set (all_blocks c). block_bytes b)"
    using clear_blocks_spec [OF ok, of "all_blocks c"] by auto
  have pl1: "objects_placed T ?C Obj s1" using pl s1(4,6) by (simp add: objects_placed_def)
  obtain s2 where s2: "ImmixCollector_collect T ImmixCollection roots precise_roots nlm s1
      = Some (\<Sum>a \<in> ?L. object_size T (mem s) a, s2)" and st: "marked_state T nlm ?C s1 ?L s2"
    using immix_collect_marks [OF s1(2) _ pl1 roots(1), of nlm precise_roots R] g roots(2) R unfolding s1(4) by blast
  have ok2: "immix_ok ?C s2" and av2: "avail_bytes s2 = avail_bytes s"
    and gc2: "gc_objects (space s2) = gc_objects (space s1) \<union> {a \<in> ?L. ImmixSpace_filter_fast (space s) a}"
    and alloc2: "allocator (space s2) = allocator (space s)"
    using st s1(3,5,6) by (auto simp: marked_state_def)
  obtain c' s3 where s3: "finish_collection V c s2 = Some (c', s3)" "immix_ok (mset (all_blocks c')) s3"
    "bitmap (space s3) = bitmap (space s2)" and av3: "avail_bytes s3 \<subseteq> avail_bytes s2 \<union>
      (\<Union>b \<in> set (filter (\<lambda>b. partial_block (blocks s2 b)) (all_blocks c)). hole_bytes (blocks s2 b) b 0) \<union>
      (\<Union>b \<in> set (filter (\<lambda>b. empty_block (blocks s2 b)) (all_blocks c)). block_bytes b)"
    using finish_collection_spec [OF ok2, of V] alloc2 rec by auto
  obtain n los' mh' m' where sweep: "LargeObjectSpace_sweep T (los, mh, mem s3) = Some (n, los', mh', m')"
    using los_sweep_returns [OF los] by blast
  let ?s = "s3\<lparr>mem := m'\<rparr>"
  have "{a..<a + object_size T (mem s) a} \<inter> avail_bytes ?s = {}" if a: "a \<in> ?L" "ImmixSpace_filter_fast (space s) a" for a
  proof (rule marked_object_unavailable [OF ok])
    have "?L \<subseteq> Obj" using reachable_least [of R Obj T "mem s"] roots R g by (auto simp: heap_graph_def)
    then show "ImmixBlock_get_block_ptr a \<in> set (all_blocks c)" "object_in_block (ImmixBlock_get_block_ptr a) a (object_size T (mem s) a)"
      using pl a by (auto simp: objects_placed_def)
    show "\<forall>l \<in> object_lines a (object_size T (mem s) a). line_marked (blocks s2 (ImmixBlock_get_block_ptr a)) l"
      using st a s1(4,6) by (auto simp: marked_state_def marked_lines_def)
  qed (use av3 av2 in \<open>simp add: immix_ok_mem\<close>)
  moreover have "gc_objects (space ?s) = gc_objects (space s) - (\<Union>b \<in> set (all_blocks c). block_bytes b)
      \<union> {a \<in> ?L. ImmixSpace_filter_fast (space s) a}"
    using gc2 s1(7) s3(3) by (simp add: gc_objects_def)
  moreover have "immix_ok (mset (all_blocks c')) ?s" using s3(2) by (simp add: immix_ok_mem)
  moreover have "Collector_collect V T ImmixCollection roots precise_roots nlm (c, s, los, mh)
      = Some (\<Sum>a \<in> ?L. object_size T (mem s) a, c', ?s, los', mh')"
    using s1(1) s2 s3(1) sweep by (simp add: Collector_collect_def)
  ultimately show ?thesis by blast
qed

section \<open>Properties\<close>

text \<open>C3: In a collection that does not move objects, tracing always ends without a panic. It marks exactly the objects
  that are reachable from the conservative and the precise roots: their headers change in the mark bit and no
  other word of memory changes, the bits of the bitmap and the lines of the blocks that are set in addition are
  exactly theirs, and the result is the sum of their sizes.\<close>

theorem marking_exact:
  assumes "immix_ok C s" and "heap_graph T nlm Obj (mem s)" and "objects_placed T C Obj s"
    and "set roots \<subseteq> Obj" "\<forall>r \<in> set precise_roots. unat (mem s r) \<in> Obj"
    and "R = set roots \<union> (\<lambda>r. unat (mem s r)) ` set precise_roots"
  shows "\<exists>s'. ImmixCollector_collect T ImmixCollection roots precise_roots nlm s
      = Some (\<Sum>a \<in> reachable T (mem s) R. object_size T (mem s) a, s') \<and> immix_ok C s' \<and>
    mem s' = marked_mem nlm (reachable T (mem s) R) (mem s) \<and>
    (\<forall>a \<in> Obj. RawGc_get_mark (RawGc_at (mem s') a) = nlm \<longleftrightarrow> a \<in> reachable T (mem s) R) \<and>
    gc_objects (space s') = gc_objects (space s) \<union> {a \<in> reachable T (mem s) R. ImmixSpace_filter_fast (space s) a} \<and>
    (\<forall>b l. line_marked (blocks s' b) l \<longleftrightarrow> line_marked (blocks s b) l \<or>
       (\<exists>a \<in> reachable T (mem s) R. ImmixSpace_filter_fast (space s) a \<and> ImmixBlock_get_block_ptr a = b \<and>
          l \<in> object_lines a (object_size T (mem s) a)))"
proof -
  obtain s' where s': "ImmixCollector_collect T ImmixCollection roots precise_roots nlm s
      = Some (\<Sum>a \<in> reachable T (mem s) R. object_size T (mem s) a, s')"
    and st: "marked_state T nlm C s (reachable T (mem s) R) s'"
    using immix_collect_marks [OF assms] by blast
  have mem: "mem s' = marked_mem nlm (reachable T (mem s) R) (mem s)" using st by (rule marked_state_space)
  have "\<forall>a \<in> Obj. RawGc_get_mark (RawGc_at (mem s') a) = nlm \<longleftrightarrow> a \<in> reachable T (mem s) R"
    using assms(2) by (auto simp: mem RawGc_at_marked_mem heap_graph_def)
  then show ?thesis
    using s' st mem by (intro exI [of _ s']) (simp add: marked_state_def marked_lines_def)
qed

text \<open>The heap of two blocks of the witnesses holds a live and a dead object.\<close>

lemma sample_rtti_simps [simp]: "slots sample_rtti m a = []" "object_size sample_rtti m a = 16"
  by (simp_all add: slots_def object_size_def RawGc_rtti_def sample_rtti_def align_usize_def)

lemma evac_heap_graph: "heap_graph sample_rtti True {98432, 98448} (mem evac_heap)"
  by (auto simp: heap_graph_def rtti_stable_def children_def evac_heap_def sample_heap_def RawGc_at_def
      RawGc_is_forwarded_def RawGc_get_mark_def TaggedPointer_bit_is_set_def bit_is_set_def one_shl_def)

lemma evac_heap_fast: "ImmixSpace_filter_fast (space evac_heap) a \<longleftrightarrow> 65536 < a \<and> a \<le> 589824"
  by (simp add: ImmixSpace_filter_fast_def BlockAllocator_is_in_space_def evac_heap_def sample_heap_def
      ImmixSpace_new_def BlockAllocator_new_def Mmap_new_def)

lemma evac_heap_placed: "objects_placed sample_rtti {#98304#} {98432, 98448} evac_heap"
  by (simp add: objects_placed_def ImmixBlock_get_block_ptr_def object_in_block_def BLOCK_SIZE_def)

lemma evac_heap_reachable: "reachable sample_rtti m {98432} = {98432}"
proof
  show "reachable sample_rtti m {98432} \<subseteq> {98432}" by (rule reachable_least) (simp_all add: children_def)
qed (auto intro: reachable.root)

lemma evac_heap_roots:
  "set [98432] \<subseteq> {98432, 98448::usize}" "\<forall>r \<in> set []. unat (mem evac_heap r) \<in> {98432, 98448}"
  "{98432::usize} = set [98432] \<union> (\<lambda>r. unat (mem evac_heap r)) ` set []"
  by simp_all

theorem marking_exact_witness:
  "\<exists>s'. ImmixCollector_collect sample_rtti ImmixCollection [98432] [] True evac_heap = Some (16, s') \<and>
     RawGc_get_mark (RawGc_at (mem s') 98432) \<and> \<not> RawGc_get_mark (RawGc_at (mem s') 98448)"
proof -
  obtain s' where s': "ImmixCollector_collect sample_rtti ImmixCollection [98432] [] True evac_heap
      = Some (\<Sum>a \<in> reachable sample_rtti (mem evac_heap) {98432}. object_size sample_rtti (mem evac_heap) a, s')"
    and marks: "\<forall>a \<in> {98432, 98448}. RawGc_get_mark (RawGc_at (mem s') a) = True \<longleftrightarrow>
      a \<in> reachable sample_rtti (mem evac_heap) {98432}"
    using marking_exact [OF evac_heap_ok evac_heap_graph evac_heap_placed evac_heap_roots] by blast
  then show ?thesis by (intro exI [of _ s']) (simp add: evac_heap_reachable)
qed



text \<open>C16: The sweep divides the blocks of the collector: blocks without a marked line are reset and freed, blocks with
  marked and unmarked lines become recyclable with a hole count that is not zero, blocks with every line marked
  stay with the collector. No block is lost or duplicated and no line map of a block in use changes.\<close>

theorem sweep_partitions_blocks:
  assumes "distinct (all_blocks c)" and "\<forall>b. block_valid (hdr b)"
  shows "\<exists>rs fs c' hdr'. Collector_sweep_all_blocks V c hdr = Some ((rs, fs), c', hdr') \<and>
    mset (all_blocks c') + mset rs + mset fs = mset (all_blocks c) \<and>
    set fs = {b \<in> set (all_blocks c). \<forall>l. \<not> line_marked (hdr b) l} \<and>
    set (all_blocks c') = {b \<in> set (all_blocks c). \<forall>l < 256. line_marked (hdr b) l} \<and>
    (\<forall>b \<in> set fs. hdr' b = ImmixBlock_reset (hdr b)) \<and> (\<forall>b \<in> set rs. 0 < hole_count (hdr' b)) \<and>
    (\<forall>b \<in> set rs \<union> set (all_blocks c'). line_map (hdr' b) = line_map (hdr b)) \<and>
    (\<forall>b. b \<notin> set (all_blocks c) \<longrightarrow> hdr' b = hdr b)"
proof -
  define bs rs fs us where "bs = all_blocks c" and "rs = filter (\<lambda>b. partial_block (hdr b)) (all_blocks c)"
    and "fs = filter (\<lambda>b. empty_block (hdr b)) (all_blocks c)" and "us = filter (\<lambda>b. full_block (hdr b)) (all_blocks c)"
  define hdr' where "hdr' = (\<lambda>b. if b \<in> set bs then swept_header (hdr b) else hdr b)"
  obtain hist where run: "Collector_sweep_all_blocks V c hdr = Some ((rs, fs), c\<lparr>all_blocks := us, mark_histogram := hist\<rparr>, hdr')"
    using sweep_all_blocks_eq [OF assms, of V] unfolding bs_def rs_def fs_def us_def hdr'_def by blast
  have "mset us + mset rs + mset fs = mset bs" unfolding us_def rs_def fs_def bs_def by (rule block_partition)
  moreover have "set fs = {b \<in> set bs. \<forall>l. \<not> line_marked (hdr b) l}" "set us = {b \<in> set bs. \<forall>l < 256. line_marked (hdr b) l}"
    by (auto simp: fs_def us_def bs_def empty_block_def full_block_def)
  moreover have "\<forall>b \<in> set fs. hdr' b = ImmixBlock_reset (hdr b)" by (auto simp: fs_def hdr'_def bs_def swept_header_def)
  moreover have "\<forall>b \<in> set rs. 0 < hole_count (hdr' b)"
    using holes_of_zero by (auto simp: rs_def hdr'_def bs_def swept_header_def partial_block_def)
  moreover have "\<forall>b \<in> set rs \<union> set us. line_map (hdr' b) = line_map (hdr b)"
    using full_not_empty by (auto simp: rs_def us_def hdr'_def bs_def swept_header_def partial_block_def)
  moreover have "\<forall>b. b \<notin> set bs \<longrightarrow> hdr' b = hdr b" by (simp add: hdr'_def)
  ultimately show ?thesis using run unfolding bs_def
    by (intro exI [of _ rs] exI [of _ fs] exI [of _ "c\<lparr>all_blocks := us, mark_histogram := hist\<rparr>"] exI [of _ hdr']) simp
qed

theorem sweep_partitions_blocks_witness:
  "\<exists>rs fs c' hdr'. Collector_sweep_all_blocks map_VecMap
      \<lparr>all_blocks = [32768, 65536], mark_histogram = (\<lambda>_. None)\<rparr> (\<lambda>_. ImmixBlock_new) = Some ((rs, fs), c', hdr') \<and>
    set fs = {32768, 65536}"
proof -
  let ?c = "\<lparr>all_blocks = [32768, 65536], mark_histogram = (\<lambda>_. None)\<rparr> :: (usize \<Rightarrow> usize option) Collector"
  have pre: "distinct (all_blocks ?c)" "\<forall>b::usize. block_valid ((\<lambda>_. ImmixBlock_new) b)" by simp_all
  show ?thesis using sweep_partitions_blocks [OF pre, of map_VecMap]
  proof (elim exE conjE, goal_cases)
    case (1 rs fs c' hdr')
    have "set fs = {32768, 65536}" using 1(3) by auto
    then show ?case by (intro exI [of _ rs] exI [of _ fs] exI [of _ c'] exI [of _ hdr'] conjI 1(1))
  qed
qed

end
