(* ===== verification/Evacuation.thy ===== *)
theory Evacuation
  imports Marking
begin

text \<open>
  How the collector decides to evacuate and what evacuation does while it traces: the hole threshold, the choice of
  the candidates, and the missing forwarding pointer of \<open>Visitor::trace\<close>.
\<close>

section \<open>Histograms and the threshold\<close>

definition histogram_at :: "'m VecMap \<Rightarrow> 'm \<Rightarrow> usize \<Rightarrow> usize" where
  "histogram_at V m k = (case vm_get V m k of Some n \<Rightarrow> n | None \<Rightarrow> 0)"

lemma histogram_at_new: "VecMap_laws V \<Longrightarrow> histogram_at V (vm_new V) k = 0"
  by (simp add: VecMap_laws_def histogram_at_def)

lemma histogram_at_add:
  assumes "VecMap_laws V"
  shows "histogram_at V (histogram_add V k n m) j = histogram_at V m j + (if j = k then n else 0)"
proof -
  have get: "vm_get V (vm_insert V k v m) j = (if j = k then Some v else vm_get V m j)" for v
    using assms unfolding VecMap_laws_def by blast
  have "vm_contains_key V m k = (vm_get V m k \<noteq> None)" using assms unfolding VecMap_laws_def by blast
  then show ?thesis
    by (cases "vm_get V m k") (auto simp: histogram_add_def histogram_at_def get)
qed

definition free_lines :: "ImmixBlock \<Rightarrow> nat" where
  "free_lines blk = length (filter (\<lambda>i. \<not> line_marked blk i) [0..<256])"

lemma available_histogram_spec:
  assumes V: "VecMap_laws V" and valid: "\<forall>b. block_valid (hdr b)"
  shows "\<exists>m'. for_each (\<lambda>block m. do {
         (holes, free_lines) \<leftarrow> ImmixBlock_count_holes_and_available_lines block (hdr block);
         Some (histogram_add V holes free_lines m) }) bs m = Some m' \<and>
    (\<forall>j. histogram_at V m' j = histogram_at V m j +
       (\<Sum>b \<leftarrow> filter (\<lambda>b. hole_count (hdr b) = j) bs. free_lines (hdr b)))"
proof (induction bs arbitrary: m)
  case (Cons b bs)
  have "ImmixBlock_count_holes_and_available_lines b (hdr b) = Some (hole_count (hdr b), free_lines (hdr b))"
    using count_lines_eq(2) [of "hdr b" b] valid by (simp add: free_lines_def)
  then show ?case
    using Cons.IH [of "histogram_add V (hole_count (hdr b)) (free_lines (hdr b)) m"] histogram_at_add [OF V]
    by (auto simp: add.assoc)
qed simp

lemma find_threshold_spec:
  assumes "k \<le> 256"
  shows "\<exists>t \<le> 256. find_threshold V marks available [k..<256] req av = t \<and> k \<le> t \<and>
    (t < 256 \<longrightarrow> av \<le> req + (\<Sum>j = k..t. histogram_at V marks j + histogram_at V available j)) \<and>
    (\<forall>i. k \<le> i \<and> i < t \<longrightarrow> req + (\<Sum>j = k..i. histogram_at V marks j + histogram_at V available j) < av)"
  using assms
proof (induction "256 - k" arbitrary: k req av)
  case 0
  then show ?case by (auto simp: NUM_LINES_PER_BLOCK_def BLOCK_SIZE_def LINE_SIZE_def)
next
  case (Suc d)
  let ?M = "histogram_at V marks" and ?A = "histogram_at V available"
  have k: "k < 256" "[k..<256] = k # [Suc k..<256]" using Suc.hyps(2) by (auto simp: upt_conv_Cons)
  show ?case
  proof (cases "av - ?A k \<le> req + ?M k")
    case True
    then show ?thesis using k(1) by (intro exI [of _ k]) (auto simp: k(2) histogram_at_def Let_def)
  next
    case False
    obtain t where t: "t \<le> 256" "find_threshold V marks available [Suc k..<256] (req + ?M k) (av - ?A k) = t" "Suc k \<le> t"
      "t < 256 \<Longrightarrow> av - ?A k \<le> req + ?M k + (\<Sum>j = Suc k..t. ?M j + ?A j)"
      "\<And>i. Suc k \<le> i \<Longrightarrow> i < t \<Longrightarrow> req + ?M k + (\<Sum>j = Suc k..i. ?M j + ?A j) < av - ?A k"
    proof -
      have "d = 256 - Suc k" "Suc k \<le> 256" using Suc.hyps(2) k(1) by auto
      from Suc.hyps(1) [OF this, of "req + ?M k" "av - ?A k"] show thesis using that by blast
    qed
    have sum: "(\<Sum>j = k..i. ?M j + ?A j) = ?M k + ?A k + (\<Sum>j = Suc k..i. ?M j + ?A j)" if "k \<le> i" for i
      using that by (simp add: sum.atLeast_Suc_atMost)
    have "find_threshold V marks available [k..<256] req av = t"
      using False t(2) by (simp add: k(2) histogram_at_def Let_def)
    moreover have "req + (\<Sum>j = k..i. ?M j + ?A j) < av" if "k \<le> i" "i < t" for i
      using False t(5) [of i] that sum [of i] by (cases "i = k") auto
    moreover have "t < 256 \<Longrightarrow> av \<le> req + (\<Sum>j = k..t. ?M j + ?A j)" using t(3,4) sum [of t] by auto
    ultimately show ?thesis using t(1,3) by (intro exI [of _ t]) auto
  qed
qed

lemma set_candidates_eq:
  assumes "\<And>blk e. p (blk\<lparr>evacuation_candidate := e\<rparr>) = p blk"
  shows "set_candidates p bs hdr b = (if b \<in> set bs then (hdr b)\<lparr>evacuation_candidate := p (hdr b)\<rparr> else hdr b)"
  by (induction bs arbitrary: hdr) (auto simp: set_candidates_def assms)

lemma threshold_spec:
  assumes "VecMap_laws V" and "\<forall>b. block_valid (hdr b)"
    and "lines = (\<lambda>j. histogram_at V (mark_histogram c) j +
      (\<Sum>b \<leftarrow> filter (\<lambda>b. hole_count (hdr b) = j) (all_blocks c). free_lines (hdr b)))"
  shows "\<exists>t \<le> 256. Collector_establish_hole_threshhold V hdr evac_headroom c = Some t \<and>
    (t < 256 \<longrightarrow> evac_headroom * 255 \<le> (\<Sum>j = 0..t. lines j)) \<and>
    (\<forall>k < t. (\<Sum>j = 0..k. lines j) < evac_headroom * 255) \<and> (evac_headroom = 0 \<longrightarrow> t = 0)"
proof -
  obtain m where m: "for_each (\<lambda>block m. do {
         (holes, free_lines) \<leftarrow> ImmixBlock_count_holes_and_available_lines block (hdr block);
         Some (histogram_add V holes free_lines m) }) (all_blocks c) (vm_new V) = Some m"
    "\<And>j. histogram_at V m j = (\<Sum>b \<leftarrow> filter (\<lambda>b. hole_count (hdr b) = j) (all_blocks c). free_lines (hdr b))"
    using available_histogram_spec [OF assms(1,2), of "all_blocks c" "vm_new V"] histogram_at_new [OF assms(1)] by auto
  have lines: "histogram_at V (mark_histogram c) j + histogram_at V m j = lines j" for j by (simp add: assms(3) m(2))
  obtain t where "t \<le> 256" "find_threshold V (mark_histogram c) m [0..<256] 0 (evac_headroom * 255) = t"
    "t < 256 \<longrightarrow> evac_headroom * 255 \<le> (\<Sum>j = 0..t. lines j)"
    "\<forall>i. i < t \<longrightarrow> (\<Sum>j = 0..i. lines j) < evac_headroom * 255"
    using find_threshold_spec [of 0 V "mark_histogram c" m 0 "evac_headroom * 255"] by (auto simp: lines)
  moreover from this have "evac_headroom = 0 \<longrightarrow> t = 0" by (cases t) auto
  ultimately show ?thesis
    using m(1) by (auto simp: Collector_establish_hole_threshhold_def NUM_LINES_PER_BLOCK_def BLOCK_SIZE_def LINE_SIZE_def Let_def)
qed

section \<open>Properties\<close>



text \<open>\<open>prepare_collection\<close> makes every block a candidate and asks for evacuation in an emergency; keeps everything as it
  is when evacuation is not wanted and a quarter of the blocks is available; and otherwise evacuates exactly when
  the threshold is positive, with the blocks that have at least that many holes as candidates. Without headroom
  a request to evacuate is refused.\<close>

lemma prepare_collection_choice:
  assumes "VecMap_laws V" and "\<forall>b. block_valid (hdr b)"
  shows "\<exists>ct hdr'. Collector_prepare_collection V evacuation available evac_headroom total_blocks emergency c hdr = Some (ct, hdr') \<and>
    (emergency \<longrightarrow> ct = ImmixEvacCollection \<and> (\<forall>b \<in> set (all_blocks c). evacuation_candidate (hdr' b))) \<and>
    (\<not> emergency \<and> \<not> evacuation \<and> total_blocks div 4 \<le> available + evac_headroom \<longrightarrow> ct = ImmixCollection \<and> hdr' = hdr) \<and>
    (\<not> emergency \<and> evac_headroom = 0 \<longrightarrow> ct = ImmixCollection \<and> hdr' = hdr) \<and>
    (\<not> emergency \<and> (evacuation \<or> available + evac_headroom < total_blocks div 4) \<longrightarrow>
      (\<exists>t. Collector_establish_hole_threshhold V hdr evac_headroom c = Some t \<and>
        (ct = ImmixEvacCollection \<longleftrightarrow> 0 < t) \<and>
        (0 < t \<longrightarrow> (\<forall>b \<in> set (all_blocks c). evacuation_candidate (hdr' b) \<longleftrightarrow> t \<le> hole_count (hdr b))))) \<and>
    (\<forall>b. line_map (hdr' b) = line_map (hdr b) \<and> hole_count (hdr' b) = hole_count (hdr b))"
proof -
  obtain t where t: "Collector_establish_hole_threshhold V hdr evac_headroom c = Some t" "evac_headroom = 0 \<longrightarrow> t = 0"
    using threshold_spec [OF assms refl, of evac_headroom c] by blast
  have all: "set_candidates (\<lambda>_. True) (all_blocks c) hdr b
      = (if b \<in> set (all_blocks c) then (hdr b)\<lparr>evacuation_candidate := True\<rparr> else hdr b)" for b
    by (rule set_candidates_eq) simp
  have some: "set_candidates (\<lambda>blk. t \<le> hole_count blk) (all_blocks c) hdr b
      = (if b \<in> set (all_blocks c) then (hdr b)\<lparr>evacuation_candidate := t \<le> hole_count (hdr b)\<rparr> else hdr b)" for b
    by (rule set_candidates_eq) simp
  show ?thesis
  proof (cases emergency)
    case True
    then show ?thesis by (simp add: Collector_prepare_collection_def USE_EVACUATION_def all)
  next
    case False
    then show ?thesis using t
      by (simp add: Collector_prepare_collection_def USE_EVACUATION_def EVAC_TRIGGER_of_def Let_def some)
  qed
qed

section \<open>Evacuation during tracing\<close>

text \<open>One traced slot whose object is evacuated.\<close>

lemma trace_evacuates:
  assumes "unat (mem s r) = child" "\<not> RawGc_is_forwarded (RawGc_at (mem s) child)"
    "RawGc_get_mark (RawGc_at (mem s) child) \<noteq> nlm" "ImmixSpace_filter_fast (space s) child"
    "ImmixSpace_maybe_evacuate T child s = Some (Some n, s')"
  shows "Visitor_trace T nlm True r (queue, s) = Some (queue @ [n], s'\<lparr>mem := (mem s')(r := of_nat n)\<rparr>)"
  using assms by (simp add: Visitor_trace_def Let_def vec_push_def)

lemma evacuated_object:
  assumes "immix_ok C s" "0 < object_size T (mem s) a" "object_size T (mem s) a \<le> LARGE_OBJECT"
    and "ImmixSpace_maybe_evacuate T a s = Some (Some n, s')"
  shows "immix_ok C s'" "{n..<n + object_size T (mem s) a} \<subseteq> avail_bytes s"
    "avail_bytes s' \<subseteq> avail_bytes s - {n..<n + object_size T (mem s) a}"
    "mem s' = copy_nonoverlapping a n (object_size T (mem s) a) (mem s)"
    "ImmixSpace_filter_fast (space s') = ImmixSpace_filter_fast (space s)"
  using maybe_evacuate_spec [OF assms(1-3)] assms(4) by auto

text \<open>C26: \<open>Visitor::trace\<close> leaves no forwarding pointer in an object that it evacuates. When a second slot refers to the same
  object, the object is still unmarked and not forwarded, so it is evacuated again: the two slots, which
  referred to one object, then refer to two different copies.\<close>

theorem trace_evacuates_twice:
  assumes ok: "immix_ok C s" and sz: "0 < object_size T (mem s) child" "object_size T (mem s) child \<le> LARGE_OBJECT"
    and fixed_size: "\<forall>m. RawGc_at m child = RawGc_at (mem s) child \<longrightarrow> object_size T m child = object_size T (mem s) child"
    and slots: "unat (mem s r1) = child" "unat (mem s r2) = child" "r1 \<noteq> r2" "r1 \<noteq> child" "r2 \<noteq> child"
      "{r1, r2, child} \<inter> avail_bytes s = {}"
    and live: "\<not> RawGc_is_forwarded (RawGc_at (mem s) child)" "RawGc_get_mark (RawGc_at (mem s) child) \<noteq> nlm"
      "ImmixSpace_filter_fast (space s) child"
    and evac: "ImmixSpace_maybe_evacuate T child s = Some (Some n1, s1)"
  shows "\<exists>s2. Visitor_trace T nlm True r1 (queue, s) = Some (queue @ [n1], s2) \<and>
    (\<forall>n2 s3. ImmixSpace_maybe_evacuate T child s2 = Some (Some n2, s3) \<longrightarrow>
      (\<exists>s4. Visitor_trace T nlm True r2 (queue @ [n1], s2) = Some (queue @ [n1, n2], s4) \<and> n1 \<noteq> n2 \<and>
        mem s4 r1 = of_nat n1 \<and> mem s4 r2 = of_nat n2))"
proof -
  define sz where "sz = object_size T (mem s) child"
  let ?s2 = "s1\<lparr>mem := (mem s1)(r1 := of_nat n1)\<rparr>"
  note e1 = evacuated_object [OF ok sz evac, folded sz_def]
  have out1: "x \<notin> {n1..<n1 + sz}" if "x \<in> {r1, r2, child}" for x using e1(2) slots(6) that by blast
  have mem2: "mem ?s2 x = mem s x" if "x \<in> {r2, child}" for x
    using that out1 [of x] slots(3,4) copy_simps(2) [of x n1 sz child "mem s"] by (auto simp: e1(4))
  have at: "RawGc_at (mem ?s2) child = RawGc_at (mem s) child" using mem2 [of child] by (simp add: RawGc_at_def)
  have sz2: "object_size T (mem ?s2) child = sz" unfolding sz_def by (rule fixed_size [rule_format, OF at])
  have ok2: "immix_ok C ?s2" "avail_bytes ?s2 = avail_bytes s1" using e1(1) by (simp_all add: immix_ok_mem)
  have "\<exists>s4. Visitor_trace T nlm True r2 (queue @ [n1], ?s2) = Some (queue @ [n1, n2], s4) \<and> n1 \<noteq> n2 \<and>
        mem s4 r1 = of_nat n1 \<and> mem s4 r2 = of_nat n2"
    if again: "ImmixSpace_maybe_evacuate T child ?s2 = Some (Some n2, s3)" for n2 s3
  proof -
    have "0 < sz" "sz \<le> LARGE_OBJECT" using sz by (simp_all add: sz_def)
    note e2 = evacuated_object [OF ok2(1), of T child n2 s3, unfolded sz2, OF this again]
    have sub: "{n2..<n2 + sz} \<subseteq> avail_bytes s - {n1..<n1 + sz}" using e2(2) ok2(2) e1(3) by blast
    have "n2 \<in> {n2..<n2 + sz}" "n1 \<in> {n1..<n1 + sz}" using \<open>0 < sz\<close> by simp_all
    then have "n1 \<noteq> n2" using sub by blast
    moreover have "r1 \<notin> {n2..<n2 + sz}" using sub slots(6) by auto
    then have "mem s3 r1 = of_nat n1" by (simp add: e2(4) copy_simps(2))
    moreover have "Visitor_trace T nlm True r2 (queue @ [n1], ?s2)
        = Some ((queue @ [n1]) @ [n2], s3\<lparr>mem := (mem s3)(r2 := of_nat n2)\<rparr>)"
    proof (rule trace_evacuates)
      show "unat (mem ?s2 r2) = child" using mem2 [of r2] slots(2) by simp
      show "ImmixSpace_filter_fast (space ?s2) child" using live(3) e1(5) by simp
    qed (use live(1,2) at again in simp_all)
    ultimately show ?thesis using slots(3) by simp
  qed
  moreover have "Visitor_trace T nlm True r1 (queue, s) = Some (queue @ [n1], ?s2)"
    by (rule trace_evacuates) (use slots live evac in simp_all)
  ultimately show ?thesis by (intro exI [of _ ?s2] conjI) simp_all
qed

lemma evac_again:
  assumes "e_current_block (evac_allocator (space s)) = Some (131072, 144, 32767)"
  shows "\<exists>s'. Allocator_allocate Evac_ops blocks 16 s = Some (131216, s')"
  using assms
  by (simp add: Allocator_allocate_def Evac_ops_def EvacAllocator_take_current_block_def Let_def
      Allocator_scan_for_hole.simps Allocator_allocate_from_block_def align_usize_def ImmixBlock_offset_def as_u16_def)

theorem trace_evacuates_twice_witness:
  "\<exists>s2 s4. Visitor_trace sample_rtti True True 16 ([], evac_heap\<lparr>mem := (\<lambda>x. if x = 16 \<or> x = 24 then 98432 else 0)\<rparr>)
       = Some ([131200], s2) \<and>
     Visitor_trace sample_rtti True True 24 ([131200], s2) = Some ([131200, 131216], s4) \<and>
     mem s4 16 = 131200 \<and> mem s4 24 = 131216"
proof -
  define m where "m = (\<lambda>x::usize. if x = 16 \<or> x = 24 then 98432 else 0 :: u64)"
  let ?s = "evac_heap\<lparr>mem := m\<rparr>"
  have m: "m 16 = 98432" "m 24 = 98432" "m 98432 = 0" by (simp_all add: m_def)
  have ok: "immix_ok {#98304#} ?s" using evac_heap_ok by (simp add: immix_ok_mem)
  have sz: "0 < object_size sample_rtti (mem ?s) 98432" "object_size sample_rtti (mem ?s) 98432 \<le> LARGE_OBJECT"
    by (simp_all add: LARGE_OBJECT_def)
  obtain s1 where evac: "ImmixSpace_maybe_evacuate sample_rtti 98432 ?s = Some (Some 131200, s1)"
    and cur: "e_current_block (evac_allocator (space s1)) = Some (131072, 144, 32767)" "evacuation_candidate (blocks s1 98304)"
    using evac_heap_moves [of m, OF m(3)] by blast
  note e1 = evacuated_object [OF ok sz evac]
  let ?s2 = "s1\<lparr>mem := (mem s1)(16 := of_nat 131200)\<rparr>"
  have live: "\<not> RawGc_is_forwarded (RawGc_at (mem ?s) 98432)" "RawGc_get_mark (RawGc_at (mem ?s) 98432) \<noteq> True"
    by (simp_all add: m(3) RawGc_at_def RawGc_is_forwarded_def RawGc_get_mark_def TaggedPointer_bit_is_set_def
        bit_is_set_def one_shl_def)
  have fast: "ImmixSpace_filter_fast (space ?s) 98432" by (simp add: evac_heap_fast)
  have "Mmap_aligned (mmap (block_allocator (space ?s))) = 98304"
    by (simp add: evac_heap_def sample_heap_def ImmixSpace_new_def BlockAllocator_new_def Mmap_new_def Mmap_aligned_def BLOCK_SIZE_def)
  then have low: "16 \<notin> avail_bytes ?s" "24 \<notin> avail_bytes ?s"
    using avail_inside(1) [of "{#98304#}" ?s] ok by (force simp: immix_ok_def)+
  have "98432 \<in> {98432..<98432 + 16::usize}" by simp
  then have "98432 \<notin> avail_bytes ?s" using evac_heap_hand [of m] by blast
  then have out: "{16, 24, 98432} \<inter> avail_bytes ?s = {}" using low by blast
  have trace: "Visitor_trace sample_rtti True True 16 ([], ?s) = Some ([131200], ?s2)"
    using trace_evacuates [OF _ live fast evac, of 16 "[]"] m(1) by simp
  have "mem ?s2 98432 = 0" using copy_simps(2) [of 98432 131200 16 98432 m] m(3) by (simp add: e1(4))
  moreover have ok2: "immix_ok {#98304#} ?s2" using e1(1) by (simp add: immix_ok_mem)
  moreover obtain r s3 where r: "ImmixSpace_maybe_evacuate sample_rtti 98432 ?s2 = Some (r, s3)"
    using maybe_evacuate_spec [OF ok2, of sample_rtti 98432] by (auto simp: LARGE_OBJECT_def)
  moreover obtain s' where "Allocator_allocate Evac_ops blocks 16 ?s2 = Some (131216, s')"
    using evac_again [of ?s2] cur(1) by auto
  ultimately have "r = Some 131216"
    using maybe_evacuate_result(1) [OF _ _ _ _ r, of 131216 s'] zero_header [of "mem ?s2" 98432] cur(2)
    by (simp add: evac_heap_simps)
  then show ?thesis
    using trace_evacuates_twice [OF ok sz _ _ _ _ _ _ out live fast evac, of "[]"] m r trace by (auto simp: m_def)
qed

end
