(* ===== verification/Immix.thy ===== *)
theory Immix
  imports Evacuation
begin

text \<open>
  The library itself (\<open>src/lib.rs\<close>): the global \<open>Immix\<close> state, the conservative scan of stacks, a whole collection
  cycle with finalization, allocation with its two chances to collect, and initialisation.

  The parameters are what the library gets from outside: the type information \<open>T\<close>, the map operations \<open>V\<close>, the
  binary search \<open>bs\<close>, the callbacks of the user (which list the slots of precise roots and the ranges to
  scan), stack pointers, results of \<open>malloc\<close> and \<open>mmap\<close>, the page size, and whether the calling thread is the
  one that gets to run the cycle.
\<close>

section \<open>State\<close>

datatype GcStats = StatsNone | Summary | Verbose

type_synonym CollectRootsCallback = "memory \<Rightarrow> usize list \<times> (usize \<times> usize) list"

record 'm Immix =
  heap :: heap_state
  los :: LargeObjectSpace
  malloced :: malloc_heap
  gc_stats :: GcStats
  bytes_allocated :: usize
  threshold :: usize
  current_live_mark :: bool
  collect_roots_callback :: "CollectRootsCallback list"
  collector :: "'m Collector"
  to_finalize :: "usize list"

section \<open>Conservative roots\<close>

definition pin_object :: "usize \<Rightarrow> heap_state \<Rightarrow> heap_state" where
  "pin_object a s = s\<lparr>mem := put_header a (RawGc_pin (RawGc_at (mem s) a)) (mem s)\<rparr>"

definition unpin_object :: "usize \<Rightarrow> heap_state \<Rightarrow> heap_state" where
  "unpin_object a s = s\<lparr>mem := put_header a (RawGc_unpin (RawGc_at (mem s) a)) (mem s)\<rparr>"

text \<open>The part of the loop of \<open>collect_roots\<close> that looks a candidate up in the Immix space.\<close>

definition scan_candidate :: "usize \<Rightarrow> heap_state \<times> usize list \<Rightarrow> (heap_state \<times> usize list) option" where
  "scan_candidate ptr = (\<lambda>(s, into). do {
     found \<leftarrow> ImmixSpace_filter (space s) ptr;
     Some (case found of Some ptr \<Rightarrow> (pin_object ptr s, vec_push into ptr) | None \<Rightarrow> (s, into)) })"

definition scan_word ::
    "(usize list \<Rightarrow> usize \<Rightarrow> bool) \<Rightarrow> LargeObjectSpace \<Rightarrow> malloc_heap \<Rightarrow> usize \<Rightarrow>
     heap_state \<times> usize list \<Rightarrow> (heap_state \<times> usize list) option" where
  "scan_word bs l mh scan = (\<lambda>(s, into).
     let ptr = unat (mem s scan) in
     if ptr = 0 then Some (s, into)
     else do {
       large \<leftarrow> (if PreciseAllocation_is_precise ptr then LargeObjectSpace_contains bs l mh ptr else Some False);
       if large then Some (pin_object ptr s, vec_push into ptr)
       else do {
         r \<leftarrow> scan_candidate ptr (s, into);
         scan_candidate ((ptr + 2 ^ 64 - 8) mod 2 ^ 64) r } })"

definition Immix_collect_roots ::
    "(usize list \<Rightarrow> usize \<Rightarrow> bool) \<Rightarrow> LargeObjectSpace \<Rightarrow> malloc_heap \<Rightarrow> usize \<Rightarrow> usize \<Rightarrow>
     heap_state \<times> usize list \<Rightarrow> (heap_state \<times> usize list) option" where
  "Immix_collect_roots bs l mh from to st =
     (let scan = align_usize from 16; end' = align_usize to 16 in
      if scan = 0 \<or> end' = 0 then Some st
      else let (scan, end') = (if end' < scan then (end', scan) else (scan, end')) in
        for_each (scan_word bs l mh) (map (\<lambda>i. scan + 8 * i) [0..<(end' - scan + 7) div 8]) st)"

section \<open>A collection cycle\<close>

text \<open>The callbacks: the slots of the precise roots and the conservative ranges, in order.\<close>

definition run_callbacks :: "CollectRootsCallback list \<Rightarrow> memory \<Rightarrow> usize list \<times> (usize \<times> usize) list" where
  "run_callbacks cbs m = (concat (map (\<lambda>cb. fst (cb m)) cbs), concat (map (\<lambda>cb. snd (cb m)) cbs))"

text \<open>The loop over the threads: their current blocks are taken and their stacks scanned.\<close>

definition gather_thread ::
    "(usize list \<Rightarrow> usize \<Rightarrow> bool) \<Rightarrow> LargeObjectSpace \<Rightarrow> malloc_heap \<Rightarrow> nat \<Rightarrow>
     usize list \<times> heap_state \<times> usize list \<Rightarrow> (usize list \<times> heap_state \<times> usize list) option" where
  "gather_thread bs l mh i = (\<lambda>(all_blocks, s, roots). do {
     let t = threads s ! i;
     let all_blocks = all_blocks @ current_to_list (current_block t) @ current_to_list (current_ovf_block t);
     let s = s\<lparr>threads := (threads s)[i := t\<lparr>current_block := None, current_ovf_block := None\<rparr>]\<rparr>;
     (s, roots) \<leftarrow> Immix_collect_roots bs l mh (stack_bottom t) (stack_end t) (s, roots);
     Some (all_blocks, s, roots) })"

text \<open>The finalization list after marking; \<open>lm\<close> is the live mark that only dead objects still have.\<close>

fun finalize_dead :: "rtti_table \<Rightarrow> bool \<Rightarrow> usize list \<Rightarrow> memory \<Rightarrow> usize list \<times> memory" where
  "finalize_dead T lm [] m = ([], m)"
| "finalize_dead T lm (elem # es) m =
     (let rtti = RawGc_rtti T (RawGc_at m elem) in
      if RawGc_get_mark (RawGc_at m elem) = lm \<and> needs_finalization rtti then
        finalize_dead T lm es (case finalizer rtti of Some fin \<Rightarrow> fin elem m | None \<Rightarrow> m)
      else let (kept, m) = finalize_dead T lm es m in (elem # kept, m))"

text \<open>The roots of a cycle: blocks of the allocators and of the threads, scanned stacks and ranges.\<close>

definition gather_roots ::
    "(usize list \<Rightarrow> usize \<Rightarrow> bool) \<Rightarrow> (usize \<times> usize) list \<Rightarrow> 'm Immix \<Rightarrow>
     (usize list \<times> heap_state \<times> usize list) option" where
  "gather_roots bs cons im = do {
     let (blks, sp) = ImmixSpace_get_all_blocks (space (heap im));
     let s = (heap im)\<lparr>space := sp\<rparr>;
     (blks, s, roots) \<leftarrow> for_each (gather_thread bs (los im) (malloced im)) [0..<length (threads s)] (blks, s, []);
     (s, roots) \<leftarrow> for_each (\<lambda>(bottom, end'). Immix_collect_roots bs (los im) (malloced im) bottom end') cons (s, roots);
     Some (blks, s, roots) }"

text \<open>\<open>visited as f64 * 1.75\<close>, truncated: exact while \<open>7 * visited\<close> is below \<open>2 ^ 53\<close>.\<close>

definition grow_threshold :: "usize \<Rightarrow> usize \<Rightarrow> usize" where
  "grow_threshold visited thr = (if thr \<le> visited then visited * 7 div 4 else thr)"

definition Immix_collect_internal ::
    "'m VecMap \<Rightarrow> rtti_table \<Rightarrow> (usize list \<Rightarrow> usize \<Rightarrow> bool) \<Rightarrow> usize \<Rightarrow> bool \<Rightarrow> bool \<Rightarrow> bool \<Rightarrow> 'm Immix \<Rightarrow> 'm Immix option" where
  "Immix_collect_internal V T bs sp started evacuation emergency im = do {
     let im = im\<lparr>heap := set_tls ((tls (heap im))\<lparr>stack_end := sp\<rparr>) (heap im)\<rparr>;
     if \<not> started then Some im
     else do {
       let (precise_roots, cons) = run_callbacks (collect_roots_callback im) (mem (heap im));
       (blks, s, roots) \<leftarrow> gather_roots bs cons im;
       let c = Collector_extend_all_blocks blks (collector im);
       available \<leftarrow> BlockAllocator_available_blocks (block_allocator (space s));
       (collection_type, hdr) \<leftarrow> Collector_prepare_collection V evacuation available
         (ImmixSpace_evac_headroom (space s)) (BlockAllocator_total_blocks (block_allocator (space s))) emergency c (blocks s);
       (visited, c, s, l, mh) \<leftarrow> Collector_collect V T collection_type roots precise_roots (\<not> current_live_mark im)
         (c, s\<lparr>blocks := hdr\<rparr>, los im, malloced im);
       let s = fold unpin_object roots s;
       let (kept, m) = finalize_dead T (current_live_mark im) (to_finalize im) (mem s);
       let lm = (\<not> current_live_mark im);
       let s = s\<lparr>mem := m, space := ImmixSpace_set_current_live_mark lm (space s)\<rparr>;
       Some (im\<lparr>heap := s, los := l\<lparr>los_live_mark := lm\<rparr>, malloced := mh, collector := c, to_finalize := kept,
               current_live_mark := lm, bytes_allocated := visited, threshold := grow_threshold visited (threshold im)\<rparr>) } }"

section \<open>Allocation\<close>

text \<open>What the environment answers during one call of \<open>allocate\<close>.\<close>

record environment =
  env_sp :: usize
  env_malloc :: "usize option"
  env_started :: bool
  env_started_again :: bool

text \<open>The end of \<open>allocate\<close>: the counter, the header and the finalization list.\<close>

definition init_object :: "rtti_table \<Rightarrow> usize \<Rightarrow> usize \<Rightarrow> usize \<Rightarrow> 'm Immix \<Rightarrow> 'm Immix" where
  "init_object T ptr sz rtti im =
     (let header = snd (RawGc_mark (RawGc_new rtti) (current_live_mark im));
          s = (heap im)\<lparr>mem := put_header ptr header (mem (heap im))\<rparr>;
          fin = (if needs_finalization (RawGc_rtti T header) \<and> sz < LARGE_OBJECT
                 then to_finalize im @ [ptr] else to_finalize im)
      in im\<lparr>heap := s, bytes_allocated := bytes_allocated im + sz, to_finalize := fin\<rparr>)"

definition Immix_allocate ::
    "'m VecMap \<Rightarrow> rtti_table \<Rightarrow> (usize list \<Rightarrow> usize \<Rightarrow> bool) \<Rightarrow> environment \<Rightarrow> usize \<Rightarrow> usize \<Rightarrow> 'm Immix \<Rightarrow>
     (usize \<times> 'm Immix) option" where
  "Immix_allocate V T bs env sz rtti im = do {
     im \<leftarrow> (if threshold im \<le> bytes_allocated im
             then Immix_collect_internal V T bs (env_sp env) (env_started env) False True im else Some im);
     let sz = align_usize sz 16;
     if LARGE_OBJECT \<le> sz then do {
       (ptr, l, mh, m) \<leftarrow> LargeObjectSpace_alloc (env_malloc env) sz rtti (los im, malloced im, mem (heap im));
       let im = im\<lparr>los := l, malloced := mh, heap := (heap im)\<lparr>mem := m\<rparr>\<rparr>;
       Some (ptr, init_object T ptr sz rtti im) }
     else do {
       (addr, s) \<leftarrow> ImmixSpace_allocate sz (heap im);
       let im = im\<lparr>heap := s\<rparr>;
       if addr \<noteq> 0 then Some (addr, init_object T addr sz rtti im)
       else do {
         im \<leftarrow> Immix_collect_internal V T bs (env_sp env) (env_started_again env) True True im;
         (addr, s) \<leftarrow> ImmixSpace_allocate sz (heap im);
         let im = im\<lparr>heap := s\<rparr>;
         if addr \<noteq> 0 then Some (addr, init_object T addr sz rtti im) else Some (0, im) } } }"

section \<open>Initialisation\<close>

definition Immix_new :: "'m VecMap \<Rightarrow> usize \<Rightarrow> usize option \<Rightarrow> usize \<Rightarrow> usize \<Rightarrow> heap_state \<Rightarrow> 'm Immix option" where
  "Immix_new V pagesize mapped sz thr s = do {
     sp \<leftarrow> ImmixSpace_new mapped (align_usize (sz + BLOCK_SIZE) pagesize);
     Some \<lparr>heap = s\<lparr>space := sp\<rparr>, los = LargeObjectSpace_new, malloced = empty_malloc,
           gc_stats = StatsNone, bytes_allocated = 0, threshold = thr, current_live_mark = False,
           collect_roots_callback = [], collector = Collector_new V, to_finalize = []\<rparr> }"

definition init_sizes :: "usize \<Rightarrow> usize \<Rightarrow> usize \<times> usize" where
  "init_sizes heap_sz thr =
     (if heap_sz = 0 \<or> heap_sz \<le> 512 * 1024 then (16 * BLOCK_SIZE, 100 * 1024)
      else if thr = 0 then (heap_sz, 30 * heap_sz div 100)
      else (heap_sz, thr))"

definition immix_init ::
    "'m VecMap \<Rightarrow> usize \<Rightarrow> usize option \<Rightarrow> usize \<Rightarrow> usize \<Rightarrow> CollectRootsCallback \<Rightarrow> heap_state \<Rightarrow>
     'm Immix option \<Rightarrow> 'm Immix option option" where
  "immix_init V pagesize mapped heap_sz thr callback s SPACE =
     (case SPACE of
        Some im \<Rightarrow> Some (Some im)
      | None \<Rightarrow> do {
          let (heap_sz, thr) = init_sizes heap_sz thr;
          im \<leftarrow> Immix_new V pagesize mapped heap_sz thr s;
          Some (Some (im\<lparr>collect_roots_callback := collect_roots_callback im @ [callback]\<rparr>)) })"

definition immix_register_ongc_callback :: "CollectRootsCallback \<Rightarrow> 'm Immix \<Rightarrow> 'm Immix" where
  "immix_register_ongc_callback callback im = im\<lparr>collect_roots_callback := vec_push (collect_roots_callback im) callback\<rparr>"

definition immix_noop_callback :: CollectRootsCallback where
  "immix_noop_callback = (\<lambda>_. ([], []))"

definition immix_noop_visit :: "memory \<Rightarrow> usize \<Rightarrow> usize list" where
  "immix_noop_visit = (\<lambda>_ _. [])"

definition immix_enable_stats :: "GcStats \<Rightarrow> 'm Immix \<Rightarrow> 'm Immix" where
  "immix_enable_stats val im = im\<lparr>gc_stats := val\<rparr>"

definition immix_alloc ::
    "'m VecMap \<Rightarrow> rtti_table \<Rightarrow> (usize list \<Rightarrow> usize \<Rightarrow> bool) \<Rightarrow> environment \<Rightarrow> usize \<Rightarrow> usize \<Rightarrow> 'm Immix \<Rightarrow>
     (usize \<times> 'm Immix) option" where
  "immix_alloc V T bs env sz rtti im = Immix_allocate V T bs env sz rtti im"

text \<open>\<open>immix_alloc_safe\<close> for a value given by its size and its words.\<close>

definition immix_alloc_safe ::
    "'m VecMap \<Rightarrow> rtti_table \<Rightarrow> (usize list \<Rightarrow> usize \<Rightarrow> bool) \<Rightarrow> environment \<Rightarrow> usize \<Rightarrow> u64 list \<Rightarrow> usize \<Rightarrow> 'm Immix \<Rightarrow>
     (usize \<times> 'm Immix) option" where
  "immix_alloc_safe V T bs env value_size value rtti im = do {
     (ptr, im) \<leftarrow> immix_alloc V T bs env value_size rtti im;
     if ptr = 0 then None
     else do {
       let m = (\<lambda>x. if RawGc_data ptr \<le> x \<and> x < RawGc_data ptr + 8 * length value \<and> 8 dvd (x - RawGc_data ptr)
                    then value ! ((x - RawGc_data ptr) div 8) else mem (heap im) x);
       Some (ptr, im\<lparr>heap := (heap im)\<lparr>mem := m\<rparr>\<rparr>) } }"

definition immix_collect ::
    "'m VecMap \<Rightarrow> rtti_table \<Rightarrow> (usize list \<Rightarrow> usize \<Rightarrow> bool) \<Rightarrow> usize \<Rightarrow> bool \<Rightarrow> bool \<Rightarrow> 'm Immix \<Rightarrow> 'm Immix option" where
  "immix_collect V T bs sp started move_objects im = Immix_collect_internal V T bs sp started move_objects False im"

end
