(* ===== verification/Cycle.thy ===== *)
theory Cycle
  imports Immix
begin

text \<open>
  A whole collection cycle of \<open>Immix::collect_internal\<close> without evacuation: what the conservative scan finds, that the
  collector gets every block in use, and that the objects found from the roots survive.
\<close>

section \<open>Scanning\<close>

text \<open>The objects of the Immix space that the filter can recognise, and the roots that a word stands for.\<close>

definition known_object :: "heap_state \<Rightarrow> usize \<Rightarrow> bool" where
  "known_object s a \<longleftrightarrow> a \<in> gc_objects (space s) \<and> mmap_start (mmap (block_allocator (space s))) < a \<and>
     a < data_bound (block_allocator (space s))"

definition large_object :: "LargeObjectSpace \<Rightarrow> usize \<Rightarrow> bool" where
  "large_object l a \<longleftrightarrow> (\<exists>q \<in> set (allocations l). a = PreciseAllocation_cell q)"

definition minus8 :: "usize \<Rightarrow> usize" where
  "minus8 w = (w + 2 ^ 64 - 8) mod 2 ^ 64"

definition roots_of_word :: "LargeObjectSpace \<Rightarrow> heap_state \<Rightarrow> usize \<Rightarrow> usize list" where
  "roots_of_word l s w =
     (if w = 0 then []
      else if PreciseAllocation_is_precise w \<and> large_object l w then [w]
      else filter (known_object s) [w, minus8 w])"

text \<open>A word that can be scanned: its address is not that of an object header, and neither the word nor the word less
  8 is the data bound, at which the filter reads past the bitmap.\<close>

definition scannable :: "LargeObjectSpace \<Rightarrow> heap_state \<Rightarrow> usize \<Rightarrow> bool" where
  "scannable l s x \<longleftrightarrow> \<not> known_object s x \<and> \<not> large_object l x \<and>
     unat (mem s x) \<noteq> data_bound (block_allocator (space s)) \<and>
     minus8 (unat (mem s x)) \<noteq> data_bound (block_allocator (space s))"

definition pinned_mem :: "usize set \<Rightarrow> memory \<Rightarrow> memory" where
  "pinned_mem P m = (\<lambda>x. if x \<in> P then raw (vtable (RawGc_pin (RawGc_at m x))) else m x)"

lemma pin_idem: "RawGc_pin (RawGc_pin r) = RawGc_pin r"
proof -
  have "with_bit (with_bit w 2) 2 = with_bit w 2" for w by (intro bit_eqI) (simp add: bit_with_bit)
  then show ?thesis by (simp add: RawGc_pin_def TaggedPointer_set_bit_def)
qed

lemma pin_object_mem: "mem (pin_object a s) = pinned_mem {a} (mem s)" "pin_object a s = s\<lparr>mem := pinned_mem {a} (mem s)\<rparr>"
  by (auto simp: pin_object_def put_header_def pinned_mem_def fun_eq_iff)

lemma RawGc_at_pinned: "RawGc_at (pinned_mem P m) a = (if a \<in> P then RawGc_pin (RawGc_at m a) else RawGc_at m a)"
  by (simp add: RawGc_at_def pinned_mem_def)

lemma pinned_pinned: "pinned_mem P (pinned_mem Q m) = pinned_mem (P \<union> Q) m"
proof
  fix x
  have "pinned_mem P (pinned_mem Q m) x
      = (if x \<in> P then raw (vtable (RawGc_pin (RawGc_at (pinned_mem Q m) x))) else pinned_mem Q m x)"
    by (simp add: pinned_mem_def)
  then show "pinned_mem P (pinned_mem Q m) x = pinned_mem (P \<union> Q) m x"
    by (auto simp: RawGc_at_pinned pin_idem) (auto simp: pinned_mem_def)
qed

lemma pinned_empty [simp]: "pinned_mem {} m = m"
  by (simp add: pinned_mem_def)

lemma known_object_mem [simp]: "known_object (s\<lparr>mem := m\<rparr>) = known_object s" "known_object (s\<lparr>threads := ts\<rparr>) = known_object s"
  by (simp_all add: known_object_def fun_eq_iff)

definition pin_all :: "usize list \<Rightarrow> heap_state \<Rightarrow> heap_state" where
  "pin_all roots s = s\<lparr>mem := pinned_mem (set roots) (mem s)\<rparr>"

lemma pin_pin_all: "pin_object a (pin_all roots s) = pin_all (roots @ [a]) s"
  by (simp add: pin_object_mem(2) pin_all_def pinned_pinned Un_commute)

lemma pin_all_simps [simp]:
  "space (pin_all roots s) = space s" "pin_all [] s = s" "threads (pin_all roots s) = threads s" "self_id (pin_all roots s) = self_id s"
  "blocks (pin_all roots s) = blocks s" "mem (pin_all roots s) = pinned_mem (set roots) (mem s)"
  by (simp_all add: pin_all_def)

lemma scan_candidate_spec:
  assumes "bitmap_ok (space s)" "p \<noteq> data_bound (block_allocator (space s))"
  shows "scan_candidate p (pin_all into s, into) =
    Some (pin_all (into @ filter (known_object s) [p]) s, into @ filter (known_object s) [p])"
proof -
  have "ImmixSpace_filter (space s) p = Some (if known_object s p then Some p else None)"
    using filter_spec [OF assms(1) refl, of p] assms(2) by (simp add: known_object_def)
  then show ?thesis by (simp add: scan_candidate_def pin_pin_all vec_push_def)
qed

text \<open>What a binary search promises, and that the list of large objects is in order.\<close>

definition search_ok :: "(usize list \<Rightarrow> usize \<Rightarrow> bool) \<Rightarrow> LargeObjectSpace \<Rightarrow> bool" where
  "search_ok bs l \<longleftrightarrow> sorted (allocations l) \<and> (\<forall>xs x. sorted xs \<longrightarrow> bs xs x = (x \<in> set xs))"

lemma scan_word_spec:
  assumes ok: "bitmap_ok (space s)" and l: "search_ok bs l" and x: "scannable l s x"
    and into: "\<forall>a \<in> set into. known_object s a \<or> large_object l a"
  shows "scan_word bs l mh x (pin_all into s, into) =
    Some (pin_all (into @ roots_of_word l s (unat (mem s x))) s, into @ roots_of_word l s (unat (mem s x)))"
proof -
  let ?w = "unat (mem s x)"
  have "x \<notin> set into" using into x by (auto simp: scannable_def)
  then have w: "mem (pin_all into s) x = mem s x" by (simp add: pinned_mem_def)
  have large: "LargeObjectSpace_contains bs l mh ?w = Some (large_object l ?w)"
    using contains_sorted [of l bs mh ?w] l by (simp add: search_ok_def large_object_def)
  have nb: "?w \<noteq> data_bound (block_allocator (space s))" "minus8 ?w \<noteq> data_bound (block_allocator (space s))"
    using x by (auto simp: scannable_def)
  have two: "do { r \<leftarrow> scan_candidate ?w (pin_all into s, into); scan_candidate (minus8 ?w) r }
      = Some (pin_all (into @ filter (known_object s) [?w, minus8 ?w]) s, into @ filter (known_object s) [?w, minus8 ?w])"
    using scan_candidate_spec [OF ok nb(1), of into]
      scan_candidate_spec [OF ok nb(2), of "into @ filter (known_object s) [?w]"] by (auto split: if_splits)
  have unfold: "scan_word bs l mh x (pin_all into s, into) =
     (if ?w = 0 then Some (pin_all into s, into)
      else do {
        large \<leftarrow> (if PreciseAllocation_is_precise ?w then LargeObjectSpace_contains bs l mh ?w else Some False);
        if large then Some (pin_object ?w (pin_all into s), into @ [?w])
        else do { r \<leftarrow> scan_candidate ?w (pin_all into s, into); scan_candidate (minus8 ?w) r } })"
    unfolding scan_word_def prod.case w minus8_def Let_def vec_push_def ..
  consider "?w = 0" | "?w \<noteq> 0" "PreciseAllocation_is_precise ?w \<and> large_object l ?w"
    | "?w \<noteq> 0" "\<not> (PreciseAllocation_is_precise ?w \<and> large_object l ?w)" by blast
  then show ?thesis
  proof cases
    case 3
    have "(if PreciseAllocation_is_precise ?w then LargeObjectSpace_contains bs l mh ?w else Some False) = Some False"
      using 3(2) large by auto
    moreover have "roots_of_word l s ?w = filter (known_object s) [?w, minus8 ?w]"
      unfolding roots_of_word_def using 3 by argo
    ultimately show ?thesis using 3(1) two unfolding unfold by simp
  qed (use large in \<open>simp_all add: unfold roots_of_word_def pin_pin_all\<close>)
qed

lemma roots_of_word_known: "\<forall>a \<in> set (roots_of_word l s w). known_object s a \<or> large_object l a"
  by (auto simp: roots_of_word_def)

lemma scan_words_spec:
  assumes ok: "bitmap_ok (space s)" and l: "search_ok bs l" and xs: "\<forall>x \<in> set xs. scannable l s x"
    and into: "\<forall>a \<in> set into. known_object s a \<or> large_object l a"
  shows "for_each (scan_word bs l mh) xs (pin_all into s, into) =
    (let roots = into @ concat (map (\<lambda>x. roots_of_word l s (unat (mem s x))) xs) in Some (pin_all roots s, roots))"
  using xs into
proof (induction xs arbitrary: into)
  case (Cons x xs)
  have "scan_word bs l mh x (pin_all into s, into) =
    Some (pin_all (into @ roots_of_word l s (unat (mem s x))) s, into @ roots_of_word l s (unat (mem s x)))"
    using scan_word_spec [OF ok l] Cons.prems by simp
  moreover have "\<forall>a \<in> set (into @ roots_of_word l s (unat (mem s x))). known_object s a \<or> large_object l a"
    using Cons.prems(2) roots_of_word_known [of l s "unat (mem s x)"] by auto
  ultimately show ?case using Cons.IH [of "into @ roots_of_word l s (unat (mem s x))"] Cons.prems(1) by (simp add: Let_def)
qed simp

text \<open>The words between the two ends of a range, each rounded up to 16.\<close>

definition range_words :: "usize \<Rightarrow> usize \<Rightarrow> usize list" where
  "range_words from to =
     (let a = align_usize from 16; b = align_usize to 16 in
      if a = 0 \<or> b = 0 then [] else map (\<lambda>i. min a b + 8 * i) [0..<(max a b - min a b) div 8])"

lemma dvd16_8: "16 dvd (a::usize) \<Longrightarrow> 8 dvd a"
  by (elim dvdE) simp

lemma collect_roots_words:
  "Immix_collect_roots bs l mh from to st = for_each (scan_word bs l mh) (range_words from to) st"
proof -
  have "(max a b - min a b + 7) div 8 = (max a b - min a b) div 8" if "16 dvd a" "16 dvd b" for a b :: usize
  proof -
    have "8 dvd max a b - min a b" using dvd16_8 [OF that(1)] dvd16_8 [OF that(2)] by (simp add: max_def min_def)
    then show ?thesis by (elim dvdE) simp
  qed
  from this [of "align_usize from 16" "align_usize to 16"] show ?thesis
    by (auto simp: Immix_collect_roots_def range_words_def Let_def max_def min_def)
qed

lemma range_words_mem:
  assumes "lo + 16 \<le> 2 ^ 64" "hi + 16 \<le> 2 ^ 64" "0 < lo" "lo \<le> hi"
  shows "x \<in> set (range_words hi lo) \<longleftrightarrow> 8 dvd x \<and> align_usize lo 16 \<le> x \<and> x < align_usize hi 16"
proof -
  let ?a = "align_usize lo 16" and ?b = "align_usize hi 16"
  have dvd: "8 dvd ?a" "8 dvd ?b" by (simp_all add: dvd16_8)
  have "?a \<le> ?b" using assms by (simp add: align_usize_16 div_le_mono)
  moreover have "0 < ?a" using align_usize_16_ge [OF assms(1)] assms(3) by simp
  ultimately have "set (range_words hi lo) = (\<lambda>i. ?a + 8 * i) ` {0..<(?b - ?a) div 8}"
    by (auto simp: range_words_def Let_def min_def max_def)
  moreover have "x \<in> (\<lambda>i. ?a + 8 * i) ` {0..<(?b - ?a) div 8} \<longleftrightarrow> 8 dvd x \<and> ?a \<le> x \<and> x < ?b"
  proof
    assume "x \<in> (\<lambda>i. ?a + 8 * i) ` {0..<(?b - ?a) div 8}"
    then obtain i where i: "x = ?a + 8 * i" "i < (?b - ?a) div 8" by auto
    then show "8 dvd x \<and> ?a \<le> x \<and> x < ?b" using dvd by auto
  next
    assume x: "8 dvd x \<and> ?a \<le> x \<and> x < ?b"
    then have "8 dvd x - ?a" using dvd(1) by (simp add: dvd_diff_nat)
    then have "x = ?a + 8 * ((x - ?a) div 8)" using x by simp
    moreover have "(x - ?a) div 8 < (?b - ?a) div 8"
    proof -
      obtain k j where "x - ?a = 8 * k" "?b - ?a = 8 * j" using \<open>8 dvd x - ?a\<close> dvd by (meson dvd_def dvd_diff_nat)
      moreover have "x - ?a < ?b - ?a" using x by (intro diff_less_mono) simp_all
      ultimately show ?thesis by simp
    qed
    ultimately show "x \<in> (\<lambda>i. ?a + 8 * i) ` {0..<(?b - ?a) div 8}" by auto
  qed
  ultimately show ?thesis by simp
qed

section \<open>The blocks of a cycle\<close>

lemma current_to_list_None [simp]: "current_to_list None = []"
  by (simp add: current_to_list_def)

lemma mset_current: "image_mset fst (current_assets hdr c) = mset (current_to_list c)"
  by (auto simp: current_assets_def current_to_list_def split: option.splits)

lemma fst_assets:
  "image_mset fst (assets hdr s) = (\<Sum>t \<in># mset (threads s). image_mset fst (thread_assets hdr t)) +
     image_mset fst (normal_assets hdr (allocator (space s))) + image_mset fst (overflow_assets hdr (overflow_allocator (space s))) +
     image_mset fst (evac_assets hdr (evac_allocator (space s)))"
proof -
  have "image_mset fst (\<Sum>t \<in># M. thread_assets hdr t) = (\<Sum>t \<in># M. image_mset fst (thread_assets hdr t))" for M
    by (induction M) simp_all
  then show ?thesis by (simp add: assets_def)
qed

text \<open>Taking all blocks of the allocators.\<close>

lemma get_all_blocks_spec:
  assumes ok: "immix_ok C s" and get: "ImmixSpace_get_all_blocks (space s) = (blks, sp)"
  shows "immix_ok (C + mset blks) (s\<lparr>space := sp\<rparr>)" "n_recyclable_blocks (allocator sp) = []"
    "bitmap sp = bitmap (space s)" "block_allocator sp = block_allocator (space s)"
    "e_evac_headroom (evac_allocator sp) = e_evac_headroom (evac_allocator (space s))"
    "image_mset fst (assets hdr (s\<lparr>space := sp\<rparr>)) = (\<Sum>t \<in># mset (threads s). image_mset fst (thread_assets hdr t)) +
       mset (e_evac_headroom (evac_allocator (space s)))"
    "avail_bytes (s\<lparr>space := sp\<rparr>) \<subseteq> avail_bytes s"
proof -
  note defs = ImmixSpace_get_all_blocks_def NormalAllocator_get_all_blocks_def OverflowAllocator_get_all_blocks_def
    EvacAllocator_get_all_blocks_def
  show rest: "n_recyclable_blocks (allocator sp) = []" "bitmap sp = bitmap (space s)" "block_allocator sp = block_allocator (space s)"
    "e_evac_headroom (evac_allocator sp) = e_evac_headroom (evac_allocator (space s))"
    using get by (auto simp: defs Let_def)
  show left: "image_mset fst (assets hdr (s\<lparr>space := sp\<rparr>)) = (\<Sum>t \<in># mset (threads s). image_mset fst (thread_assets hdr t)) +
       mset (e_evac_headroom (evac_allocator (space s)))" for hdr
    using get unfolding fst_assets
    by (auto simp: defs Let_def normal_assets_def overflow_assets_def evac_assets_def full_assets_def current_assets_def multiset.map_comp o_def)
  have "image_mset fst (assets hdr s) = image_mset fst (assets hdr (s\<lparr>space := sp\<rparr>)) + mset blks" for hdr
    using get unfolding left fst_assets
    by (auto simp: defs Let_def normal_assets_def overflow_assets_def evac_assets_def full_assets_def multiset.map_comp o_def
        mset_current ac_simps)
  moreover have "currents_ok (s\<lparr>space := sp\<rparr>)"
    using ok get by (auto simp: immix_ok_def space_ok_def currents_ok_def defs Let_def current_ok_def)
  ultimately show "immix_ok (C + mset blks) (s\<lparr>space := sp\<rparr>)"
    using ok rest by (auto simp: immix_ok_def space_ok_def bitmap_ok_def ac_simps)
  have "assets (blocks s) (s\<lparr>space := sp\<rparr>) \<subseteq># assets (blocks s) s"
    using get by (auto simp: assets_def defs Let_def normal_assets_def overflow_assets_def evac_assets_def full_assets_def
        current_assets_def intro!: subset_mset.add_mono)
  then have "set_mset (assets (blocks s) (s\<lparr>space := sp\<rparr>)) \<subseteq> set_mset (assets (blocks s) s)" by (rule set_mset_mono)
  then show "avail_bytes (s\<lparr>space := sp\<rparr>) \<subseteq> avail_bytes s" using rest(3) by (auto simp: avail_bytes_def)
qed

text \<open>Taking the current blocks of the threads and scanning their stacks.\<close>

definition clear_thread :: "TLSState \<Rightarrow> TLSState" where
  "clear_thread t = t\<lparr>current_block := None, current_ovf_block := None\<rparr>"

definition thread_blocks :: "TLSState \<Rightarrow> usize list" where
  "thread_blocks t = current_to_list (current_block t) @ current_to_list (current_ovf_block t)"

definition range_roots :: "LargeObjectSpace \<Rightarrow> heap_state \<Rightarrow> usize \<times> usize \<Rightarrow> usize list" where
  "range_roots l s = (\<lambda>(from, to). concat (map (\<lambda>x. roots_of_word l s (unat (mem s x))) (range_words from to)))"

abbreviation stack_range :: "TLSState \<Rightarrow> usize \<times> usize" where
  "stack_range t \<equiv> (stack_bottom t, stack_end t)"

definition range_scannable :: "LargeObjectSpace \<Rightarrow> heap_state \<Rightarrow> usize \<times> usize \<Rightarrow> bool" where
  "range_scannable l s = (\<lambda>(from, to). \<forall>x \<in> set (range_words from to). scannable l s x)"

lemma range_roots_known: "\<forall>a \<in> set (range_roots l s r). known_object s a \<or> large_object l a"
  using roots_of_word_known by (fastforce simp: range_roots_def split: prod.splits)

lemma threads_irrelevant [simp]:
  "roots_of_word l (s\<lparr>threads := ts\<rparr>) = roots_of_word l s" "scannable l (s\<lparr>threads := ts\<rparr>) = scannable l s"
  "range_roots l (s\<lparr>threads := ts\<rparr>) = range_roots l s" "range_scannable l (s\<lparr>threads := ts\<rparr>) = range_scannable l s"
  by (simp_all add: roots_of_word_def scannable_def range_roots_def range_scannable_def fun_eq_iff cong: if_cong)

lemma collect_roots_spec:
  assumes "bitmap_ok (space s)" "search_ok bs l" "range_scannable l s (from, to)"
    "\<forall>a \<in> set into. known_object s a \<or> large_object l a"
  shows "Immix_collect_roots bs l mh from to (pin_all into s, into)
    = Some (pin_all (into @ range_roots l s (from, to)) s, into @ range_roots l s (from, to))"
  using scan_words_spec [OF assms(1,2), of "range_words from to" into mh] assms(3,4)
  by (simp add: collect_roots_words range_roots_def range_scannable_def Let_def)

lemma gather_threads_spec:
  assumes bm: "bitmap_ok (space s)" and l: "search_ok bs l" and sc: "\<forall>t \<in> set ts. range_scannable l s (stack_range t)"
    and into: "\<forall>a \<in> set into. known_object s a \<or> large_object l a" and ts: "threads s = pre @ ts"
  shows "for_each (gather_thread bs l mh) [length pre..<length pre + length ts] (blks, pin_all into s, into)
    = (let roots = into @ concat (map (\<lambda>t. range_roots l s (stack_range t)) ts) in
       Some (blks @ concat (map thread_blocks ts), pin_all roots (s\<lparr>threads := pre @ map clear_thread ts\<rparr>), roots))"
  using sc into ts bm
proof (induction ts arbitrary: pre into blks s)
  case (Cons t ts)
  let ?s = "s\<lparr>threads := (pre @ [clear_thread t]) @ ts\<rparr>"
  let ?into = "into @ range_roots l s (stack_range t)"
  have t: "threads s ! length pre = t" using Cons.prems(3) by simp
  have upt: "[length pre..<length pre + length (t # ts)]
      = length pre # [length (pre @ [clear_thread t])..<length (pre @ [clear_thread t]) + length ts]"
    using upt_conv_Cons [of "length pre" "length pre + length (t # ts)"] by simp
  have upd: "(pin_all into s)\<lparr>threads := (threads (pin_all into s))[length pre := clear_thread t]\<rparr> = pin_all into ?s"
    using Cons.prems(3) by (simp add: pin_all_def)
  have "Immix_collect_roots bs l mh (stack_bottom t) (stack_end t) (pin_all into ?s, into)
      = Some (pin_all ?into ?s, ?into)"
    using collect_roots_spec [of ?s bs l "stack_bottom t" "stack_end t" into mh] Cons.prems l by simp
  then have one: "gather_thread bs l mh (length pre) (blks, pin_all into s, into)
      = Some (blks @ thread_blocks t, pin_all ?into ?s, ?into)"
    using upd unfolding gather_thread_def clear_thread_def thread_blocks_def
    by (simp add: t Let_def clear_thread_def)
  have "\<forall>a \<in> set ?into. known_object ?s a \<or> large_object l a"
    using Cons.prems(2) range_roots_known [of l s "stack_range t"] by auto
  moreover have "\<forall>t \<in> set ts. range_scannable l ?s (stack_range t)" "bitmap_ok (space ?s)" using Cons.prems(1,4) by simp_all
  ultimately have "for_each (gather_thread bs l mh) [length (pre @ [clear_thread t])..<length (pre @ [clear_thread t]) + length ts]
      (blks @ thread_blocks t, pin_all ?into ?s, ?into) = (let roots = ?into @ concat (map (\<lambda>t. range_roots l ?s (stack_range t)) ts) in
       Some ((blks @ thread_blocks t) @ concat (map thread_blocks ts),
         pin_all roots (?s\<lparr>threads := (pre @ [clear_thread t]) @ map clear_thread ts\<rparr>), roots))"
    using Cons.IH [of ?s ?into "pre @ [clear_thread t]" "blks @ thread_blocks t"] by simp
  then show ?case unfolding upt for_each.simps one bind.bind_lunit by (simp add: Let_def)
qed (simp add: Let_def)

lemma clear_threads_spec:
  assumes ok: "immix_ok C s"
  defines "s' \<equiv> s\<lparr>threads := map clear_thread (threads s)\<rparr>"
  shows "immix_ok (C + mset (concat (map thread_blocks (threads s)))) s'" "avail_bytes s' \<subseteq> avail_bytes s"
    "(\<Sum>t \<in># mset (threads s'). image_mset fst (thread_assets hdr t)) = {#}"
proof -
  have none: "thread_assets hdr (clear_thread t) = {#}" for hdr t
    by (simp add: thread_assets_def clear_thread_def current_assets_def)
  have zero: "(\<Sum>t \<in># mset (map clear_thread ts). f (thread_assets hdr t)) = {#}" if "f {#} = {#}"
    for ts hdr and f :: "asset multiset \<Rightarrow> 'z multiset"
    using that by (induction ts) (simp_all add: none)
  show "(\<Sum>t \<in># mset (threads s'). image_mset fst (thread_assets hdr t)) = {#}"
    using zero [of "image_mset fst"] by (simp add: s'_def)
  have gone: "(\<Sum>t \<in># mset ts. image_mset fst (thread_assets hdr t)) = mset (concat (map thread_blocks ts))" for ts hdr
    by (induction ts) (simp_all add: thread_assets_def thread_blocks_def mset_current ac_simps)
  have eq: "image_mset fst (assets hdr s) = image_mset fst (assets hdr s') + mset (concat (map thread_blocks (threads s)))" for hdr
    using gone [of hdr "threads s"] zero [of "image_mset fst" hdr "threads s"] unfolding fst_assets
    by (simp add: s'_def ac_simps)
  have "currents_ok s'" using ok by (auto simp: immix_ok_def space_ok_def currents_ok_def s'_def clear_thread_def current_ok_def)
  then show "immix_ok (C + mset (concat (map thread_blocks (threads s)))) s'"
    using ok eq [of "blocks s"] by (auto simp: immix_ok_def space_ok_def s'_def ac_simps)
  have "threads s' = map clear_thread (threads s)" "space s' = space s" by (simp_all add: s'_def)
  then have "assets (blocks s) s' \<subseteq># assets (blocks s) s"
    unfolding assets_def using zero [of "\<lambda>x. x" "blocks s" "threads s"] by (simp only: add_0 subset_mset.add_mono
        subset_mset.zero_le subset_mset.order_refl subset_mset.add_increasing)
  then have "set_mset (assets (blocks s) s') \<subseteq> set_mset (assets (blocks s) s)" by (rule set_mset_mono)
  then show "avail_bytes s' \<subseteq> avail_bytes s" by (auto simp: avail_bytes_def s'_def)
qed

text \<open>The roots that a cycle finds, in order: those of the stacks and those of the ranges of the callbacks.\<close>

definition cycle_roots :: "'m Immix \<Rightarrow> (usize \<times> usize) list \<Rightarrow> usize list" where
  "cycle_roots im cons = concat (map (range_roots (los im) (heap im)) (map stack_range (threads (heap im)) @ cons))"

lemma space_irrelevant:
  assumes "bitmap sp = bitmap (space s)" "block_allocator sp = block_allocator (space s)"
  shows "range_roots l (s\<lparr>space := sp\<rparr>) = range_roots l s" "range_scannable l (s\<lparr>space := sp\<rparr>) = range_scannable l s"
    "known_object (s\<lparr>space := sp\<rparr>) = known_object s" "bitmap_ok sp = bitmap_ok (space s)" "gc_objects sp = gc_objects (space s)"
    "ImmixSpace_filter_fast sp = ImmixSpace_filter_fast (space s)"
proof -
  show k: "known_object (s\<lparr>space := sp\<rparr>) = known_object s"
    using assms by (simp add: known_object_def gc_objects_def fun_eq_iff)
  show "range_roots l (s\<lparr>space := sp\<rparr>) = range_roots l s" "range_scannable l (s\<lparr>space := sp\<rparr>) = range_scannable l s"
    using assms by (simp_all add: range_roots_def roots_of_word_def range_scannable_def scannable_def k cong: if_cong)
  show "bitmap_ok sp = bitmap_ok (space s)" "gc_objects sp = gc_objects (space s)"
    "ImmixSpace_filter_fast sp = ImmixSpace_filter_fast (space s)"
    using assms by (simp_all add: bitmap_ok_def gc_objects_def ImmixSpace_filter_fast_def fun_eq_iff)
qed

lemma collect_ranges_spec:
  assumes "bitmap_ok (space s)" "search_ok bs l" "\<forall>r \<in> set rs. range_scannable l s r"
    "\<forall>a \<in> set into. known_object s a \<or> large_object l a"
  shows "for_each (\<lambda>(bottom, end'). Immix_collect_roots bs l mh bottom end') rs (pin_all into s, into)
    = (let roots = into @ concat (map (range_roots l s) rs) in Some (pin_all roots s, roots))"
  using assms(3,4)
proof (induction rs arbitrary: into)
  case (Cons r rs)
  obtain a b where r: "r = (a, b)" by (cases r)
  have "Immix_collect_roots bs l mh a b (pin_all into s, into)
      = Some (pin_all (into @ range_roots l s r) s, into @ range_roots l s r)"
    using collect_roots_spec [OF assms(1,2), of a b into mh] Cons.prems by (simp add: r)
  moreover have "\<forall>x \<in> set (into @ range_roots l s r). known_object s x \<or> large_object l x"
    using Cons.prems(2) range_roots_known [of l s r] by auto
  ultimately show ?case using Cons.IH [of "into @ range_roots l s r"] Cons.prems(1) by (simp add: r Let_def)
qed simp

lemma gather_roots_spec:
  assumes ok: "immix_ok C (heap im)" and l: "search_ok bs (los im)"
    and sc: "\<forall>r \<in> set (map stack_range (threads (heap im)) @ cons). range_scannable (los im) (heap im) r"
  shows "\<exists>blks s. gather_roots bs cons im = Some (blks, pin_all (cycle_roots im cons) s, cycle_roots im cons) \<and>
    immix_ok (C + mset blks) s \<and> n_recyclable_blocks (allocator (space s)) = [] \<and>
    bitmap (space s) = bitmap (space (heap im)) \<and> block_allocator (space s) = block_allocator (space (heap im)) \<and>
    image_mset fst (assets (blocks s) s) = mset (e_evac_headroom (evac_allocator (space (heap im)))) \<and>
    e_evac_headroom (evac_allocator (space s)) = e_evac_headroom (evac_allocator (space (heap im))) \<and>
    avail_bytes s \<subseteq> avail_bytes (heap im) \<and> mem s = mem (heap im) \<and> blocks s = blocks (heap im)"
proof -
  let ?h = "heap im" and ?l = "los im"
  obtain b0 sp where get: "ImmixSpace_get_all_blocks (space ?h) = (b0, sp)" by (cases "ImmixSpace_get_all_blocks (space ?h)")
  note g = get_all_blocks_spec [OF ok get]
  define s1 where "s1 = ?h\<lparr>space := sp\<rparr>"
  define s2 where "s2 = s1\<lparr>threads := map clear_thread (threads s1)\<rparr>"
  define r1 where "r1 = concat (map (\<lambda>t. range_roots ?l s1 (stack_range t)) (threads s1))"
  note irr = space_irrelevant [OF g(3,4), folded s1_def]
  have bm: "bitmap_ok (space s1)" using ok irr(4) by (simp add: s1_def immix_ok_def)
  have ts: "threads s1 = [] @ threads s1" and len: "threads ?h = threads s1" by (simp_all add: s1_def)
  have "for_each (gather_thread bs ?l (malloced im)) [0..<length (threads s1)] (b0, s1, [])
      = Some (b0 @ concat (map thread_blocks (threads s1)), pin_all r1 s2, r1)"
    using gather_threads_spec [OF bm l _ _ ts, of "[]" "malloced im" b0] sc irr(2)
    by (simp add: r1_def s2_def Let_def) (simp add: s1_def)
  moreover have "\<forall>a \<in> set r1. known_object s2 a \<or> large_object ?l a"
    using range_roots_known by (fastforce simp: r1_def s2_def)
  then have "for_each (\<lambda>(bottom, end'). Immix_collect_roots bs ?l (malloced im) bottom end') cons (pin_all r1 s2, r1)
      = Some (pin_all (r1 @ concat (map (range_roots ?l s2) cons)) s2, r1 @ concat (map (range_roots ?l s2) cons))"
    using collect_ranges_spec [of s2 bs ?l cons r1 "malloced im"] bm l sc irr(2) by (simp add: s2_def Let_def)
  moreover have "r1 @ concat (map (range_roots ?l s2) cons) = cycle_roots im cons"
    by (simp add: r1_def s2_def cycle_roots_def irr(1) o_def) (simp add: s1_def)
  ultimately have run: "gather_roots bs cons im
      = Some (b0 @ concat (map thread_blocks (threads s1)), pin_all (cycle_roots im cons) s2, cycle_roots im cons)"
    by (simp add: gather_roots_def get s1_def [symmetric] len)
  have ok1: "immix_ok (C + mset b0) s1" using g(1) by (simp add: s1_def)
  note c = clear_threads_spec [OF ok1, folded s2_def]
  have "image_mset fst (assets (blocks s2) s2) = mset (e_evac_headroom (evac_allocator (space ?h)))"
  proof -
    have "space s2 = space s1" "blocks s2 = blocks s1" by (simp_all add: s2_def)
    then show ?thesis
      using g(6) [of "blocks s2"] unfolding fst_assets c(3) by (simp add: s1_def add.assoc)
  qed
  moreover have "avail_bytes s2 \<subseteq> avail_bytes ?h" using c(2) g(7) by (auto simp: s1_def)
  ultimately show ?thesis
    using run c(1) g(2-5) by (intro exI [of _ "b0 @ concat (map thread_blocks (threads s1))"] exI [of _ s2])
      (simp add: ac_simps s2_def s1_def)
qed

section \<open>Pinning and the object graph\<close>

lemma tag_variant_pinned: "P \<subseteq> Obj \<Longrightarrow> tag_variant Obj m (pinned_mem P m)"
  by (auto simp: tag_variant_def RawGc_at_pinned) (auto simp: pinned_mem_def)

lemma pinned_graph:
  assumes g: "heap_graph T nlm Obj m" and P: "P \<subseteq> Obj"
  shows "heap_graph T nlm Obj (pinned_mem P m)" "a \<in> Obj \<Longrightarrow> children T (pinned_mem P m) a = children T m a"
    "a \<in> Obj \<Longrightarrow> object_size T (pinned_mem P m) a = object_size T m a"
proof -
  have stable: "rtti_stable T Obj m" using g by (simp add: heap_graph_def)
  have tv: "tag_variant Obj m (pinned_mem P m)" using P by (rule tag_variant_pinned)
  have sl: "slots T (pinned_mem P m) x = slots T m x \<and> object_size T (pinned_mem P m) x = object_size T m x" if "x \<in> Obj" for x
    using stable tv that by (auto simp: rtti_stable_def)
  have ch: "children T (pinned_mem P m) x = children T m x" if "x \<in> Obj" for x
  proof -
    have "r \<notin> P" if "r \<in> set (slots T m x)" for r using g P that \<open>x \<in> Obj\<close> by (auto simp: heap_graph_def)
    then show ?thesis using sl [OF that] by (simp add: children_def pinned_mem_def)
  qed
  show "heap_graph T nlm Obj (pinned_mem P m)"
    using g sl ch tag_variant_stable [OF tv stable] by (auto simp: heap_graph_def RawGc_at_pinned)
  show "children T (pinned_mem P m) a = children T m a" if "a \<in> Obj" using ch [OF that] .
  show "object_size T (pinned_mem P m) a = object_size T m a" if "a \<in> Obj" using sl [OF that] by blast
qed

lemma reachable_cong:
  assumes "R \<subseteq> Obj" "\<forall>a \<in> Obj. set (children T m a) \<subseteq> Obj" "\<forall>a \<in> Obj. children T m' a = children T m a"
  shows "reachable T m' R = reachable T m R"
proof -
  have sub: "reachable T m R \<subseteq> Obj" using reachable_least assms(1,2) by blast
  have sub': "reachable T m' R \<subseteq> Obj" using reachable_least [OF assms(1), of T m'] assms(2,3) by auto
  show ?thesis
  proof
    have "children T m' a = children T m a" if "a \<in> reachable T m R" for a using that sub assms(3) by blast
    then show "reachable T m' R \<subseteq> reachable T m R"
      by (intro reachable_least) (auto intro: reachable.intros)
    have "children T m a = children T m' a" if "a \<in> reachable T m' R" for a using that sub' assms(3) by auto
    then show "reachable T m R \<subseteq> reachable T m' R"
      by (intro reachable_least) (auto intro: reachable.intros)
  qed
qed

section \<open>The cycle\<close>

lemma set_stack_end_ok:
  assumes "immix_ok C s"
  shows "immix_ok C (set_tls ((tls s)\<lparr>stack_end := sp\<rparr>) s)" "avail_bytes (set_tls ((tls s)\<lparr>stack_end := sp\<rparr>) s) = avail_bytes s"
proof -
  let ?s = "set_tls ((tls s)\<lparr>stack_end := sp\<rparr>) s"
  have self: "self_id s < length (threads s)" using assms by (simp add: immix_ok_def space_ok_def)
  have "assets hdr ?s + thread_assets hdr (tls s) = assets hdr s + thread_assets hdr ((tls s)\<lparr>stack_end := sp\<rparr>)" for hdr
    using assets_set_tls [OF self] by simp
  then have as: "assets hdr ?s = assets hdr s" for hdr by (simp add: thread_assets_def)
  then show "avail_bytes ?s = avail_bytes s" by (simp add: avail_bytes_def)
  have "currents_ok ?s"
    using assms self by (auto simp: immix_ok_def space_ok_def currents_ok_def set_tls_def dest!: set_update_subset_insert [THEN subsetD])
  then show "immix_ok C ?s" using assms as by (simp add: immix_ok_def space_ok_def)
qed

lemma fold_unpin: "\<exists>m. fold unpin_object roots s = s\<lparr>mem := m\<rparr>"
proof (induction roots arbitrary: s)
  case Nil
  show ?case by (rule exI [of _ "mem s"]) simp
next
  case (Cons a roots)
  show ?case using Cons.IH [of "unpin_object a s"] by (auto simp: unpin_object_def)
qed

lemma set_live_mark_ok:
  "immix_ok C (s\<lparr>mem := m, space := ImmixSpace_set_current_live_mark lm (space s)\<rparr>) = immix_ok C s"
  "avail_bytes (s\<lparr>mem := m, space := ImmixSpace_set_current_live_mark lm (space s)\<rparr>) = avail_bytes s"
  "gc_objects (ImmixSpace_set_current_live_mark lm sp) = gc_objects sp"
  by (simp_all add: immix_ok_def space_ok_def assets_def currents_ok_def avail_bytes_def bitmap_ok_def
      ImmixSpace_set_current_live_mark_def gc_objects_def)

text \<open>What a cycle relies on: the stacks can be scanned, the objects form a graph whose members in the Immix space lie in
  blocks in use outside the headroom, and everything that a root can name is an object.\<close>

definition cycle_ready ::
    "rtti_table \<Rightarrow> (usize list \<Rightarrow> usize \<Rightarrow> bool) \<Rightarrow> usize set \<Rightarrow> usize list \<Rightarrow> (usize \<times> usize) list \<Rightarrow> 'm Immix \<Rightarrow> bool" where
  "cycle_ready T bs Obj precise_roots cons im \<longleftrightarrow>
     immix_ok (mset (all_blocks (collector im))) (heap im) \<and> los_ok (los im) (malloced im) \<and> search_ok bs (los im) \<and>
     (\<forall>r \<in> set (map stack_range (threads (heap im)) @ cons). range_scannable (los im) (heap im) r) \<and>
     heap_graph T (\<not> current_live_mark im) Obj (mem (heap im)) \<and>
     (\<forall>a \<in> Obj. ImmixSpace_filter_fast (space (heap im)) a \<longrightarrow> 16 dvd a \<and>
        ImmixBlock_get_block_ptr a \<in> used_blocks (block_allocator (space (heap im))) \<and>
        ImmixBlock_get_block_ptr a \<notin> set (e_evac_headroom (evac_allocator (space (heap im)))) \<and>
        object_in_block (ImmixBlock_get_block_ptr a) a (object_size T (mem (heap im)) a)) \<and>
     (\<forall>a. known_object (heap im) a \<or> large_object (los im) a \<longrightarrow> a \<in> Obj) \<and>
     (\<forall>r \<in> set precise_roots. r \<notin> Obj \<and> unat (mem (heap im) r) \<in> Obj)"

definition all_roots :: "usize list \<Rightarrow> (usize \<times> usize) list \<Rightarrow> 'm Immix \<Rightarrow> usize set" where
  "all_roots precise_roots cons im =
     set (cycle_roots im cons) \<union> (\<lambda>r. unat (mem (heap im) r)) ` set precise_roots"

lemma cycle_roots_known:
  "a \<in> set (cycle_roots im cons) \<Longrightarrow> known_object (heap im) a \<or> large_object (los im) a"
  using range_roots_known by (fastforce simp: cycle_roots_def)

text \<open>Pinning the roots changes neither what the precise roots name nor what is reachable.\<close>

lemma pinned_roots:
  assumes ready: "cycle_ready T bs Obj precise_roots cons im"
  defines "P \<equiv> set (cycle_roots im cons)" and "R \<equiv> all_roots precise_roots cons im"
  shows "P \<subseteq> Obj" "reachable T (mem (heap im)) R \<subseteq> Obj"
    and "r \<in> set precise_roots \<Longrightarrow> unat (pinned_mem P (mem (heap im)) r) \<in> Obj"
    and "R = P \<union> (\<lambda>r. unat (pinned_mem P (mem (heap im)) r)) ` set precise_roots"
    and "reachable T (pinned_mem P (mem (heap im))) R = reachable T (mem (heap im)) R"
proof -
  let ?m = "mem (heap im)"
  have g: "heap_graph T (\<not> current_live_mark im) Obj ?m" using ready by (simp add: cycle_ready_def)
  have "known_object (heap im) a \<or> large_object (los im) a \<longrightarrow> a \<in> Obj" for a using ready by (simp add: cycle_ready_def)
  then show P: "P \<subseteq> Obj" unfolding P_def using cycle_roots_known by blast
  have pr: "\<forall>r \<in> set precise_roots. r \<notin> Obj \<and> unat (?m r) \<in> Obj" using ready by (simp add: cycle_ready_def)
  then have word: "pinned_mem P ?m r = ?m r" if "r \<in> set precise_roots" for r using that P by (auto simp: pinned_mem_def)
  then show "unat (pinned_mem P ?m r) \<in> Obj" if "r \<in> set precise_roots" using pr that by simp
  show "R = P \<union> (\<lambda>r. unat (pinned_mem P ?m r)) ` set precise_roots" using word by (auto simp: R_def P_def all_roots_def)
  have RO: "R \<subseteq> Obj" using P pr by (auto simp: R_def P_def all_roots_def)
  have closed: "\<forall>a \<in> Obj. set (children T ?m a) \<subseteq> Obj" using g by (simp add: heap_graph_def)
  show "reachable T ?m R \<subseteq> Obj" using reachable_least [OF RO closed] .
  show "reachable T (pinned_mem P ?m) R = reachable T ?m R"
    using reachable_cong [OF RO closed, of "pinned_mem P ?m"] pinned_graph(2) [OF g P] by simp
qed

text \<open>Outside of the headroom, every used block is in hand.\<close>

lemma used_block_in_hand:
  assumes "space_ok (mset bs) s" "image_mset fst (assets (blocks s) s) = mset head"
    and "b \<in> used_blocks (block_allocator (space s))" "b \<notin> set head"
  shows "b \<in> set bs"
proof -
  have "mset head + mset bs = mset_set (used_blocks (block_allocator (space s)))" using assms(1,2) by (simp add: space_ok_def)
  moreover have "b \<in># mset_set (used_blocks (block_allocator (space s)))" using assms(3) by (simp add: used_blocks_def)
  ultimately show ?thesis using assms(4) by (metis in_multiset_in_set union_iff)
qed

lemma gathered_collect:
  assumes ready: "cycle_ready T bs Obj precise_roots cons im"
    and gather: "gather_roots bs cons im = Some (blks, pin_all (cycle_roots im cons) s, cycle_roots im cons)"
    and s: "immix_ok (mset (all_blocks (collector im)) + mset blks) s" "n_recyclable_blocks (allocator (space s)) = []"
      "bitmap (space s) = bitmap (space (heap im))" "block_allocator (space s) = block_allocator (space (heap im))"
      "image_mset fst (assets (blocks s) s) = mset (e_evac_headroom (evac_allocator (space (heap im))))"
      "mem s = mem (heap im)"
  defines "c \<equiv> Collector_extend_all_blocks blks (collector im)"
    and "L \<equiv> reachable T (mem (heap im)) (all_roots precise_roots cons im)"
  shows "\<exists>c' s' los' mh'. Collector_collect V T ImmixCollection (cycle_roots im cons) precise_roots (\<not> current_live_mark im)
      (c, pin_all (cycle_roots im cons) s, los im, malloced im)
      = Some (\<Sum>a \<in> L. object_size T (mem (heap im)) a, c', s', los', mh') \<and>
    immix_ok (mset (all_blocks c')) s' \<and>
    (\<forall>a \<in> L. ImmixSpace_filter_fast (space (heap im)) a \<longrightarrow>
       {a..<a + object_size T (mem (heap im)) a} \<inter> avail_bytes s' = {}) \<and>
    (\<forall>a \<in> Obj. ImmixSpace_filter_fast (space (heap im)) a \<longrightarrow> (a \<in> gc_objects (space s') \<longleftrightarrow> a \<in> L))"
proof -
  let ?h = "heap im" and ?P = "set (cycle_roots im cons)"
  define p where "p = pin_all (cycle_roots im cons) s"
  have mem: "mem p = pinned_mem ?P (mem ?h)" by (simp add: p_def s(6))
  note roots = pinned_roots [OF ready, folded mem L_def]
  have "heap_graph T (\<not> current_live_mark im) Obj (mem ?h)" and los: "los_ok (los im) (malloced im)"
    using ready by (simp_all add: cycle_ready_def)
  note pin = pinned_graph [OF this(1) roots(1), folded mem]
  have C: "mset (all_blocks c) = mset (all_blocks (collector im)) + mset blks" by (simp add: c_def Collector_extend_all_blocks_def)
  have ok: "immix_ok (mset (all_blocks c)) p" and rec: "n_recyclable_blocks (allocator (space p)) = []"
    using s(1,2) by (simp_all add: p_def pin_all_def immix_ok_mem C)
  have fast: "ImmixSpace_filter_fast (space p) = ImmixSpace_filter_fast (space ?h)" "gc_objects (space p) = gc_objects (space ?h)"
    using space_irrelevant [OF s(3,4)] by (simp_all add: p_def)
  have inC: "b \<in> set (all_blocks c)" if "b \<in> used_blocks (block_allocator (space ?h))" "b \<notin> set (e_evac_headroom (evac_allocator (space ?h)))" for b
    using used_block_in_hand [of "all_blocks c" s] s(1,4,5) that by (simp add: immix_ok_def C)
  have place: "16 dvd a \<and> ImmixBlock_get_block_ptr a \<in> set (all_blocks c) \<and>
      object_in_block (ImmixBlock_get_block_ptr a) a (object_size T (mem ?h) a)"
    if "a \<in> Obj" "ImmixSpace_filter_fast (space ?h) a" for a
    using ready that inC by (simp add: cycle_ready_def)
  have pl: "objects_placed T (mset (all_blocks c)) Obj p"
    using place pin(3) by (simp add: objects_placed_def fast)
  have sizes: "(\<Sum>a \<in> L. object_size T (mem p) a) = (\<Sum>a \<in> L. object_size T (mem ?h) a)" using roots(2) pin(3) by (intro sum.cong) auto
  have pr: "\<forall>r \<in> set precise_roots. unat (mem p r) \<in> Obj" using roots(3) by blast
  show ?thesis
    using collect_spec [OF ok rec pin(1) pl roots(1) pr roots(4) los, of V, unfolded roots(5) fast sizes]
  proof (elim exE conjE, goal_cases)
    case (1 c' s' los' mh')
    have "{a..<a + object_size T (mem ?h) a} \<inter> avail_bytes s' = {}" if "a \<in> L" "ImmixSpace_filter_fast (space ?h) a" for a
    proof -
      have "object_size T (mem p) a = object_size T (mem ?h) a" using pin(3) that(1) roots(2) by auto
      then show ?thesis using 1(3) [rule_format, OF that] by simp
    qed
    moreover have "a \<in> gc_objects (space s') \<longleftrightarrow> a \<in> L" if "a \<in> Obj" "ImmixSpace_filter_fast (space ?h) a" for a
    proof -
      have "a \<in> block_bytes (ImmixBlock_get_block_ptr a)" using place [OF that] by (auto simp: object_in_block_def)
      then have "a \<in> (\<Union>b \<in> set (all_blocks c). block_bytes b)" using place [OF that] by blast
      then show ?thesis using that(2) unfolding 1(4) by blast
    qed
    ultimately show ?case using 1(2)
      by (intro exI [of _ c'] exI [of _ s'] exI [of _ los'] exI [of _ mh'] conjI 1(1) [unfolded p_def]) auto
  qed
qed

definition at_safepoint :: "usize \<Rightarrow> 'm Immix \<Rightarrow> 'm Immix" where
  "at_safepoint sp im = im\<lparr>heap := set_tls ((tls (heap im))\<lparr>stack_end := sp\<rparr>) (heap im)\<rparr>"

lemma prepare_keep:
  assumes "total_blocks div 4 \<le> available + headroom"
  shows "Collector_prepare_collection V False available headroom total_blocks False c hdr = Some (ImmixCollection, hdr)"
  using assms by (simp add: Collector_prepare_collection_def EVAC_TRIGGER_of_def Let_def)

lemma at_safepoint_same [simp]:
  "mem (heap (at_safepoint sp im)) = mem (heap im)" "space (heap (at_safepoint sp im)) = space (heap im)" "los (at_safepoint sp im) = los im"
  "malloced (at_safepoint sp im) = malloced im" "collector (at_safepoint sp im) = collector im"
  "current_live_mark (at_safepoint sp im) = current_live_mark im" "threshold (at_safepoint sp im) = threshold im"
  "to_finalize (at_safepoint sp im) = to_finalize im" "collect_roots_callback (at_safepoint sp im) = collect_roots_callback im"
  by (simp_all add: at_safepoint_def)

text \<open>The state after a cycle, from the results of its parts.\<close>

lemma collect_internal_run:
  assumes callbacks: "run_callbacks (collect_roots_callback im) (mem (heap im)) = (precise_roots, cons)"
    and gather: "gather_roots bs cons (at_safepoint sp im) = Some (blks, pin_all roots s, roots)"
    and avail: "BlockAllocator_available_blocks (block_allocator (space s)) = Some available"
    and prep: "Collector_prepare_collection V False available (ImmixSpace_evac_headroom (space s))
        (BlockAllocator_total_blocks (block_allocator (space s))) False (Collector_extend_all_blocks blks (collector im)) (blocks s)
        = Some (ImmixCollection, blocks s)"
    and collect: "Collector_collect V T ImmixCollection roots precise_roots (\<not> current_live_mark im)
        (Collector_extend_all_blocks blks (collector im), pin_all roots s, los im, malloced im) = Some (v, c', s', los', mh')"
  shows "\<exists>im' m. Immix_collect_internal V T bs sp True False False im = Some im' \<and>
    heap im' = s'\<lparr>mem := m, space := ImmixSpace_set_current_live_mark (\<not> current_live_mark im) (space s')\<rparr> \<and> collector im' = c' \<and>
    bytes_allocated im' = v \<and> current_live_mark im' = (\<not> current_live_mark im) \<and> threshold im' = grow_threshold v (threshold im)"
proof -
  obtain m1 where m1: "fold unpin_object roots s' = s'\<lparr>mem := m1\<rparr>" using fold_unpin by blast
  obtain kept m2 where fin: "finalize_dead T (current_live_mark im) (to_finalize im) m1 = (kept, m2)" by fastforce
  have blk: "(pin_all roots s)\<lparr>blocks := blocks s\<rparr> = pin_all roots s" by (simp add: pin_all_def)
  show ?thesis
    using callbacks gather avail prep collect m1 fin unfolding Immix_collect_internal_def at_safepoint_def [symmetric]
    by (simp add: Let_def blk) blast
qed

lemma cycle_spec:
  assumes ready: "cycle_ready T bs Obj precise_roots cons (at_safepoint sp im)"
    and callbacks: "run_callbacks (collect_roots_callback im) (mem (heap im)) = (precise_roots, cons)"
    and room: "BlockAllocator_available_blocks (block_allocator (space (heap im))) = Some available"
      "BlockAllocator_total_blocks (block_allocator (space (heap im))) div 4
         \<le> available + length (e_evac_headroom (evac_allocator (space (heap im))))"
    and L: "L = reachable T (mem (heap im)) (all_roots precise_roots cons (at_safepoint sp im))"
  shows "\<exists>im'. Immix_collect_internal V T bs sp True False False im = Some im' \<and>
    immix_ok (mset (all_blocks (collector im'))) (heap im') \<and>
    bytes_allocated im' = (\<Sum>a \<in> L. object_size T (mem (heap im)) a) \<and>
    current_live_mark im' = (\<not> current_live_mark im) \<and>
    threshold im' = grow_threshold (bytes_allocated im') (threshold im) \<and>
    (\<forall>a \<in> Obj. ImmixSpace_filter_fast (space (heap im)) a \<longrightarrow> (a \<in> gc_objects (space (heap im')) \<longleftrightarrow> a \<in> L)) \<and>
    (\<forall>a \<in> L. ImmixSpace_filter_fast (space (heap im)) a \<longrightarrow>
       {a..<a + object_size T (mem (heap im)) a} \<inter> avail_bytes (heap im') = {})"
proof -
  define im1 where "im1 = at_safepoint sp im"
  note same = at_safepoint_same [of sp im, folded im1_def]
  have rdy: "cycle_ready T bs Obj precise_roots cons im1" using ready by (simp add: im1_def)
  then have pre: "immix_ok (mset (all_blocks (collector im))) (heap im1)" "search_ok bs (los im1)"
    "\<forall>r \<in> set (map stack_range (threads (heap im1)) @ cons). range_scannable (los im1) (heap im1) r"
    by (simp_all add: cycle_ready_def same)
  let ?roots = "cycle_roots im1 cons"
  show ?thesis using gather_roots_spec [OF pre]
  proof (elim exE conjE, goal_cases)
    case (1 blks s)
    let ?c = "Collector_extend_all_blocks blks (collector im)"
    note gather = 1(1)
    have prep: "Collector_prepare_collection V False available (ImmixSpace_evac_headroom (space s))
        (BlockAllocator_total_blocks (block_allocator (space s))) False ?c (blocks s) = Some (ImmixCollection, blocks s)"
      using room(2) 1(5,7) by (intro prepare_keep) (simp add: ImmixSpace_evac_headroom_def EvacAllocator_evac_headroom_def same)
    have avail: "BlockAllocator_available_blocks (block_allocator (space s)) = Some available" using room(1) 1(5) by (simp add: same)
    note coll = gathered_collect [OF rdy 1(1) _ 1(3,4,5,6,9), of V, unfolded same, folded im1_def, OF 1(2)]
    show ?case using coll
    proof (elim exE conjE, goal_cases)
      case (1 c' s' los' mh')
      have "Collector_collect V T ImmixCollection ?roots precise_roots (\<not> current_live_mark im)
          (?c, pin_all ?roots s, los im, malloced im) = Some (\<Sum>a \<in> L. object_size T (mem (heap im)) a, c', s', los', mh')"
        using 1(1) by (simp add: L im1_def)
      from collect_internal_run [OF callbacks gather [unfolded im1_def] avail prep this [unfolded im1_def]]
      show ?case using 1(2,3,4) by (auto simp: set_live_mark_ok L im1_def)
    qed
  qed
qed

section \<open>Properties\<close>


text \<open>A library state for the witness: one thread whose stack holds the address of the only object.\<close>

definition live_heap :: heap_state where
  "live_heap = the (on_space (ImmixSpace_set_gc_object 98432) evac_heap)
     \<lparr>mem := (\<lambda>x. if x = 16 then 98432 else 0),
      threads := [\<lparr>safepoint = 0, gc_state = 0, current_block = None, current_ovf_block = None, stack_bottom = 32, stack_end = 16\<rparr>]\<rparr>"

definition live_immix :: "(usize \<Rightarrow> usize option) Immix" where
  "live_immix = \<lparr>heap = live_heap, los = LargeObjectSpace_new, malloced = empty_malloc, gc_stats = StatsNone,
     bytes_allocated = 16, threshold = 102400, current_live_mark = False, collect_roots_callback = [immix_noop_callback],
     collector = \<lparr>all_blocks = [98304], mark_histogram = (\<lambda>_. None)\<rparr>, to_finalize = []\<rparr>"

lemma evac_heap_allocator:
  "mmap_start (mmap (block_allocator (space evac_heap))) = 65536" "data_bound (block_allocator (space evac_heap)) = 589824"
  "Mmap_aligned (mmap (block_allocator (space evac_heap))) = 98304" "mmap_end (mmap (block_allocator (space evac_heap))) = 589824"
  "data (block_allocator (space evac_heap)) = 163840" "free_blocks (block_allocator (space evac_heap)) = []"
  "threads evac_heap = threads sample_heap" "self_id evac_heap = 0"
  by (simp_all add: evac_heap_def sample_heap_def ImmixSpace_new_def BlockAllocator_new_def Mmap_new_def Mmap_aligned_def BLOCK_SIZE_def)

lemma live_heap_props:
  "immix_ok {#98304#} live_heap" "gc_objects (space live_heap) = {98432}"
  "block_allocator (space live_heap) = block_allocator (space evac_heap)"
  "e_evac_headroom (evac_allocator (space live_heap)) = [131072]"
  "mem live_heap = (\<lambda>x. if x = 16 then 98432 else 0)" "self_id live_heap = 0"
  "threads live_heap = [\<lparr>safepoint = 0, gc_state = 0, current_block = None, current_ovf_block = None, stack_bottom = 32, stack_end = 16\<rparr>]"
proof -
  obtain bm where bm: "on_space (ImmixSpace_set_gc_object 98432) evac_heap = Some (evac_heap\<lparr>space := (space evac_heap)\<lparr>bitmap := bm\<rparr>\<rparr>)"
    "immix_ok {#98304#} (evac_heap\<lparr>space := (space evac_heap)\<lparr>bitmap := bm\<rparr>\<rparr>)"
    "gc_objects ((space evac_heap)\<lparr>bitmap := bm\<rparr>) = insert 98432 (gc_objects (space evac_heap))"
    using set_gc_object_spec [OF evac_heap_ok, of 98432] by (auto simp: evac_heap_allocator)
  have "gc_objects (space evac_heap) = gc_objects (space sample_heap)" by (simp add: gc_objects_def evac_heap_def)
  then show "gc_objects (space live_heap) = {98432}"
    using bm by (simp add: live_heap_def sample_heap_ok(2))
  show "immix_ok {#98304#} live_heap"
    using bm(1,2) by (simp add: live_heap_def immix_ok_def space_ok_def assets_def currents_ok_def sample_heap_def evac_heap_def
        thread_assets_def current_assets_def current_ok_def)
  show "block_allocator (space live_heap) = block_allocator (space evac_heap)"
    "e_evac_headroom (evac_allocator (space live_heap)) = [131072]"
    "mem live_heap = (\<lambda>x. if x = 16 then 98432 else 0)" "self_id live_heap = 0"
    "threads live_heap = [\<lparr>safepoint = 0, gc_state = 0, current_block = None, current_ovf_block = None, stack_bottom = 32, stack_end = 16\<rparr>]"
    using bm(1) by (simp_all add: live_heap_def evac_heap_allocator evac_heap_simps)
qed

lemma live_immix_words: "range_words 32 16 = [16, 24]"
  by (simp add: range_words_def align_usize_16 upt_rec)

lemma live_immix_known: "known_object live_heap a \<longleftrightarrow> a = 98432"
  by (auto simp: known_object_def live_heap_props evac_heap_allocator)

lemma live_immix_safepoint: "at_safepoint 16 live_immix = live_immix"
  by (simp add: at_safepoint_def live_immix_def live_heap_props set_tls_def)

lemma live_immix_ready:
  "cycle_ready sample_rtti (\<lambda>xs x. x \<in> set xs) {98432} [] [] (at_safepoint 16 live_immix)"
  "all_roots [] [] (at_safepoint 16 live_immix) = {98432}"
proof -
  have large: "\<not> large_object LargeObjectSpace_new a" for a by (simp add: large_object_def LargeObjectSpace_new_def)
  have sc: "range_scannable LargeObjectSpace_new live_heap (32, 16)"
    by (simp add: range_scannable_def live_immix_words scannable_def live_immix_known large live_heap_props evac_heap_allocator
        minus8_def)
  have graph: "heap_graph sample_rtti True {98432} (mem live_heap)"
    by (auto simp: heap_graph_def rtti_stable_def children_def live_heap_props RawGc_at_def
      RawGc_is_forwarded_def RawGc_get_mark_def TaggedPointer_bit_is_set_def bit_is_set_def one_shl_def)
  have used: "98304 \<in> used_blocks (block_allocator (space live_heap))"
  proof -
    have "98304 \<in># mset_set (used_blocks (block_allocator (space live_heap)))"
      using live_heap_props(1) by (metis immix_ok_def space_ok_def multi_member_this union_iff)
    then show ?thesis by (simp add: used_blocks_def)
  qed
  show "cycle_ready sample_rtti (\<lambda>xs x. x \<in> set xs) {98432} [] [] (at_safepoint 16 live_immix)"
    unfolding live_immix_safepoint
    using sc graph used by (simp add: cycle_ready_def live_immix_def los_ok_new search_ok_def live_heap_props(1,4,7) large
        live_immix_known ImmixBlock_get_block_ptr_def object_in_block_def BLOCK_SIZE_def)
  show "all_roots [] [] (at_safepoint 16 live_immix) = {98432}"
    unfolding live_immix_safepoint
    by (simp add: all_roots_def cycle_roots_def live_immix_def live_heap_props(7) range_roots_def live_immix_words
        roots_of_word_def live_immix_known large) (simp add: live_heap_props minus8_def)
qed


text \<open>C6: The conservative scan of a stack that ends at \<open>lo\<close> and starts at \<open>hi\<close> reads exactly the words between the two
  addresses, each rounded up to 16. It finds exactly the large objects and the objects of the bitmap that these words
  name, directly or as the address of their data, pins them and changes nothing else. A word below
  the rounded end is not read, even if it belongs to the stack.\<close>

theorem collect_roots_exact:
  assumes "immix_ok C s" "search_ok bs l" and "0 < lo" "lo \<le> hi" "hi + 16 \<le> 2 ^ 64"
    and "\<forall>x. 8 dvd x \<and> align_usize lo 16 \<le> x \<and> x < align_usize hi 16 \<longrightarrow> scannable l s x"
  shows "\<exists>s' roots. Immix_collect_roots bs l mh hi lo (s, []) = Some (s', roots) \<and>
    s' = s\<lparr>mem := mem s'\<rparr> \<and>
    (\<forall>a. a \<in> set roots \<longleftrightarrow> (\<exists>x w. 8 dvd x \<and> align_usize lo 16 \<le> x \<and> x < align_usize hi 16 \<and> w = unat (mem s x) \<and> w \<noteq> 0 \<and>
       (if PreciseAllocation_is_precise w \<and> large_object l w then a = w
        else known_object s a \<and> (w = a \<or> minus8 w = a)))) \<and>
    (\<forall>a \<in> set roots. RawGc_is_pinned (RawGc_at (mem s') a)) \<and> (\<forall>x. x \<notin> set roots \<longrightarrow> mem s' x = mem s x)"
proof -
  have lo16: "lo + 16 \<le> 2 ^ 64" using assms(4,5) by simp
  note words = range_words_mem [OF lo16 assms(5,3,4)]
  have bm: "bitmap_ok (space s)" using assms(1) by (simp add: immix_ok_def)
  have sc: "range_scannable l s (hi, lo)" using assms(6) words by (simp add: range_scannable_def)
  let ?roots = "range_roots l s (hi, lo)"
  have "Immix_collect_roots bs l mh hi lo (s, []) = Some (pin_all ?roots s, ?roots)"
    using collect_roots_spec [OF bm assms(2) sc, of "[]" mh] by simp
  moreover have "pin_all ?roots s = s\<lparr>mem := mem (pin_all ?roots s)\<rparr>" by (simp add: pin_all_def)
  moreover have "a \<in> set ?roots \<longleftrightarrow> (\<exists>x w. 8 dvd x \<and> align_usize lo 16 \<le> x \<and> x < align_usize hi 16 \<and> w = unat (mem s x) \<and> w \<noteq> 0 \<and>
       (if PreciseAllocation_is_precise w \<and> large_object l w then a = w else known_object s a \<and> (w = a \<or> minus8 w = a)))" for a
  proof -
    have "a \<in> set (roots_of_word l s w) \<longleftrightarrow> w \<noteq> 0 \<and>
       (if PreciseAllocation_is_precise w \<and> large_object l w then a = w else known_object s a \<and> (w = a \<or> minus8 w = a))" for w
      by (auto simp: roots_of_word_def)
    then show ?thesis using words by (auto simp: range_roots_def)
  qed
  moreover have "RawGc_is_pinned (RawGc_at (mem (pin_all ?roots s)) a)" if "a \<in> set ?roots" for a
    using that by (simp add: RawGc_at_pinned)
  moreover have "mem (pin_all ?roots s) x = mem s x" if "x \<notin> set ?roots" for x using that by (simp add: pinned_mem_def)
  ultimately show ?thesis by blast
qed

theorem collect_roots_exact_witness:
  "\<exists>s' roots. Immix_collect_roots (\<lambda>xs x. x \<in> set xs) LargeObjectSpace_new empty_malloc 32 16 (live_heap, []) = Some (s', roots) \<and>
     98432 \<in> set roots \<and> RawGc_is_pinned (RawGc_at (mem s') 98432)"
proof -
  have large: "\<not> large_object LargeObjectSpace_new a" for a by (simp add: large_object_def LargeObjectSpace_new_def)
  have "search_ok (\<lambda>xs x. x \<in> set xs) LargeObjectSpace_new" by (simp add: search_ok_def los_ok_new)
  moreover have "\<forall>x. 8 dvd x \<and> align_usize 16 16 \<le> x \<and> x < align_usize 32 16 \<longrightarrow> scannable LargeObjectSpace_new live_heap x"
    by (auto simp: scannable_def live_immix_known large live_heap_props evac_heap_allocator minus8_def align_usize_16)
  ultimately obtain s' roots where run:
    "Immix_collect_roots (\<lambda>xs x. x \<in> set xs) LargeObjectSpace_new empty_malloc 32 16 (live_heap, []) = Some (s', roots)"
    and roots: "\<And>a. a \<in> set roots \<longleftrightarrow> (\<exists>x w. 8 dvd x \<and> align_usize 16 16 \<le> x \<and> x < align_usize 32 16 \<and> w = unat (mem live_heap x) \<and> w \<noteq> 0 \<and>
       (if PreciseAllocation_is_precise w \<and> large_object LargeObjectSpace_new w then a = w
        else known_object live_heap a \<and> (w = a \<or> minus8 w = a)))"
    and pinned: "\<And>a. a \<in> set roots \<Longrightarrow> RawGc_is_pinned (RawGc_at (mem s') a)"
    using collect_roots_exact [OF live_heap_props(1), of "\<lambda>xs x. x \<in> set xs" LargeObjectSpace_new 16 32 empty_malloc] by force
  have "98432 \<in> set roots" unfolding roots
    by (rule exI [of _ 16], rule exI [of _ 98432]) (simp add: large live_immix_known live_heap_props align_usize_16)
  then show ?thesis using run pinned by blast
qed

definition dead_finalizable :: "rtti_table \<Rightarrow> bool \<Rightarrow> memory \<Rightarrow> usize \<Rightarrow> bool" where
  "dead_finalizable T lm m a \<longleftrightarrow> RawGc_get_mark (RawGc_at m a) = lm \<and> needs_finalization (RawGc_rtti T (RawGc_at m a))"

definition run_finalizer :: "rtti_table \<Rightarrow> memory \<Rightarrow> usize \<Rightarrow> memory \<Rightarrow> memory" where
  "run_finalizer T m0 a m = (case finalizer (RawGc_rtti T (RawGc_at m0 a)) of Some fin \<Rightarrow> fin a m | None \<Rightarrow> m)"

lemma finalize_dead_spec:
  assumes "\<forall>v fin a m x. finalizer (T v) = Some fin \<and> x \<in> set es \<longrightarrow> fin a m x = m x" and "\<forall>x \<in> set es. m x = m0 x"
  shows "finalize_dead T lm es m
    = (filter (\<lambda>a. \<not> dead_finalizable T lm m0 a) es, fold (run_finalizer T m0) (filter (dead_finalizable T lm m0) es) m)"
  using assms
proof (induction es arbitrary: m)
  case (Cons a es)
  have a: "RawGc_at m a = RawGc_at m0 a" using Cons.prems(2) by (simp add: RawGc_at_def)
  have keep: "\<forall>x \<in> set es. run_finalizer T m0 a m x = m0 x"
  proof
    fix x assume "x \<in> set es"
    then have "m x = m0 x" "\<forall>v fin. finalizer (T v) = Some fin \<longrightarrow> fin a m x = m x" using Cons.prems by (simp, fastforce)
    then show "run_finalizer T m0 a m x = m0 x" by (simp add: run_finalizer_def RawGc_rtti_def split: option.splits)
  qed
  have "\<forall>v fin a m x. finalizer (T v) = Some fin \<and> x \<in> set es \<longrightarrow> fin a m x = m x" using Cons.prems(1) by auto
  note IH = Cons.IH [OF this]
  show ?case
    using IH [OF keep] IH [of m] Cons.prems(2)
    by (simp add: Let_def a dead_finalizable_def run_finalizer_def [symmetric])
qed simp

text \<open>C14: The finalization step runs the finalizer of exactly the listed objects that kept the old mark and need
  finalization, in the order of the list and once per entry, and removes exactly these entries. The finalizers are assumed
  not to write to the headers of listed objects.\<close>

theorem finalize_exact:
  assumes "\<forall>v fin a m x. finalizer (T v) = Some fin \<and> x \<in> set es \<longrightarrow> fin a m x = m x"
  shows "finalize_dead T lm es m
    = (filter (\<lambda>a. \<not> dead_finalizable T lm m a) es, fold (run_finalizer T m) (filter (dead_finalizable T lm m) es) m)"
  using finalize_dead_spec [OF assms] by simp

theorem finalize_exact_witness:
  "finalize_dead (\<lambda>_. (sample_rtti 0)\<lparr>needs_finalization := True, finalizer := Some (\<lambda>a m. m(0 := m 0 + of_nat a))\<rparr>) False [48, 32, 16]
     (put_header 32 (snd (RawGc_mark (RawGc_new 0) True)) (\<lambda>_. 0))
   = ([32], (put_header 32 (snd (RawGc_mark (RawGc_new 0) True)) (\<lambda>_. 0))(0 := 64))"
proof -
  let ?T = "\<lambda>_::usize. (sample_rtti 0)\<lparr>needs_finalization := True, finalizer := Some (\<lambda>a m. m(0 := m 0 + of_nat a))\<rparr>"
  have "\<forall>v fin a m x. finalizer (?T v) = Some fin \<and> x \<in> set [48, 32, 16] \<longrightarrow> fin a m x = m x" by auto
  moreover have "RawGc_at (\<lambda>_. 0) a = RawGc_new 0" "\<not> RawGc_get_mark (RawGc_new 0)" for a
    by (simp_all add: RawGc_at_def RawGc_ops bit_is_set_def one_shl_def)
  ultimately show ?thesis
    using finalize_exact [of ?T "[48, 32, 16]" False "put_header 32 (snd (RawGc_mark (RawGc_new 0) True)) (\<lambda>_. 0)"]
    by (simp add: dead_finalizable_def run_finalizer_def RawGc_rtti_def) (simp add: put_header_def)
qed

text \<open>The header that a new object gets.\<close>

lemma RawGc_new_flags:
  assumes "8 dvd v" "v < 2 ^ 64"
  shows "\<not> RawGc_is_pinned (RawGc_new v)" "\<not> RawGc_is_forwarded (RawGc_new v)"
proof -
  have "\<not> bit (of_nat v :: 64 word) i" if "i < 3" for i
  proof -
    obtain k where k: "v = 2 ^ 3 * k" using assms(1) by (auto elim: dvdE)
    have "of_nat v = push_bit 3 (of_nat k :: 64 word)" by (simp add: k push_bit_eq_mult mult.commute)
    then show ?thesis using that by (simp add: bit_push_bit_iff)
  qed
  then show "\<not> RawGc_is_pinned (RawGc_new v)" "\<not> RawGc_is_forwarded (RawGc_new v)"
    by (simp_all add: RawGc_ops)
qed

text \<open>C7: Below the threshold, an allocation of a small or medium object of the library takes the first bytes that the space
  offers, without a collection: the object lies in bytes that were available and stop being so, is in the
  bitmap, and has a header with its type, the live mark and neither the pin nor the forwarding bit. The counter grows by the size
  rounded up to 16 bytes, header included, the object is listed for finalization exactly if its type needs it, and no other
  word changes.\<close>

theorem allocate_fresh_object:
  assumes "immix_ok C (heap im)" and "0 < sz" "sz + 16 \<le> 2 ^ 64" "align_usize sz 16 < LARGE_OBJECT"
    and "bytes_allocated im < threshold im" and "8 dvd rtti" "rtti < 2 ^ 64"
    and "\<forall>s. ImmixSpace_allocate (align_usize sz 16) (heap im) \<noteq> Some (0, s)"
  shows "\<exists>a im'. immix_alloc V T bs env sz rtti im = Some (a, im') \<and> immix_ok C (heap im') \<and>
    allocated_object (align_usize sz 16) a \<and> {a..<a + align_usize sz 16} \<subseteq> avail_bytes (heap im) - avail_bytes (heap im') \<and>
    gc_objects (space (heap im')) = insert a (gc_objects (space (heap im))) \<and>
    RawGc_vtable (RawGc_at (mem (heap im')) a) = rtti \<and> RawGc_get_mark (RawGc_at (mem (heap im')) a) = current_live_mark im \<and>
    \<not> RawGc_is_pinned (RawGc_at (mem (heap im')) a) \<and> \<not> RawGc_is_forwarded (RawGc_at (mem (heap im')) a) \<and>
    (\<forall>x. x \<noteq> a \<longrightarrow> mem (heap im') x = mem (heap im) x) \<and>
    bytes_allocated im' = bytes_allocated im + align_usize sz 16 \<and>
    to_finalize im' = (if needs_finalization (T rtti) then to_finalize im @ [a] else to_finalize im)"
proof -
  let ?n = "align_usize sz 16"
  have n: "16 dvd ?n" "0 < ?n" "?n \<le> LARGE_OBJECT"
    using align_usize_16_ge [OF assms(3)] assms(2,4) by simp_all
  obtain a s' where run: "ImmixSpace_allocate ?n (heap im) = Some (a, s')" and s': "immix_ok C s'" "mem s' = mem (heap im)"
    and cases: "a = 0 \<or> allocated_object ?n a \<and> {a..<a + ?n} \<subseteq> avail_bytes (heap im) \<and>
       avail_bytes s' \<subseteq> avail_bytes (heap im) - {a..<a + ?n} \<and> gc_objects (space s') = insert a (gc_objects (space (heap im)))"
    using immix_allocate_spec [OF assms(1) n] by blast
  have a: "a \<noteq> 0" using assms(8) run by auto
  let ?im = "init_object T a ?n rtti (im\<lparr>heap := s'\<rparr>)"
  have "immix_alloc V T bs env sz rtti im = Some (a, ?im)"
    using assms(4,5) a run by (simp add: immix_alloc_def Immix_allocate_def)
  moreover have "immix_ok C (heap ?im)" using s'(1) by (simp add: init_object_def Let_def immix_ok_mem)
  moreover have "avail_bytes (heap ?im) = avail_bytes s'"
    by (simp add: init_object_def Let_def avail_bytes_def assets_def)
  moreover have "space (heap ?im) = space s'" by (simp add: init_object_def Let_def)
  moreover have "RawGc_at (mem (heap ?im)) a = snd (RawGc_mark (RawGc_new rtti) (current_live_mark im))"
    by (simp add: init_object_def Let_def)
  moreover have "mem (heap ?im) x = mem (heap im) x" if "x \<noteq> a" for x
    using that s'(2) by (simp add: init_object_def Let_def put_header_def)
  moreover have "to_finalize ?im = (if needs_finalization (T rtti) then to_finalize im @ [a] else to_finalize im)"
    "bytes_allocated ?im = bytes_allocated im + ?n"
    using assms(4) RawGc_new_vtable [OF assms(6,7)] by (simp_all add: init_object_def Let_def RawGc_rtti_def)
  ultimately show ?thesis
    using cases a RawGc_new_flags [OF assms(6,7)] RawGc_new_vtable [OF assms(6,7)]
    by (intro exI [of _ a] exI [of _ ?im]) auto
qed

lemmas allocate_steps = ImmixSpace_allocate_def Allocator_allocate_def Normal_ops_def NormalAllocator_take_current_block_def
  NormalAllocator_put_current_block_def NormalAllocator_get_new_block_def NormalAllocator_handle_no_hole.simps
  get_global_block_def BlockAllocator_get_block_def BlockAllocator_build_block_def Allocator_allocate_from_block_def

lemmas sample_steps = sample_heap_def ImmixSpace_new_def BlockAllocator_new_def Mmap_new_def Mmap_aligned_def
  NormalAllocator_new_def vec_pop_def set_normal_def set_tls_def Let_def align_usize_def ImmixBlock_offset_def as_u16_def
  LINE_SIZE_def BLOCK_SIZE_def

lemma sample_heap_first:
  assumes "n \<in> {0, 16, 32}"
  shows "\<exists>s1. Allocator_allocate Normal_ops blocks n sample_heap = Some (98432, s1) \<and> self_id s1 = 0 \<and>
    threads s1 = [\<lparr>safepoint = 0, gc_state = 0, current_block = Some (98304, 128 + n, 32767), current_ovf_block = None,
                  stack_bottom = 0, stack_end = 0\<rparr>]"
  using assms by (auto simp: allocate_steps sample_steps)

lemma sample_heap_set:
  assumes n: "n \<in> {0, 16, 32}" and run: "Allocator_allocate Normal_ops blocks n sample_heap = Some (98432, s1)"
  shows "\<exists>bm. ImmixSpace_allocate n sample_heap = Some (98432, s1\<lparr>space := (space s1)\<lparr>bitmap := bm\<rparr>\<rparr>) \<and>
    immix_ok {#} (s1\<lparr>space := (space s1)\<lparr>bitmap := bm\<rparr>\<rparr>)"
proof -
  have inv: "space_at (outside sample_heap) {#} sample_heap" using sample_heap_ok by (simp add: space_at_def immix_ok_def)
  have "16 dvd n" "n \<le> LARGE_OBJECT" using n by (auto simp: LARGE_OBJECT_def)
  then have s1: "space_ok {#} s1" "outside s1 = outside sample_heap"
    using normal.allocate_spec [OF inv, of n] run by (auto simp: space_at_def)
  then have ok: "immix_ok {#} s1" using sample_heap_ok(1) outside_eqD [OF s1(2)] by (simp add: immix_ok_def)
  have "mmap_start (mmap (block_allocator (space s1))) = 65536" "data_bound (block_allocator (space s1)) = 589824"
    using s1(2) by (auto simp: outside_def sample_steps)
  then show ?thesis using set_gc_object_spec [OF ok, of 98432] run n
    by (auto simp: ImmixSpace_allocate_def MEDIUM_OBJECT_def LINE_SIZE_def Address_is_non_null_def)
qed

theorem allocate_fresh_object_witness:
  "\<exists>a im'. immix_alloc map_VecMap sample_rtti (\<lambda>xs x. x \<in> set xs)
     \<lparr>env_sp = 16, env_malloc = None, env_started = True, env_started_again = True\<rparr> 24 4096 (live_immix\<lparr>heap := sample_heap\<rparr>) = Some (a, im') \<and>
     allocated_object 32 a \<and> bytes_allocated im' = 48"
proof -
  have n: "align_usize 24 16 = 32" by (simp add: align_usize_def)
  obtain s1 where "Allocator_allocate Normal_ops blocks 32 sample_heap = Some (98432, s1)" using sample_heap_first [of 32] by auto
  then obtain s2 where "ImmixSpace_allocate 32 sample_heap = Some (98432, s2)" using sample_heap_set [of 32 s1] by auto
  then have "\<forall>s. ImmixSpace_allocate (align_usize 24 16) (heap (live_immix\<lparr>heap := sample_heap\<rparr>)) \<noteq> Some (0, s)" by (simp add: n)
  moreover have "bytes_allocated (live_immix\<lparr>heap := sample_heap\<rparr>) < threshold (live_immix\<lparr>heap := sample_heap\<rparr>)"
    by (simp add: live_immix_def)
  ultimately show ?thesis
    using allocate_fresh_object [of "{#}" "live_immix\<lparr>heap := sample_heap\<rparr>" 24 4096 map_VecMap sample_rtti "\<lambda>xs x. x \<in> set xs"
        "\<lparr>env_sp = 16, env_malloc = None, env_started = True, env_started_again = True\<rparr>"]
      sample_heap_ok(1) unfolding n by (fastforce simp: LARGE_OBJECT_def live_immix_def)
qed

text \<open>Two allocations from the empty sample heap; \<open>n\<close> is the size of the first one.\<close>

definition after_first :: "nat \<Rightarrow> 'm Immix \<Rightarrow> bool" where
  "after_first n im \<longleftrightarrow> immix_ok {#} (heap im) \<and> bytes_allocated im < threshold im \<and> self_id (heap im) = 0 \<and>
     threads (heap im) = [\<lparr>safepoint = 0, gc_state = 0, current_block = Some (98304, 128 + n, 32767), current_ovf_block = None,
       stack_bottom = 0, stack_end = 0\<rparr>]"

lemma sample_alloc_first:
  assumes "n \<in> {0, 16}"
  shows "\<exists>im. immix_alloc V T bs env n rtti (live_immix\<lparr>heap := sample_heap\<rparr>) = Some (98432, im) \<and> after_first n im"
proof -
  let ?im = "live_immix\<lparr>heap := sample_heap\<rparr>"
  obtain s1 where s1: "Allocator_allocate Normal_ops blocks n sample_heap = Some (98432, s1)" "self_id s1 = 0"
    "threads s1 = [\<lparr>safepoint = 0, gc_state = 0, current_block = Some (98304, 128 + n, 32767), current_ovf_block = None,
                  stack_bottom = 0, stack_end = 0\<rparr>]"
    using sample_heap_first [of n] assms by auto
  obtain bm where bm: "ImmixSpace_allocate n sample_heap = Some (98432, s1\<lparr>space := (space s1)\<lparr>bitmap := bm\<rparr>\<rparr>)"
    "immix_ok {#} (s1\<lparr>space := (space s1)\<lparr>bitmap := bm\<rparr>\<rparr>)"
    using sample_heap_set [OF _ s1(1)] assms by auto
  let ?im1 = "init_object T 98432 n rtti (?im\<lparr>heap := s1\<lparr>space := (space s1)\<lparr>bitmap := bm\<rparr>\<rparr>\<rparr>)"
  have "immix_alloc V T bs env n rtti ?im = Some (98432, ?im1)"
    using bm(1) assms by (auto simp: immix_alloc_def Immix_allocate_def live_immix_def align_usize_def LARGE_OBJECT_def)
  moreover have "after_first n ?im1"
    using bm(2) s1(2,3) assms by (auto simp: after_first_def init_object_def Let_def immix_ok_mem live_immix_def)
  ultimately show ?thesis by blast
qed

lemma sample_alloc_next:
  assumes "after_first n im" "n \<in> {0, 16}"
  shows "\<exists>im'. immix_alloc V T bs env 16 rtti im = Some (98432 + n, im') \<and>
    mem (heap im') (98432 + n) = raw (vtable (snd (RawGc_mark (RawGc_new rtti) (current_live_mark im))))"
proof -
  have "\<exists>s. Allocator_allocate Normal_ops blocks 16 (heap im) = Some (98432 + n, s)"
    using assms by (auto simp: after_first_def allocate_steps Allocator_scan_for_hole.simps usub_def set_tls_def Let_def align_usize_def
        as_u16_def ImmixBlock_offset_def)
  moreover obtain a s' where "ImmixSpace_allocate 16 (heap im) = Some (a, s')"
    using immix_allocate_spec [of "{#}" "heap im" 16] assms(1) by (auto simp: after_first_def LARGE_OBJECT_def)
  ultimately obtain s where "ImmixSpace_allocate 16 (heap im) = Some (98432 + n, s)"
    by (auto simp: ImmixSpace_allocate_def MEDIUM_OBJECT_def LINE_SIZE_def bind_eq_Some_conv)
  then show ?thesis using assms(1)
    by (simp add: immix_alloc_def Immix_allocate_def align_usize_def LARGE_OBJECT_def after_first_def init_object_def Let_def put_header_def)
qed


text \<open>C15: The first initialisation, on a heap region that the system grants, gives a state that satisfies the invariant of the
  space, with an empty bitmap, no allocated byte, a positive threshold, the callback registered, and at least 16
  blocks and the whole blocks of the requested heap size. A requested size of up to 512 KiB also replaces the
  requested threshold. Later initialisations change nothing.\<close>

theorem init_heap:
  assumes "2048 dvd p" "0 < p" "heap_sz + p < 2 ^ 63" "16 dvd a"
    and "blocks s = (\<lambda>_. ImmixBlock_new)" "self_id s < length (threads s)" "\<forall>t \<in> set (threads s). idle_thread t"
  shows "\<exists>im. immix_init V p (Some a) heap_sz thr cb s None = Some (Some im) \<and>
    immix_ok {#} (heap im) \<and> gc_objects (space (heap im)) = {} \<and> bytes_allocated im = 0 \<and> 0 < threshold im \<and>
    collect_roots_callback im = [cb] \<and>
    max 16 (heap_sz div BLOCK_SIZE) \<le> BlockAllocator_total_blocks (block_allocator (space (heap im))) \<and>
    (heap_sz \<le> 512 * 1024 \<longrightarrow> threshold im = 100 * 1024) \<and>
    (heap_sz > 512 * 1024 \<longrightarrow> threshold im = (if thr = 0 then 30 * heap_sz div 100 else thr)) \<and>
    immix_init V p' a' heap_sz' thr' cb' s' (Some im) = Some (Some im)"
proof -
  obtain hs th where sizes: "init_sizes heap_sz thr = (hs, th)" by fastforce
  have hs: "max (16 * BLOCK_SIZE) heap_sz \<le> hs" "hs \<le> heap_sz + 524288" "0 < th"
    using sizes by (auto simp: init_sizes_def BLOCK_SIZE_def split: if_splits)
  define sz where "sz = align_usize (hs + BLOCK_SIZE) p"
  have "hs + BLOCK_SIZE + p \<le> 2 ^ 64" using hs(2) assms(3) by (simp add: BLOCK_SIZE_def)
  note al = align_usize_bounds [OF assms(2) this, folded sz_def]
  have sz: "BLOCK_SIZE \<le> sz" "2048 dvd sz" "sz + 1024 \<le> 2 ^ 64"
    using al hs(2) assms(1,3) dvd_trans by (auto simp: BLOCK_SIZE_def)
  define ba where "ba = the (BlockAllocator_new (Some a) sz)"
  obtain sp where new: "ImmixSpace_new (Some a) sz = Some sp" and ba: "block_allocator sp = ba"
    by (simp add: ImmixSpace_new_def BlockAllocator_new_def Mmap_new_def ba_def)
  let ?s = "s\<lparr>space := sp\<rparr>"
  have ok: "immix_ok {#} ?s" "gc_objects (space ?s) = {}" using new_space_ok [OF new sz assms(4), of ?s] assms(5-7) by simp_all
  have "BLOCK_SIZE - a mod BLOCK_SIZE \<le> BLOCK_SIZE" by simp
  then have "hs div BLOCK_SIZE \<le> BlockAllocator_total_blocks ba"
    using al(2) by (auto simp: ba_def BlockAllocator_total_blocks_def BlockAllocator_new_def Mmap_new_def Mmap_aligned_def Let_def
        intro!: div_le_mono)
  moreover have "max 16 (heap_sz div BLOCK_SIZE) \<le> hs div BLOCK_SIZE"
  proof -
    have "16 * BLOCK_SIZE div BLOCK_SIZE \<le> hs div BLOCK_SIZE" "heap_sz div BLOCK_SIZE \<le> hs div BLOCK_SIZE"
      using hs(1) by (intro div_le_mono; simp)+
    then show ?thesis by (simp add: BLOCK_SIZE_def)
  qed
  ultimately have total: "max 16 (heap_sz div BLOCK_SIZE) \<le> BlockAllocator_total_blocks (block_allocator sp)"
    unfolding ba by (rule order_trans [rotated])
  show ?thesis
    using new ok total hs(3) sizes unfolding sz_def
    by (auto simp: immix_init_def Immix_new_def init_sizes_def split: if_splits)
qed

theorem init_heap_witness:
  "\<exists>im. immix_init map_VecMap 4096 (Some 65536) 1048576 0 immix_noop_callback sample_heap None = Some (Some im) \<and>
     immix_ok {#} (heap im) \<and> 32 \<le> BlockAllocator_total_blocks (block_allocator (space (heap im))) \<and> threshold im = 314572"
  using init_heap [of 4096 1048576 65536 sample_heap map_VecMap 0 immix_noop_callback] sample_heap_parts
  by (fastforce simp: BLOCK_SIZE_def)

end
