(* ===== verification/Locks.thy ===== *)
theory Locks
  imports Prelude
begin

unbundle bit_operations_syntax

text \<open>
  The locks of \<open>src/util/locks.rs\<close> under every interleaving of threads: \<open>GCSpinLock\<close>, the parking \<open>Mutex\<close> and
  \<open>ReentrantMutex\<close>. A step is one access to shared memory. A weak compare-and-exchange may fail although the
  values agree. Accesses are sequentially consistent.

  The yieldpoints and changes of \<open>gc_state\<close> that \<open>lock_slow\<close> makes around a park do not touch the lock and are part of
  the safepoint protocol.
\<close>

type_synonym thread_id = nat

section \<open>Protocols with an invariant\<close>

text \<open>A protocol of steps with an invariant, and one whose invariant allows only one thread inside.\<close>

locale step_protocol =
  fixes step :: "'s \<Rightarrow> 's \<Rightarrow> bool" and start :: "'s \<Rightarrow> bool" and inv :: "'s \<Rightarrow> bool"
  assumes inv_start: "start s \<Longrightarrow> inv s"
    and inv_step: "step s s' \<Longrightarrow> inv s \<Longrightarrow> inv s'"
begin

lemma inv_run: "step\<^sup>*\<^sup>* s s' \<Longrightarrow> inv s \<Longrightarrow> inv s'"
  by (induction rule: rtranclp_induct) (auto intro: inv_step)

lemma inv_reachable: "start s \<Longrightarrow> step\<^sup>*\<^sup>* s s' \<Longrightarrow> inv s'"
  by (blast intro: inv_run inv_start)

end

locale exclusion_protocol = step_protocol step start inv
  for step :: "'s \<Rightarrow> 's \<Rightarrow> bool" and start :: "'s \<Rightarrow> bool" and inv :: "'s \<Rightarrow> bool" +
  fixes inside :: "'s \<Rightarrow> thread_id set"
  assumes inv_exclusive: "inv s \<Longrightarrow> t \<in> inside s \<Longrightarrow> u \<in> inside s \<Longrightarrow> t = u"
begin

lemma exclusive_reachable: "start s \<Longrightarrow> step\<^sup>*\<^sup>* s s' \<Longrightarrow> t \<in> inside s' \<Longrightarrow> u \<in> inside s' \<Longrightarrow> t = u"
  using inv_exclusive inv_reachable by blast

end

section \<open>\<open>GCSpinLock\<close>\<close>

text \<open>
  The lock is the owner (0 for none) and the nesting count. \<open>spin_depth\<close> counts the acquisitions that a thread has not released; a
  thread calls \<open>unlock\<close> only while it is positive. Thread identifiers are not 0.
\<close>

record GCSpinLock =
  spin_owner :: thread_id
  spin_count :: u32

definition GCSpinLock_new :: GCSpinLock where
  "GCSpinLock_new = \<lparr>spin_owner = 0, spin_count = 0\<rparr>"

text \<open>Where a thread is: outside of any call, after the first load of \<open>wait\<close> or of \<open>try_lock\<close>, in the loop of \<open>wait\<close> with the
  owner it loaded last, after a successful exchange, or about to clear the owner.\<close>

datatype spin_pc = SpinIdle | SpinLoaded bool thread_id | SpinLoop thread_id | SpinWon | SpinRelease

record spin_state =
  spin_lock :: GCSpinLock
  spin_at :: "thread_id \<Rightarrow> spin_pc"
  spin_depth :: "thread_id \<Rightarrow> nat"

definition spin_goto :: "thread_id \<Rightarrow> spin_pc \<Rightarrow> spin_state \<Rightarrow> spin_state" where
  "spin_goto t p s = s\<lparr>spin_at := (spin_at s)(t := p)\<rparr>"

definition spin_enter :: "thread_id \<Rightarrow> u32 \<Rightarrow> spin_state \<Rightarrow> spin_state" where
  "spin_enter t n s = spin_goto t SpinIdle (s\<lparr>spin_lock := (spin_lock s)\<lparr>spin_count := n\<rparr>,
     spin_depth := (spin_depth s)(t := spin_depth s t + 1)\<rparr>)"

definition spin_exchange :: "thread_id \<Rightarrow> spin_state \<Rightarrow> spin_state" where
  "spin_exchange t s = spin_goto t SpinWon (s\<lparr>spin_lock := (spin_lock s)\<lparr>spin_owner := t\<rparr>\<rparr>)"

text \<open>\<open>unlock\<close> up to the store of the owner.\<close>

definition GCSpinLock_unlock :: "thread_id \<Rightarrow> spin_state \<Rightarrow> spin_state" where
  "GCSpinLock_unlock t s =
     (let c = spin_count (spin_lock s) - 1;
          s = s\<lparr>spin_lock := (spin_lock s)\<lparr>spin_count := c\<rparr>, spin_depth := (spin_depth s)(t := spin_depth s t - 1)\<rparr>
      in if c = 0 then spin_goto t SpinRelease s else s)"

inductive spin_step :: "thread_id \<Rightarrow> spin_state \<Rightarrow> spin_state \<Rightarrow> bool" for t :: thread_id where
  load: "spin_at s t = SpinIdle \<Longrightarrow> t \<noteq> 0 \<Longrightarrow> spin_step t s (spin_goto t (SpinLoaded once (spin_owner (spin_lock s))) s)"
| nested: "spin_at s t = SpinLoaded once t \<Longrightarrow> spin_count (spin_lock s) + 1 < 2 ^ 32 \<Longrightarrow>
    spin_step t s (spin_enter t (spin_count (spin_lock s) + 1) s)"
| first_exchange: "spin_at s t = SpinLoaded once 0 \<Longrightarrow> t \<noteq> 0 \<Longrightarrow> spin_owner (spin_lock s) = 0 \<Longrightarrow> spin_step t s (spin_exchange t s)"
| try_fails: "spin_at s t = SpinLoaded True x \<Longrightarrow> x \<noteq> t \<Longrightarrow> x \<noteq> 0 \<or> spin_owner (spin_lock s) \<noteq> 0 \<Longrightarrow>
    spin_step t s (spin_goto t SpinIdle s)"
| first_fails: "spin_at s t = SpinLoaded False x \<Longrightarrow> x \<noteq> t \<Longrightarrow> x \<noteq> 0 \<or> spin_owner (spin_lock s) \<noteq> 0 \<Longrightarrow>
    spin_step t s (spin_goto t (SpinLoop (spin_owner (spin_lock s))) s)"
| loop_exchange: "spin_at s t = SpinLoop 0 \<Longrightarrow> t \<noteq> 0 \<Longrightarrow> spin_owner (spin_lock s) = 0 \<Longrightarrow> spin_step t s (spin_exchange t s)"
| loop_fails: "spin_at s t = SpinLoop x \<Longrightarrow> x \<noteq> 0 \<or> spin_owner (spin_lock s) \<noteq> 0 \<Longrightarrow>
    spin_step t s (spin_goto t (SpinLoop (spin_owner (spin_lock s))) s)"
| won: "spin_at s t = SpinWon \<Longrightarrow> spin_step t s (spin_enter t 1 s)"
| unlock: "spin_at s t = SpinIdle \<Longrightarrow> 0 < spin_depth s t \<Longrightarrow> spin_step t s (GCSpinLock_unlock t s)"
| release: "spin_at s t = SpinRelease \<Longrightarrow>
    spin_step t s (spin_goto t SpinIdle (s\<lparr>spin_lock := (spin_lock s)\<lparr>spin_owner := 0\<rparr>\<rparr>))"

text \<open>A step of some thread.\<close>

definition spin_steps :: "spin_state \<Rightarrow> spin_state \<Rightarrow> bool" where
  "spin_steps s s' \<longleftrightarrow> (\<exists>t. spin_step t s s')"

definition spin_start :: "spin_state \<Rightarrow> bool" where
  "spin_start s \<longleftrightarrow> spin_lock s = GCSpinLock_new \<and> (\<forall>t. spin_at s t = SpinIdle \<and> spin_depth s t = 0)"

definition spin_inside :: "spin_state \<Rightarrow> thread_id set" where
  "spin_inside s = {t. 0 < spin_depth s t}"

text \<open>What holds of each thread \<open>t\<close> at \<open>p\<close> with depth \<open>d\<close>: it is the owner exactly if it is inside or at one of the two ends of its
  critical section, and the count is its depth.\<close>

definition spin_thread :: "GCSpinLock \<Rightarrow> spin_pc \<Rightarrow> nat \<Rightarrow> thread_id \<Rightarrow> bool" where
  "spin_thread l p d t \<longleftrightarrow>
     (t \<noteq> 0 \<and> spin_owner l = t \<longleftrightarrow> p \<in> {SpinWon, SpinRelease} \<or> 0 < d) \<and>
     (p \<in> {SpinWon, SpinRelease} \<longrightarrow> d = 0) \<and> (0 < d \<longrightarrow> spin_count l = d) \<and>
     (case p of SpinLoaded _ x \<Rightarrow> x = t \<longleftrightarrow> 0 < d | SpinLoop _ \<Rightarrow> d = 0 | _ \<Rightarrow> True) \<and>
     (p \<noteq> SpinIdle \<longrightarrow> t \<noteq> 0)"

definition spin_inv :: "spin_state \<Rightarrow> bool" where
  "spin_inv s \<longleftrightarrow> (\<forall>t. spin_thread (spin_lock s) (spin_at s t) (spin_depth s t) t)"

lemma spin_inv_at: "spin_inv s \<Longrightarrow> spin_thread (spin_lock s) (spin_at s t) (spin_depth s t) t"
  by (simp add: spin_inv_def)

lemma spin_thread_other:
  assumes "spin_thread l p d u" "spin_owner l \<in> {0, t}" "spin_owner l' \<in> {0, t}" "u \<noteq> t"
  shows "spin_thread l' p d u"
proof (cases "u = 0")
  case True
  then show ?thesis using assms(1) by (simp add: spin_thread_def)
next
  case False
  then have "spin_owner l \<noteq> u" "spin_owner l' \<noteq> u" using assms(2-4) by auto
  then show ?thesis using assms(1) by (cases p) (simp_all add: spin_thread_def)
qed

lemma spin_inv_move:
  assumes "spin_inv s" and "\<forall>u. u \<noteq> t \<longrightarrow> spin_at s' u = spin_at s u \<and> spin_depth s' u = spin_depth s u"
    and "spin_lock s' = spin_lock s \<or> {spin_owner (spin_lock s), spin_owner (spin_lock s')} \<subseteq> {0, t}"
    and "spin_thread (spin_lock s') (spin_at s' t) (spin_depth s' t) t"
  shows "spin_inv s'"
  unfolding spin_inv_def
proof
  fix u
  show "spin_thread (spin_lock s') (spin_at s' u) (spin_depth s' u) u"
  proof (cases "u = t")
    case False
    then have "spin_thread (spin_lock s) (spin_at s' u) (spin_depth s' u) u" using assms(1,2) by (simp add: spin_inv_def)
    then show ?thesis using spin_thread_other [OF _ _ _ False] assms(3) by auto
  qed (simp add: assms(4))
qed

lemmas spin_defs = spin_goto_def spin_enter_def spin_exchange_def GCSpinLock_unlock_def Let_def

lemma spin_inv_step:
  assumes "spin_step t s s'" "spin_inv s"
  shows "spin_inv s'"
  using assms(1) spin_inv_at [OF assms(2), of t]
  by cases (rule spin_inv_move [OF assms(2), of t]; auto simp: spin_defs spin_thread_def)+

interpretation spin: exclusion_protocol spin_steps spin_start spin_inv spin_inside
proof
  show "spin_inv s" if "spin_start s" for s
    using that by (auto simp: spin_start_def spin_inv_def spin_thread_def GCSpinLock_new_def)
  show "spin_inv s'" if "spin_steps s s'" "spin_inv s" for s s'
    using that spin_inv_step by (auto simp: spin_steps_def)
  have "spin_owner (spin_lock s) = t" if "spin_inv s" "t \<in> spin_inside s" for s t
    using spin_inv_at [OF that(1), of t] that(2) by (simp add: spin_inside_def spin_thread_def)
  then show "t = u" if "spin_inv s" "t \<in> spin_inside s" "u \<in> spin_inside s" for s t u
    using that by metis
qed

section \<open>\<open>Mutex\<close>\<close>

subsection \<open>The state byte\<close>

type_synonym u8 = "8 word"

definition LOCKED_BIT :: u8 where
  "LOCKED_BIT = 1"

definition PARKED_BIT :: u8 where
  "PARKED_BIT = 2"

definition Mutex_new :: u8 where
  "Mutex_new = 0"

definition Mutex_is_locked :: "u8 \<Rightarrow> bool" where
  "Mutex_is_locked state \<longleftrightarrow> state AND LOCKED_BIT \<noteq> 0"

text \<open>The test of the second bit, which \<open>lock_slow\<close> and \<open>bump\<close> make.\<close>

definition has_parked :: "u8 \<Rightarrow> bool" where
  "has_parked state \<longleftrightarrow> state AND PARKED_BIT \<noteq> 0"

definition Mutex_mark_parked :: "u8 \<Rightarrow> u8" where
  "Mutex_mark_parked state = state OR PARKED_BIT"

text \<open>The result and the new state of \<open>mark_parked_if_locked\<close>, whose loop ends with one successful exchange.\<close>

definition Mutex_mark_parked_if_locked :: "u8 \<Rightarrow> bool \<times> u8" where
  "Mutex_mark_parked_if_locked state =
     (if \<not> Mutex_is_locked state then (False, state) else (True, state OR PARKED_BIT))"

subsection \<open>The parking lot\<close>

datatype UnparkToken = TOKEN_NORMAL | TOKEN_HANDOFF

record UnparkResult =
  unparked_threads :: nat
  have_more_threads :: bool
  be_fair :: bool

text \<open>
  \<open>parking_lot_core\<close> is a parameter: which outcomes \<open>unpark_one\<close> can have when the threads \<open>P\<close> are parked (the thread that it
  wakes and what it reports to the callback), and what a park that times out can report as \<open>was_last_thread\<close>. Both
  run with the queue locked, so each is one step together with its callback.
\<close>

record parking_lot =
  unpark_outcome :: "thread_id set \<Rightarrow> thread_id option \<Rightarrow> UnparkResult \<Rightarrow> bool"
  timeout_outcome :: "thread_id set \<Rightarrow> thread_id \<Rightarrow> bool \<Rightarrow> bool"

text \<open>What its documentation promises: a thread is woken if there is one, and the reports are true.\<close>

definition parking_laws :: "parking_lot \<Rightarrow> bool" where
  "parking_laws pl \<longleftrightarrow>
     (\<forall>P r. unpark_outcome pl P None r \<longrightarrow> P = {} \<and> unparked_threads r = 0 \<and> \<not> have_more_threads r) \<and>
     (\<forall>P u r. unpark_outcome pl P (Some u) r \<longrightarrow> u \<in> P \<and> unparked_threads r = 1 \<and> have_more_threads r = (P - {u} \<noteq> {})) \<and>
     (\<forall>P t last. timeout_outcome pl P t last \<longrightarrow> last = (P - {t} = {}))"

text \<open>The closures that \<open>lock_slow\<close> and \<open>unlock_slow\<close> pass to it.\<close>

definition lock_slow_validate :: "u8 \<Rightarrow> bool" where
  "lock_slow_validate state \<longleftrightarrow> state = LOCKED_BIT OR PARKED_BIT"

definition lock_slow_timed_out :: "bool \<Rightarrow> u8 \<Rightarrow> u8" where
  "lock_slow_timed_out was_last_thread state = (if was_last_thread then state AND NOT PARKED_BIT else state)"

definition unlock_slow_callback :: "bool \<Rightarrow> UnparkResult \<Rightarrow> u8 \<Rightarrow> UnparkToken \<times> u8" where
  "unlock_slow_callback force_fair result state =
     (if unparked_threads result \<noteq> 0 \<and> (force_fair \<or> be_fair result) then
        (TOKEN_HANDOFF, if \<not> have_more_threads result then LOCKED_BIT else state)
      else if have_more_threads result then (TOKEN_NORMAL, PARKED_BIT)
      else (TOKEN_NORMAL, 0))"

subsection \<open>Steps\<close>

text \<open>
  Where a thread is. The flag of the locking positions says that the call has a deadline (\<open>try_lock_for\<close>, \<open>try_lock_until\<close>);
  \<open>MLoop\<close> and \<open>MTry\<close> carry the state that was loaded last. \<open>MUnlockSlow\<close> says whether the unlock is fair, and whether it is part of
  \<open>bump\<close>, which locks again.
\<close>

datatype mutex_pc =
    MOut
  | MLockFast bool
  | MLoad bool
  | MLoop bool u8
  | MPark bool
  | MParked bool
  | MUnparked bool UnparkToken
  | MTry u8
  | MHeld
  | MUnlockFast bool
  | MUnlockSlow bool bool

record mutex_state =
  m_state :: u8
  m_at :: "thread_id \<Rightarrow> mutex_pc"

definition mutex_go :: "thread_id \<Rightarrow> mutex_pc \<Rightarrow> u8 \<Rightarrow> mutex_state \<Rightarrow> mutex_state" where
  "mutex_go t p st s = \<lparr>m_state = st, m_at = (m_at s)(t := p)\<rparr>"

definition parked_threads :: "mutex_state \<Rightarrow> thread_id set" where
  "parked_threads s = {t. \<exists>d. m_at s t = MParked d}"

text \<open>The thread that \<open>unpark_one\<close> wakes gets the token.\<close>

definition wake :: "thread_id option \<Rightarrow> UnparkToken \<Rightarrow> mutex_state \<Rightarrow> mutex_state" where
  "wake u tok s = (case u of None \<Rightarrow> s
     | Some u \<Rightarrow> (case m_at s u of MParked d \<Rightarrow> mutex_go u (MUnparked d tok) (m_state s) s | _ \<Rightarrow> s))"

text \<open>\<open>lock_slow\<close>; without a deadline it cannot time out.\<close>

inductive lock_slow_step :: "parking_lot \<Rightarrow> thread_id \<Rightarrow> mutex_state \<Rightarrow> mutex_state \<Rightarrow> bool"
  for pl :: parking_lot and t :: thread_id and s :: mutex_state where
  slow_load: "lock_slow_step pl t s (mutex_go t (MLoop d (m_state s)) (m_state s) s)" if "m_at s t = MLoad d"
| grab: "lock_slow_step pl t s (mutex_go t MHeld (x OR LOCKED_BIT) s)"
    if "m_at s t = MLoop d x" "\<not> Mutex_is_locked x" "m_state s = x"
| grab_fails: "lock_slow_step pl t s (mutex_go t (MLoop d (m_state s)) (m_state s) s)"
    if "m_at s t = MLoop d x" "\<not> Mutex_is_locked x"
| spin: "lock_slow_step pl t s (mutex_go t (MLoop d (m_state s)) (m_state s) s)"
    if "m_at s t = MLoop d x" "Mutex_is_locked x" "\<not> has_parked x"
| set_parked: "lock_slow_step pl t s (mutex_go t (MPark d) (x OR PARKED_BIT) s)"
    if "m_at s t = MLoop d x" "Mutex_is_locked x" "\<not> has_parked x" "m_state s = x"
| set_parked_fails: "lock_slow_step pl t s (mutex_go t (MLoop d (m_state s)) (m_state s) s)"
    if "m_at s t = MLoop d x" "Mutex_is_locked x" "\<not> has_parked x"
| already_parked: "lock_slow_step pl t s (mutex_go t (MPark d) (m_state s) s)"
    if "m_at s t = MLoop d x" "Mutex_is_locked x" "has_parked x"
| park: "lock_slow_step pl t s (mutex_go t (MParked d) (m_state s) s)" if "m_at s t = MPark d" "lock_slow_validate (m_state s)"
| park_invalid: "lock_slow_step pl t s (mutex_go t (MLoad d) (m_state s) s)" if "m_at s t = MPark d" "\<not> lock_slow_validate (m_state s)"
| timed_out: "lock_slow_step pl t s (mutex_go t MOut (lock_slow_timed_out was_last (m_state s)) s)"
    if "m_at s t = MParked True" "timeout_outcome pl (parked_threads s) t was_last"
| handed_over: "lock_slow_step pl t s (mutex_go t MHeld (m_state s) s)" if "m_at s t = MUnparked d TOKEN_HANDOFF"
| retry: "lock_slow_step pl t s (mutex_go t (MLoad d) (m_state s) s)" if "m_at s t = MUnparked d TOKEN_NORMAL"

text \<open>The operations of \<open>Mutex\<close>. Those of \<open>lock_nogc\<close> and \<open>unlock_nogc\<close> are the same.\<close>

inductive mutex_step :: "parking_lot \<Rightarrow> thread_id \<Rightarrow> mutex_state \<Rightarrow> mutex_state \<Rightarrow> bool"
  for pl :: parking_lot and t :: thread_id and s :: mutex_state where
  lock: "mutex_step pl t s (mutex_go t (MLockFast d) (m_state s) s)" if "m_at s t = MOut"
| lock_fast: "mutex_step pl t s (mutex_go t MHeld LOCKED_BIT s)" if "m_at s t = MLockFast d" "m_state s = 0"
| lock_fast_fails: "mutex_step pl t s (mutex_go t (MLoad d) (m_state s) s)" if "m_at s t = MLockFast d"
| lock_slow: "mutex_step pl t s s'" if "lock_slow_step pl t s s'"
| try_load: "mutex_step pl t s (mutex_go t (MTry (m_state s)) (m_state s) s)" if "m_at s t = MOut"
| try_fails: "mutex_step pl t s (mutex_go t MOut (m_state s) s)" if "m_at s t = MTry x" "Mutex_is_locked x"
| try_grab: "mutex_step pl t s (mutex_go t MHeld (x OR LOCKED_BIT) s)"
    if "m_at s t = MTry x" "\<not> Mutex_is_locked x" "m_state s = x"
| try_again: "mutex_step pl t s (mutex_go t (MTry (m_state s)) (m_state s) s)" if "m_at s t = MTry x" "\<not> Mutex_is_locked x"
| unlock: "mutex_step pl t s (mutex_go t (MUnlockFast fair) (m_state s) s)" if "m_at s t = MHeld"
| unlock_fast: "mutex_step pl t s (mutex_go t MOut 0 s)" if "m_at s t = MUnlockFast fair" "m_state s = LOCKED_BIT"
| unlock_fast_fails: "mutex_step pl t s (mutex_go t (MUnlockSlow fair False) (m_state s) s)"
    if "m_at s t = MUnlockFast fair" "m_state s \<noteq> LOCKED_BIT"
| bump: "mutex_step pl t s (mutex_go t (MUnlockSlow True True) (m_state s) s)" if "m_at s t = MHeld" "has_parked (m_state s)"
| unlock_slow: "mutex_step pl t s (wake u tok (mutex_go t (if relock then MLockFast False else MOut) st s))"
    if "m_at s t = MUnlockSlow fair relock" "unpark_outcome pl (parked_threads s) u r"
      "unlock_slow_callback fair r (m_state s) = (tok, st)"
| mark_parked: "mutex_step pl t s (s\<lparr>m_state := Mutex_mark_parked (m_state s)\<rparr>)"
| mark_parked_if_locked: "mutex_step pl t s (s\<lparr>m_state := snd (Mutex_mark_parked_if_locked (m_state s))\<rparr>)"

definition mutex_steps :: "parking_lot \<Rightarrow> mutex_state \<Rightarrow> mutex_state \<Rightarrow> bool" where
  "mutex_steps pl s s' \<longleftrightarrow> (\<exists>t. mutex_step pl t s s')"

definition mutex_start :: "mutex_state \<Rightarrow> bool" where
  "mutex_start s \<longleftrightarrow> m_state s = Mutex_new \<and> (\<forall>t. m_at s t = MOut)"

subsection \<open>The invariant\<close>

text \<open>The owner of the lock, and the threads in \<open>lock_slow\<close> that will look at the state again.\<close>

definition owns :: "mutex_pc \<Rightarrow> bool" where
  "owns p \<longleftrightarrow> (case p of MHeld \<Rightarrow> True | MUnlockFast _ \<Rightarrow> True | MUnlockSlow _ _ \<Rightarrow> True | MUnparked _ tok \<Rightarrow> tok = TOKEN_HANDOFF | _ \<Rightarrow> False)"

definition retries :: "mutex_pc \<Rightarrow> bool" where
  "retries p \<longleftrightarrow> (case p of MLockFast _ \<Rightarrow> True | MLoad _ \<Rightarrow> True | MLoop _ _ \<Rightarrow> True | MPark _ \<Rightarrow> True
     | MUnparked _ tok \<Rightarrow> tok = TOKEN_NORMAL | _ \<Rightarrow> False)"

definition owners :: "mutex_state \<Rightarrow> thread_id set" where
  "owners s = {t. owns (m_at s t)}"

definition retrying :: "mutex_state \<Rightarrow> thread_id set" where
  "retrying s = {t. retries (m_at s t)}"

text \<open>
  On the state byte, the owners \<open>H\<close>, the parked threads \<open>P\<close> and the retrying threads \<open>A\<close>: the lock bit says that there is an owner, and there
  is one at most; a parked thread is announced by the parked bit, and the owner or a retrying thread will attend to it.
\<close>

definition mutex_ok :: "u8 \<Rightarrow> thread_id set \<Rightarrow> thread_id set \<Rightarrow> thread_id set \<Rightarrow> bool" where
  "mutex_ok st H P A \<longleftrightarrow> st \<in> {0, 1, 2, 3} \<and> (Mutex_is_locked st \<longleftrightarrow> H \<noteq> {}) \<and> (\<forall>t \<in> H. \<forall>u \<in> H. t = u) \<and>
     (P \<noteq> {} \<longrightarrow> has_parked st \<and> (Mutex_is_locked st \<or> A \<noteq> {}))"

definition mutex_inv :: "mutex_state \<Rightarrow> bool" where
  "mutex_inv s \<longleftrightarrow> mutex_ok (m_state s) (owners s) (parked_threads s) (retrying s)"

lemma mutex_byte [simp]:
  "Mutex_is_locked 1" "Mutex_is_locked 3" "\<not> Mutex_is_locked 0" "\<not> Mutex_is_locked 2"
  "has_parked 2" "has_parked 3" "\<not> has_parked 0" "\<not> has_parked 1"
  by (simp_all add: Mutex_is_locked_def has_parked_def LOCKED_BIT_def PARKED_BIT_def)

lemma mutex_go_sets:
  "m_state (mutex_go t p st s) = st"
  "owners (mutex_go t p st s) = (if owns p then insert t (owners s) else owners s - {t})"
  "retrying (mutex_go t p st s) = (if retries p then insert t (retrying s) else retrying s - {t})"
  "parked_threads (mutex_go t p st s)
     = (if \<exists>d. p = MParked d then insert t (parked_threads s) else parked_threads s - {t})"
  by (auto simp: mutex_go_def owners_def retrying_def parked_threads_def)

lemma mutex_state_sets:
  "owners (s\<lparr>m_state := st\<rparr>) = owners s" "retrying (s\<lparr>m_state := st\<rparr>) = retrying s"
  "parked_threads (s\<lparr>m_state := st\<rparr>) = parked_threads s"
  by (simp_all add: owners_def retrying_def parked_threads_def)

lemma mutex_at_sets:
  "t \<in> owners s \<longleftrightarrow> owns (m_at s t)" "t \<in> retrying s \<longleftrightarrow> retries (m_at s t)"
  "t \<in> parked_threads s \<longleftrightarrow> (\<exists>d. m_at s t = MParked d)"
  by (simp_all add: owners_def retrying_def parked_threads_def)

text \<open>A step of a thread that does not own the lock, is not parked and does not stop retrying.\<close>

lemma mutex_ok_cases:
  assumes "mutex_ok st H P A"
  obtains "st = 0" "H = {}" "P = {}" | h where "st = 1" "H = {h}" "P = {}"
    | "st = 2" "H = {}" "P = {} \<or> A \<noteq> {}" | h where "st = 3" "H = {h}"
proof -
  have "H = {} \<or> (\<exists>h. H = {h})" using assms unfolding mutex_ok_def by blast
  then show thesis
  proof
    assume "H = {}"
    then show thesis using assms that(1,3) by (auto simp: mutex_ok_def)
  next
    assume "\<exists>h. H = {h}"
    then show thesis using assms that(2,4) by (auto simp: mutex_ok_def)
  qed
qed

lemma mutex_ok_intros:
  "mutex_ok 0 {} {} A" "mutex_ok 1 {h} {} A" "mutex_ok 2 {} {} A" "A \<noteq> {} \<Longrightarrow> mutex_ok 2 {} P A" "mutex_ok 3 {h} P A"
  by (simp_all add: mutex_ok_def)

lemmas mutex_bytes = LOCKED_BIT_def PARKED_BIT_def lock_slow_validate_def lock_slow_timed_out_def Mutex_mark_parked_def
  Mutex_mark_parked_if_locked_def

text \<open>A move inside or outside of the lock that leaves the byte alone, parks nobody and keeps a retrying thread retrying.\<close>

lemma mutex_inv_stay:
  assumes "mutex_inv s" "owns p = owns (m_at s t)" "\<forall>d. m_at s t \<noteq> MParked d \<and> p \<noteq> MParked d" "retries (m_at s t) \<Longrightarrow> retries p"
  shows "mutex_inv (mutex_go t p (m_state s) s)"
proof -
  have "owners (mutex_go t p (m_state s) s) = owners s" "parked_threads (mutex_go t p (m_state s) s) = parked_threads s"
    "retrying s \<subseteq> retrying (mutex_go t p (m_state s) s)"
    using assms(2-4) by (auto simp: mutex_go_sets mutex_at_sets)
  then show ?thesis using assms(1) unfolding mutex_inv_def by (auto simp: mutex_ok_def mutex_go_sets(1))
qed

lemma mutex_inv_acquire:
  assumes "mutex_inv s" "\<not> Mutex_is_locked (m_state s)" "\<forall>d. m_at s t \<noteq> MParked d"
  shows "mutex_inv (mutex_go t MHeld (m_state s OR LOCKED_BIT) s)"
proof -
  have "mutex_ok (m_state s) (owners s) (parked_threads s) (retrying s)" using assms(1) by (simp add: mutex_inv_def)
  moreover have "parked_threads s - {t} = parked_threads s" using assms(3) by (simp add: mutex_at_sets)
  ultimately show ?thesis using assms(2)
    by (cases rule: mutex_ok_cases) (auto simp: mutex_inv_def mutex_go_sets owns_def LOCKED_BIT_def intro: mutex_ok_intros)
qed

lemma mutex_inv_mark: "mutex_inv s \<Longrightarrow> mutex_inv (s\<lparr>m_state := m_state s OR PARKED_BIT\<rparr>)"
  unfolding mutex_inv_def mutex_state_sets
  by (erule mutex_ok_cases) (auto simp: PARKED_BIT_def intro: mutex_ok_intros)

lemma timed_out_ok:
  assumes "mutex_ok st H P A" "was_last = (P' = {})" "P' \<subseteq> P" "P \<noteq> {}"
  shows "mutex_ok (lock_slow_timed_out was_last st) H P' A"
  using assms(1)
proof (cases rule: mutex_ok_cases)
  case 3
  then show ?thesis using assms(2,4) by (cases "P' = {}") (simp_all add: lock_slow_timed_out_def PARKED_BIT_def mutex_ok_intros)
next
  case (4 h)
  then show ?thesis using assms(2) by (cases "P' = {}") (simp_all add: lock_slow_timed_out_def PARKED_BIT_def mutex_ok_intros)
qed (use assms(4) in simp_all)

lemma unlock_slow_callback_ok:
  assumes "unlock_slow_callback fair r 3 = (tok, st)" "unparked_threads r = 1" "have_more_threads r = (P \<noteq> {})"
    and "tok = TOKEN_NORMAL \<Longrightarrow> A \<noteq> {}"
  shows "mutex_ok st (if tok = TOKEN_HANDOFF then {v} else {}) P A"
proof (cases "P = {}")
  case True
  then show ?thesis using assms by (auto simp: unlock_slow_callback_def LOCKED_BIT_def mutex_ok_def split: if_splits)
next
  case False
  then show ?thesis using assms by (auto simp: unlock_slow_callback_def PARKED_BIT_def mutex_ok_def split: if_splits)
qed

lemma mutex_inv_unlock_slow:
  assumes inv: "mutex_inv s" and laws: "parking_laws pl" and t: "m_at s t = MUnlockSlow fair relock"
    and out: "unpark_outcome pl (parked_threads s) u r" and cb: "unlock_slow_callback fair r (m_state s) = (tok, st)"
    and p: "p \<in> {MOut, MLockFast False}"
  shows "mutex_inv (wake u tok (mutex_go t p st s))"
proof -
  let ?g = "mutex_go t p st s"
  have g: "owners ?g = {}" "parked_threads ?g = parked_threads s" and byte: "m_state s = 1 \<and> parked_threads s = {} \<or> m_state s = 3"
  proof -
    have "t \<in> owners s" "t \<notin> parked_threads s" using t by (simp_all add: mutex_at_sets owns_def)
    then show "owners ?g = {}" "parked_threads ?g = parked_threads s" "m_state s = 1 \<and> parked_threads s = {} \<or> m_state s = 3"
      using inv p unfolding mutex_inv_def by (auto simp: mutex_go_sets owns_def elim!: mutex_ok_cases)
  qed
  show ?thesis
  proof (cases u)
    case None
    then have "parked_threads s = {}" "st = 0"
      using laws out cb by (auto simp: parking_laws_def unlock_slow_callback_def split: if_splits)
    then show ?thesis using g None by (simp add: mutex_inv_def wake_def mutex_go_sets(1) mutex_ok_intros)
  next
    case (Some v)
    then have v: "v \<in> parked_threads s" and r: "unparked_threads r = 1" "have_more_threads r = (parked_threads s - {v} \<noteq> {})"
      using laws out by (auto simp: parking_laws_def)
    then obtain d where d: "m_at s v = MParked d" by (auto simp: mutex_at_sets)
    then have "v \<noteq> t" using t by auto
    then have w: "wake u tok ?g = mutex_go v (MUnparked d tok) st ?g" using d Some by (simp add: wake_def mutex_go_def)
    have three: "m_state s = 3" using byte v by auto
    have sets: "m_state (wake u tok ?g) = st" "parked_threads (wake u tok ?g) = parked_threads s - {v}"
      "owners (wake u tok ?g) = (if tok = TOKEN_HANDOFF then {v} else {})" "tok = TOKEN_NORMAL \<Longrightarrow> v \<in> retrying (wake u tok ?g)"
      unfolding w mutex_go_sets [of v] using g by (simp_all add: owns_def retries_def)
    show ?thesis unfolding mutex_inv_def sets(1-3)
      by (rule unlock_slow_callback_ok [OF cb [unfolded three] r]) (use sets(4) in auto)
  qed
qed

lemma lock_slow_inv_step:
  assumes "lock_slow_step pl t s s'" "mutex_inv s" "parking_laws pl"
  shows "mutex_inv s'"
proof -
  have ok: "mutex_ok (m_state s) (owners s) (parked_threads s) (retrying s)" using assms(2) by (simp add: mutex_inv_def)
  from assms(1) show ?thesis
  proof cases
    case (grab d x)
    then show ?thesis using mutex_inv_acquire [OF assms(2), of t] by simp
  next
    case (set_parked d x)
    have "mutex_inv (mutex_go t (MPark d) (m_state s) s)"
      using set_parked(2) by (intro mutex_inv_stay [OF assms(2)]) (simp_all add: owns_def retries_def)
    then have "mutex_inv ((mutex_go t (MPark d) (m_state s) s)\<lparr>m_state := m_state s OR PARKED_BIT\<rparr>)"
      using mutex_inv_mark [of "mutex_go t (MPark d) (m_state s) s"] by (simp add: mutex_go_sets(1))
    then show ?thesis using set_parked(1,5) by (simp add: mutex_go_def)
  next
    case (park d)
    then have st: "m_state s = 3" "t \<notin> owners s" by (simp_all add: lock_slow_validate_def LOCKED_BIT_def PARKED_BIT_def mutex_at_sets owns_def)
    from ok obtain h where "owners s = {h}" "h \<noteq> t" using st by (cases rule: mutex_ok_cases) auto
    then show ?thesis unfolding park(1) mutex_inv_def mutex_go_sets using st(1)
      by (simp add: owns_def mutex_ok_intros)
  next
    case (timed_out was_last)
    then have was_last: "was_last = (parked_threads s - {t} = {})" and t: "t \<notin> owners s" "t \<notin> retrying s" "t \<in> parked_threads s"
      using assms(3) by (auto simp: parking_laws_def mutex_at_sets owns_def retries_def)
    have sets: "owners s' = owners s" "retrying s' = retrying s" "parked_threads s' = parked_threads s - {t}"
      using t unfolding timed_out(1) mutex_go_sets by (simp_all add: owns_def retries_def)
    show ?thesis using timed_out_ok [OF ok was_last] t(3) unfolding mutex_inv_def sets unfolding timed_out(1) mutex_go_sets(1) by auto
  qed (use mutex_inv_stay [OF assms(2), of _ t] in \<open>simp_all add: owns_def retries_def\<close>)
qed

lemma mutex_inv_step:
  assumes "mutex_step pl t s s'" "mutex_inv s" "parking_laws pl"
  shows "mutex_inv s'"
proof -
  have ok: "mutex_ok (m_state s) (owners s) (parked_threads s) (retrying s)" using assms(2) by (simp add: mutex_inv_def)
  from assms(1) show ?thesis
  proof cases
    case (lock_fast d)
    then show ?thesis using mutex_inv_acquire [OF assms(2), of t] by simp
  next
    case (try_grab x)
    then show ?thesis using mutex_inv_acquire [OF assms(2), of t] by simp
  next
    case (unlock_fast fair)
    then have st: "t \<in> owners s" "m_state s = 1" by (simp_all add: mutex_at_sets owns_def LOCKED_BIT_def)
    from ok have "owners s = {t} \<and> parked_threads s = {}" using st by (cases rule: mutex_ok_cases) auto
    then show ?thesis unfolding unlock_fast(1) mutex_inv_def mutex_go_sets by (simp add: owns_def mutex_ok_intros)
  next
    case (unlock_slow fair relock u r tok st)
    then show ?thesis using mutex_inv_unlock_slow [OF assms(2,3) unlock_slow(2-4)] by simp
  next
    case mark_parked
    then show ?thesis using mutex_inv_mark [OF assms(2)] by (simp add: Mutex_mark_parked_def)
  next
    case mark_parked_if_locked
    then show ?thesis using mutex_inv_mark [OF assms(2)] assms(2) by (simp add: Mutex_mark_parked_if_locked_def)
  next
    case lock_slow
    then show ?thesis using lock_slow_inv_step assms(2,3) by blast
  qed (use mutex_inv_stay [OF assms(2), of _ t] in \<open>simp_all add: owns_def retries_def\<close>)
qed

interpretation mutex: exclusion_protocol "mutex_steps pl" mutex_start "\<lambda>s. parking_laws pl \<longrightarrow> mutex_inv s"
  "\<lambda>s. if parking_laws pl then owners s else {}" for pl
proof
  show "parking_laws pl \<longrightarrow> mutex_inv s" if "mutex_start s" for s
    using that by (simp add: mutex_start_def mutex_inv_def Mutex_new_def owners_def owns_def parked_threads_def mutex_ok_intros)
  show "parking_laws pl \<longrightarrow> mutex_inv s'" if "mutex_steps pl s s'" "parking_laws pl \<longrightarrow> mutex_inv s" for s s'
    using that mutex_inv_step by (auto simp: mutex_steps_def)
  show "t = u" if "parking_laws pl \<longrightarrow> mutex_inv s" "t \<in> (if parking_laws pl then owners s else {})"
    "u \<in> (if parking_laws pl then owners s else {})" for s t u
    using that by (auto simp: mutex_inv_def mutex_ok_def split: if_splits)
qed

lemma mutex_reachable_inv:
  assumes "parking_laws pl" "mutex_start s" "(mutex_steps pl)\<^sup>*\<^sup>* s s'"
  shows "mutex_inv s'"
  using mutex.inv_reachable [OF assms(2,3)] assms(1) by simp

subsection \<open>What a mutex promises\<close>

text \<open>The abstract lock: the thread that holds it, if any. Thread \<open>t\<close> may take a free lock, release its own, or pass its own on.\<close>

inductive lock_spec :: "thread_id \<Rightarrow> thread_id option \<Rightarrow> thread_id option \<Rightarrow> bool" for t :: thread_id where
  stutter: "lock_spec t h h"
| acquire: "lock_spec t None (Some t)"
| release: "lock_spec t (Some t) None"
| pass: "lock_spec t (Some t) (Some u)"

definition holder :: "mutex_state \<Rightarrow> thread_id option" where
  "holder s = (if owners s = {} then None else Some (the_elem (owners s)))"

lemma holder_simps:
  "owners s = {} \<Longrightarrow> holder s = None" "owners s = {h} \<Longrightarrow> holder s = Some h"
  by (simp_all add: holder_def)

lemma mutex_inv_owners: "mutex_inv s \<Longrightarrow> t \<in> owners s \<Longrightarrow> owners s = {t}"
  unfolding mutex_inv_def mutex_ok_def by blast

lemma mutex_inv_unlocked: "mutex_inv s \<Longrightarrow> \<not> Mutex_is_locked (m_state s) \<Longrightarrow> owners s = {}"
  by (simp add: mutex_inv_def mutex_ok_def)

lemma parking_wakes_parked: "parking_laws pl \<Longrightarrow> unpark_outcome pl P (Some u) r \<Longrightarrow> u \<in> P"
  unfolding parking_laws_def by blast

lemma lock_spec_move:
  assumes "mutex_inv s" "owns p = owns (m_at s t)"
  shows "lock_spec t (holder s) (holder (mutex_go t p st s))"
proof -
  have "owners (mutex_go t p st s) = owners s" using assms(2) by (auto simp: mutex_go_sets mutex_at_sets)
  then show ?thesis by (simp add: holder_def lock_spec.stutter)
qed

lemma lock_spec_acquire:
  assumes "mutex_inv s" "\<not> Mutex_is_locked (m_state s)" "owns p"
  shows "lock_spec t (holder s) (holder (mutex_go t p st s))"
proof -
  have "owners s = {}" using mutex_inv_unlocked [OF assms(1,2)] .
  then have "holder s = None" "holder (mutex_go t p st s) = Some t"
    using assms(3) by (simp_all add: holder_simps mutex_go_sets)
  then show ?thesis by (simp add: lock_spec.acquire)
qed

lemma lock_spec_release:
  assumes "mutex_inv s" "t \<in> owners s" "\<not> owns p" "u \<noteq> Some t"
  shows "lock_spec t (holder s) (holder (wake u tok (mutex_go t p st s)))"
proof -
  have t: "owners s = {t}" using mutex_inv_owners [OF assms(1,2)] .
  then have h: "holder s = Some t" and g: "owners (mutex_go t p st s) = {}"
    using assms(3) by (simp_all add: holder_simps mutex_go_sets)
  have "owners (wake u tok (mutex_go t p st s)) = {} \<or> (\<exists>v. owners (wake u tok (mutex_go t p st s)) = {v})"
    using g by (auto simp: wake_def mutex_go_sets split: option.splits mutex_pc.splits)
  then show ?thesis
    using h by (auto simp: holder_simps intro: lock_spec.intros)
qed

lemma lock_slow_step_spec:
  assumes "lock_slow_step pl t s s'" "mutex_inv s"
  shows "lock_spec t (holder s) (holder s')"
  using assms(1)
proof cases
  case (grab d x)
  then show ?thesis using lock_spec_acquire [OF assms(2)] by (simp add: owns_def)
qed (use lock_spec_move [OF assms(2), of _ t] in \<open>simp_all add: owns_def\<close>)

lemma mutex_step_spec:
  assumes "mutex_step pl t s s'" "mutex_inv s" "parking_laws pl"
  shows "lock_spec t (holder s) (holder s')"
  using assms(1)
proof cases
  case (lock_fast d)
  then show ?thesis using lock_spec_acquire [OF assms(2)] by (simp add: owns_def)
next
  case (try_grab x)
  then show ?thesis using lock_spec_acquire [OF assms(2)] by (simp add: owns_def)
next
  case lock_slow
  then show ?thesis using lock_slow_step_spec assms(2) by blast
next
  case (unlock_fast fair)
  then show ?thesis using lock_spec_release [OF assms(2), of t MOut None] by (simp add: mutex_at_sets owns_def wake_def)
next
  case (unlock_slow fair relock u r tok st)
  have "u \<noteq> Some t" using parking_wakes_parked [OF assms(3), of "parked_threads s" t r] unlock_slow(2,3) by (auto simp: mutex_at_sets)
  then show ?thesis using lock_spec_release [OF assms(2), of t _ u] unlock_slow(1,2) by (simp add: mutex_at_sets owns_def)
qed (use lock_spec_move [OF assms(2), of _ t] in \<open>simp_all add: owns_def\<close>,
     simp_all add: holder_def mutex_state_sets lock_spec.stutter)

section \<open>\<open>ReentrantMutex\<close>\<close>

text \<open>
  The mutex inside is an abstract lock: its holder. \<open>reent_depth\<close> counts the acquisitions that a thread has not released. A call of
  \<open>unlock\<close> by a thread that is not the owner panics.
\<close>

datatype reentrant_pc =
    RIdle
  | RLoaded "thread_id option"
  | RLocking
  | RLocked
  | ROwned
  | RUnowned
  | RUnlocking
  | RPanicked

record ReentrantMutex =
  reent_owner :: "thread_id option"
  reent_count :: u32
  reent_mtx :: "thread_id option"

definition ReentrantMutex_new :: ReentrantMutex where
  "ReentrantMutex_new = \<lparr>reent_owner = None, reent_count = 0, reent_mtx = None\<rparr>"

record reentrant_state =
  reent :: ReentrantMutex
  reent_at :: "thread_id \<Rightarrow> reentrant_pc"
  reent_depth :: "thread_id \<Rightarrow> nat"

definition reent_go :: "thread_id \<Rightarrow> reentrant_pc \<Rightarrow> ReentrantMutex \<Rightarrow> nat \<Rightarrow> reentrant_state \<Rightarrow> reentrant_state" where
  "reent_go t p m d s = \<lparr>reent = m, reent_at = (reent_at s)(t := p), reent_depth = (reent_depth s)(t := d)\<rparr>"

text \<open>\<open>unlock\<close> (and \<open>unlock_nogc\<close>) up to the store of the owner.\<close>

definition ReentrantMutex_unlock :: "thread_id \<Rightarrow> reentrant_state \<Rightarrow> reentrant_state" where
  "ReentrantMutex_unlock t s =
     (if reent_owner (reent s) \<noteq> Some t then reent_go t RPanicked (reent s) (reent_depth s t) s
      else let c = reent_count (reent s) - 1 in
        reent_go t (if c = 0 then RUnowned else RIdle) ((reent s)\<lparr>reent_count := c\<rparr>) (reent_depth s t - 1) s)"

inductive reent_step :: "thread_id \<Rightarrow> reentrant_state \<Rightarrow> reentrant_state \<Rightarrow> bool" for t :: thread_id and s :: reentrant_state where
  load: "reent_step t s (reent_go t (RLoaded (reent_owner (reent s))) (reent s) (reent_depth s t) s)" if "reent_at s t = RIdle"
| nested: "reent_step t s (reent_go t RIdle ((reent s)\<lparr>reent_count := reent_count (reent s) + 1\<rparr>) (reent_depth s t + 1) s)"
    if "reent_at s t = RLoaded (Some t)" "reent_count (reent s) + 1 < 2 ^ 32"
| not_owner: "reent_step t s (reent_go t RLocking (reent s) (reent_depth s t) s)" if "reent_at s t = RLoaded x" "x \<noteq> Some t"
| lock: "reent_step t s (reent_go t RLocked ((reent s)\<lparr>reent_mtx := Some t\<rparr>) (reent_depth s t) s)"
    if "reent_at s t = RLocking" "reent_mtx (reent s) = None"
| own: "reent_step t s (reent_go t ROwned ((reent s)\<lparr>reent_owner := Some t\<rparr>) (reent_depth s t) s)" if "reent_at s t = RLocked"
| count: "reent_step t s (reent_go t RIdle ((reent s)\<lparr>reent_count := 1\<rparr>) (reent_depth s t + 1) s)" if "reent_at s t = ROwned"
| unlock: "reent_step t s (ReentrantMutex_unlock t s)" if "reent_at s t = RIdle"
| disown: "reent_step t s (reent_go t RUnlocking ((reent s)\<lparr>reent_owner := None\<rparr>) (reent_depth s t) s)" if "reent_at s t = RUnowned"
| release: "reent_step t s (reent_go t RIdle ((reent s)\<lparr>reent_mtx := None\<rparr>) (reent_depth s t) s)" if "reent_at s t = RUnlocking"
| pass: "reent_step t s (reent_go u RLocked ((reent s)\<lparr>reent_mtx := Some u\<rparr>) (reent_depth s u) (reent_go t RIdle (reent s) (reent_depth s t) s))"
    if "reent_at s t = RUnlocking" "reent_at s u = RLocking"

definition reent_steps :: "reentrant_state \<Rightarrow> reentrant_state \<Rightarrow> bool" where
  "reent_steps s s' \<longleftrightarrow> (\<exists>t. reent_step t s s')"

definition reent_start :: "reentrant_state \<Rightarrow> bool" where
  "reent_start s \<longleftrightarrow> reent s = ReentrantMutex_new \<and> (\<forall>t. reent_at s t = RIdle \<and> reent_depth s t = 0)"

definition reent_inside :: "reentrant_state \<Rightarrow> thread_id set" where
  "reent_inside s = {t. 0 < reent_depth s t}"

definition reent_thread :: "ReentrantMutex \<Rightarrow> reentrant_pc \<Rightarrow> nat \<Rightarrow> thread_id \<Rightarrow> bool" where
  "reent_thread m p d t \<longleftrightarrow>
     (reent_owner m = Some t \<longleftrightarrow> p \<in> {ROwned, RUnowned} \<or> 0 < d) \<and>
     (reent_mtx m = Some t \<longleftrightarrow> p \<in> {RLocked, ROwned, RUnowned, RUnlocking} \<or> 0 < d) \<and>
     (0 < d \<longrightarrow> reent_count m = d \<and> p \<in> {RIdle, RLoaded (Some t)}) \<and>
     (p = RLoaded (Some t) \<longrightarrow> 0 < d)"

definition reent_inv :: "reentrant_state \<Rightarrow> bool" where
  "reent_inv s \<longleftrightarrow> (\<forall>t. reent_thread (reent s) (reent_at s t) (reent_depth s t) t)"

lemma reent_inv_at: "reent_inv s \<Longrightarrow> reent_thread (reent s) (reent_at s t) (reent_depth s t) t"
  by (simp add: reent_inv_def)

text \<open>A step of \<open>t\<close> that takes the owner and the mutex only from itself or from nobody is no concern of the others.\<close>

lemma reent_thread_other:
  assumes "reent_thread m p d u" and "m' = m \<or> {reent_mtx m, reent_mtx m', reent_owner m, reent_owner m'} \<subseteq> {None, Some t}"
    and "u \<noteq> t"
  shows "reent_thread m' p d u"
proof (cases "m' = m")
  case False
  then have "reent_mtx m \<noteq> Some u" "reent_mtx m' \<noteq> Some u" "reent_owner m \<noteq> Some u" "reent_owner m' \<noteq> Some u"
    using assms(2,3) by auto
  then show ?thesis using assms(1) by (cases "d = 0") (simp_all add: reent_thread_def)
qed (use assms(1) in simp)

lemma reent_inv_go:
  assumes "reent_inv s" "reent_thread m p d t"
    and "m = reent s \<or> {reent_mtx (reent s), reent_mtx m, reent_owner (reent s), reent_owner m} \<subseteq> {None, Some t}"
  shows "reent_inv (reent_go t p m d s)"
  unfolding reent_inv_def
proof
  fix u
  show "reent_thread (reent (reent_go t p m d s)) (reent_at (reent_go t p m d s) u) (reent_depth (reent_go t p m d s) u) u"
    using reent_thread_other [OF reent_inv_at [OF assms(1), of u] assms(3)] assms(2) by (cases "u = t") (simp_all add: reent_go_def)
qed

lemma reent_inv_owner: "reent_inv s \<Longrightarrow> reent_owner (reent s) = Some t \<Longrightarrow> reent_mtx (reent s) = Some t"
  using reent_inv_at [of s t] by (auto simp: reent_thread_def)

lemma reent_inv_owners:
  assumes "reent_inv s" "reent_mtx (reent s) \<in> {None, Some t}"
  shows "reent_owner (reent s) \<in> {None, Some t}"
proof (cases "reent_owner (reent s)")
  case (Some u)
  then show ?thesis using reent_inv_owner [OF assms(1) Some] assms(2) by simp
qed simp

lemma reent_inv_step:
  assumes "reent_step t s s'" "reent_inv s"
  shows "reent_inv s'"
proof -
  note at = reent_inv_at [OF assms(2)] and own = reent_inv_owners [OF assms(2), of t]
  from assms(1) show ?thesis
  proof cases
    case unlock
    then show ?thesis using at [of t] own
      by (auto simp: ReentrantMutex_unlock_def Let_def reent_thread_def intro!: reent_inv_go [OF assms(2)])
  next
    case (pass u)
    have "u \<noteq> t" using pass(2,3) by auto
    let ?m = "(reent s)\<lparr>reent_mtx := None\<rparr>"
    have mid: "reent_inv (reent_go t RIdle ?m (reent_depth s t) s)"
      using at [of t] own pass(2) by (intro reent_inv_go [OF assms(2)]) (auto simp: reent_thread_def)
    have "reent_inv (reent_go u RLocked (?m\<lparr>reent_mtx := Some u\<rparr>) (reent_depth s u) (reent_go t RIdle ?m (reent_depth s t) s))"
      using at [of u] at [of t] own pass(2,3) \<open>u \<noteq> t\<close>
      by (intro reent_inv_go [OF mid]) (auto simp: reent_thread_def reent_go_def)
    then show ?thesis unfolding pass(1) by (simp add: reent_go_def)
  qed (use at [of t] own in \<open>auto simp: reent_thread_def intro!: reent_inv_go [OF assms(2)]\<close>)
qed

interpretation reentrant: exclusion_protocol reent_steps reent_start reent_inv reent_inside
proof
  show "reent_inv s" if "reent_start s" for s
    using that by (simp add: reent_start_def reent_inv_def reent_thread_def ReentrantMutex_new_def)
  show "reent_inv s'" if "reent_steps s s'" "reent_inv s" for s s'
    using that reent_inv_step by (auto simp: reent_steps_def)
  have "reent_owner (reent s) = Some t" if "reent_inv s" "t \<in> reent_inside s" for s t
    using reent_inv_at [OF that(1), of t] that(2) by (simp add: reent_inside_def reent_thread_def)
  then show "t = u" if "reent_inv s" "t \<in> reent_inside s" "u \<in> reent_inside s" for s t u
    using that by (metis option.inject)
qed

section \<open>A free mutex can be taken\<close>

lemma mutex_retry_loads:
  assumes "mutex_inv s" "\<not> Mutex_is_locked (m_state s)" "retries (m_at s u)"
  shows "\<exists>s' d. (mutex_step pl u)\<^sup>*\<^sup>* s s' \<and> m_state s' = m_state s \<and> m_at s' u = MLoop d (m_state s)"
proof -
  have load: "\<exists>s' d. (mutex_step pl u)\<^sup>*\<^sup>* s s' \<and> m_state s' = m_state s \<and> m_at s' u = MLoop d (m_state s)"
    if "(mutex_step pl u)\<^sup>*\<^sup>* s s1" "m_state s1 = m_state s" "m_at s1 u = MLoad d" for s1 d
  proof -
    have "mutex_step pl u s1 (mutex_go u (MLoop d (m_state s1)) (m_state s1) s1)" using that(3) by (rule mutex_step.lock_slow [OF lock_slow_step.slow_load])
    then show ?thesis using that(1,2)
      by (intro exI [of _ "mutex_go u (MLoop d (m_state s1)) (m_state s1) s1"] exI [of _ d]) (simp add: mutex_go_def)
  qed
  have park: "\<exists>s' d. (mutex_step pl u)\<^sup>*\<^sup>* s s' \<and> m_state s' = m_state s \<and> m_at s' u = MLoop d (m_state s)"
    if "(mutex_step pl u)\<^sup>*\<^sup>* s s1" "m_state s1 = m_state s" "m_at s1 u = MPark d" for s1 d
  proof -
    have "\<not> lock_slow_validate (m_state s1)" using assms(2) that(2) by (auto simp: lock_slow_validate_def LOCKED_BIT_def PARKED_BIT_def)
    then have "mutex_step pl u s1 (mutex_go u (MLoad d) (m_state s1) s1)" using that(3) by (intro mutex_step.lock_slow lock_slow_step.park_invalid)
    then show ?thesis using that(1,2) by (intro load [of "mutex_go u (MLoad d) (m_state s1) s1" d]) (simp_all add: mutex_go_def)
  qed
  show ?thesis
  proof (cases "m_at s u")
    case (MLockFast d)
    then have "mutex_step pl u s (mutex_go u (MLoad d) (m_state s) s)" by (rule mutex_step.lock_fast_fails)
    then show ?thesis by (intro load [of "mutex_go u (MLoad d) (m_state s) s" d]) (auto simp: mutex_go_def)
  next
    case (MLoad d)
    then show ?thesis by (intro load [of s d]) simp_all
  next
    case (MLoop d x)
    consider "\<not> Mutex_is_locked x" | "Mutex_is_locked x" "\<not> has_parked x" | "Mutex_is_locked x" "has_parked x" by blast
    then show ?thesis
    proof cases
      case 1
      then have "mutex_step pl u s (mutex_go u (MLoop d (m_state s)) (m_state s) s)" using MLoop by (intro mutex_step.lock_slow lock_slow_step.grab_fails)
      then show ?thesis by (intro exI [of _ "mutex_go u (MLoop d (m_state s)) (m_state s) s"] exI [of _ d]) (auto simp: mutex_go_def)
    next
      case 2
      then have "mutex_step pl u s (mutex_go u (MLoop d (m_state s)) (m_state s) s)" using MLoop by (intro mutex_step.lock_slow lock_slow_step.spin)
      then show ?thesis by (intro exI [of _ "mutex_go u (MLoop d (m_state s)) (m_state s) s"] exI [of _ d]) (auto simp: mutex_go_def)
    next
      case 3
      then have "mutex_step pl u s (mutex_go u (MPark d) (m_state s) s)" using MLoop by (intro mutex_step.lock_slow lock_slow_step.already_parked)
      then show ?thesis by (intro park [of "mutex_go u (MPark d) (m_state s) s" d]) (auto simp: mutex_go_def)
    qed
  next
    case (MPark d)
    then show ?thesis by (intro park [of s d]) simp_all
  next
    case (MUnparked d tok)
    then have "mutex_step pl u s (mutex_go u (MLoad d) (m_state s) s)" using assms(3) by (intro mutex_step.lock_slow lock_slow_step.retry) (simp add: retries_def)
    then show ?thesis by (intro load [of "mutex_go u (MLoad d) (m_state s) s" d]) (auto simp: mutex_go_def)
  qed (use assms(3) in \<open>simp_all add: retries_def\<close>)
qed

lemma mutex_retry_obtains:
  assumes "mutex_inv s" "\<not> Mutex_is_locked (m_state s)" "retries (m_at s u)"
  shows "\<exists>s'. (mutex_step pl u)\<^sup>*\<^sup>* s s' \<and> m_at s' u = MHeld"
proof -
  obtain s1 d where s1: "(mutex_step pl u)\<^sup>*\<^sup>* s s1" "m_state s1 = m_state s" "m_at s1 u = MLoop d (m_state s)"
    using mutex_retry_loads [OF assms] by blast
  then have "mutex_step pl u s1 (mutex_go u MHeld (m_state s OR LOCKED_BIT) s1)" using assms(2) by (intro mutex_step.lock_slow lock_slow_step.grab) simp_all
  then show ?thesis using s1(1) by (intro exI [of _ "mutex_go u MHeld (m_state s OR LOCKED_BIT) s1"]) (auto simp: mutex_go_def)
qed

section \<open>Properties\<close>

text \<open>For the witnesses: a parking lot that reports what it does, and a mutex with a holder and a thread that waits for it.\<close>

definition sample_lot :: parking_lot where
  "sample_lot = \<lparr>unpark_outcome = (\<lambda>P u r. case u of None \<Rightarrow> P = {} \<and> r = \<lparr>unparked_threads = 0, have_more_threads = False, be_fair = False\<rparr>
       | Some v \<Rightarrow> v \<in> P \<and> r = \<lparr>unparked_threads = 1, have_more_threads = (P - {v} \<noteq> {}), be_fair = False\<rparr>),
     timeout_outcome = (\<lambda>P t b. b = (P - {t} = {}))\<rparr>"

definition sample_mutex :: mutex_state where
  "sample_mutex = \<lparr>m_state = 0, m_at = (\<lambda>_. MOut)\<rparr>"

definition sample_waiting :: mutex_state where
  "sample_waiting = \<lparr>m_state = 3, m_at = (\<lambda>_. MOut)(1 := MHeld, 2 := MParked False)\<rparr>"

lemma sample_lot_laws: "parking_laws sample_lot"
  by (simp add: parking_laws_def sample_lot_def)

lemma sample_mutex_start: "mutex_start sample_mutex"
  by (simp add: mutex_start_def sample_mutex_def Mutex_new_def)

lemma mutex_run: "(mutex_steps pl)\<^sup>*\<^sup>* s0 s \<Longrightarrow> mutex_step pl t s s' \<Longrightarrow> (mutex_steps pl)\<^sup>*\<^sup>* s0 s'"
  by (rule rtranclp.rtrancl_into_rtrancl) (auto simp: mutex_steps_def)

lemma sample_waiting_reachable: "(mutex_steps sample_lot)\<^sup>*\<^sup>* sample_mutex sample_waiting"
proof -
  let ?R = "(mutex_steps sample_lot)\<^sup>*\<^sup>* sample_mutex"
  define at where "at = (\<lambda>st p q. \<lparr>m_state = st, m_at = (\<lambda>_. MOut)(1 := p, 2 := q)\<rparr> :: mutex_state)"
  have "at 0 MOut MOut = sample_mutex" by (auto simp: at_def sample_mutex_def)
  then have "?R (at 0 MOut MOut)" by simp
  then have "?R (at 0 (MLockFast False) MOut)"
    by (rule mutex_run) (use mutex_step.lock [of "at 0 MOut MOut" 1 sample_lot False] in \<open>simp add: at_def mutex_go_def fun_upd_twist\<close>)
  then have "?R (at 1 MHeld MOut)"
    by (rule mutex_run) (use mutex_step.lock_fast [of "at 0 (MLockFast False) MOut" 1 False sample_lot] in
        \<open>simp add: at_def mutex_go_def fun_upd_twist LOCKED_BIT_def\<close>)
  then have "?R (at 1 MHeld (MLockFast False))"
    by (rule mutex_run) (use mutex_step.lock [of "at 1 MHeld MOut" 2 sample_lot False] in \<open>simp add: at_def mutex_go_def\<close>)
  then have "?R (at 1 MHeld (MLoad False))"
    by (rule mutex_run) (use mutex_step.lock_fast_fails [of "at 1 MHeld (MLockFast False)" 2 False sample_lot] in \<open>simp add: at_def mutex_go_def\<close>)
  then have "?R (at 1 MHeld (MLoop False 1))"
    by (rule mutex_run) (use mutex_step.lock_slow [OF lock_slow_step.slow_load [of "at 1 MHeld (MLoad False)" 2 False sample_lot]] in \<open>simp add: at_def mutex_go_def\<close>)
  then have "?R (at 3 MHeld (MPark False))"
    by (rule mutex_run) (use mutex_step.lock_slow [OF lock_slow_step.set_parked [of "at 1 MHeld (MLoop False 1)" 2 False 1 sample_lot]] in
        \<open>simp add: at_def mutex_go_def PARKED_BIT_def\<close>)
  then have "?R (at 3 MHeld (MParked False))"
    by (rule mutex_run) (use mutex_step.lock_slow [OF lock_slow_step.park [of "at 3 MHeld (MPark False)" 2 False sample_lot]] in
        \<open>simp add: at_def mutex_go_def lock_slow_validate_def LOCKED_BIT_def PARKED_BIT_def\<close>)
  then show ?thesis by (simp add: at_def sample_waiting_def)
qed

text \<open>C8: Under every interleaving, at most one thread holds the mutex, counting a thread to which it was handed over, and the lock
  bit of the state says whether there is one. Each step of a thread is a step of the abstract lock: it takes
  the free lock, releases or passes on its own, or leaves the holder unchanged.\<close>

theorem mutex_exclusive:
  assumes "parking_laws pl" "mutex_start s0" "(mutex_steps pl)\<^sup>*\<^sup>* s0 s"
  shows "(Mutex_is_locked (m_state s) \<longleftrightarrow> (\<exists>t. owns (m_at s t))) \<and>
    (\<forall>t u. owns (m_at s t) \<and> owns (m_at s u) \<longrightarrow> t = u) \<and>
    (\<forall>t s'. mutex_step pl t s s' \<longrightarrow> lock_spec t (holder s) (holder s'))"
proof (intro conjI allI impI)
  have inv: "mutex_inv s" using mutex_reachable_inv [OF assms] .
  then show "Mutex_is_locked (m_state s) \<longleftrightarrow> (\<exists>t. owns (m_at s t))" by (auto simp: mutex_inv_def mutex_ok_def owners_def)
  show "t = u" if "owns (m_at s t) \<and> owns (m_at s u)" for t u
    using mutex.exclusive_reachable [OF assms(2,3), of t u] assms(1) that by (simp add: mutex_at_sets)
  show "lock_spec t (holder s) (holder s')" if "mutex_step pl t s s'" for t s' using mutex_step_spec [OF that inv assms(1)] .
qed

theorem mutex_exclusive_witness:
  "Mutex_is_locked (m_state sample_waiting) \<and> {u. owns (m_at sample_waiting u)} = {1}"
proof -
  have "owns (m_at sample_waiting 1)" by (simp add: sample_waiting_def owns_def)
  then show ?thesis using mutex_exclusive [OF sample_lot_laws sample_mutex_start sample_waiting_reachable] by blast
qed



text \<open>C29: At most one thread is inside a reentrant mutex; its nesting depth is the count, it is the owner and it holds the inner
  mutex. A thread that is not inside and unlocks panics without changing the mutex.\<close>

theorem reentrant_mutex_exclusive:
  assumes "reent_start s0" "reent_steps\<^sup>*\<^sup>* s0 s"
  shows "(\<forall>t u. 0 < reent_depth s t \<and> 0 < reent_depth s u \<longrightarrow> t = u) \<and>
    (\<forall>t. 0 < reent_depth s t \<longrightarrow> reent_count (reent s) = reent_depth s t \<and> reent_owner (reent s) = Some t \<and> reent_mtx (reent s) = Some t) \<and>
    (\<forall>t. reent_at s t = RIdle \<and> reent_depth s t = 0 \<longrightarrow>
       reent_at (ReentrantMutex_unlock t s) t = RPanicked \<and> reent (ReentrantMutex_unlock t s) = reent s)"
proof (intro conjI allI impI)
  have inv: "reent_inv s" using reentrant.inv_reachable [OF assms] .
  show "t = u" if "0 < reent_depth s t \<and> 0 < reent_depth s u" for t u
    using reentrant.exclusive_reachable [OF assms, of t u] that by (simp add: reent_inside_def)
  show "reent_count (reent s) = reent_depth s t" "reent_owner (reent s) = Some t" "reent_mtx (reent s) = Some t"
    if "0 < reent_depth s t" for t
    using reent_inv_at [OF inv, of t] that by (simp_all add: reent_thread_def)
  show "reent_at (ReentrantMutex_unlock t s) t = RPanicked" "reent (ReentrantMutex_unlock t s) = reent s"
    if "reent_at s t = RIdle \<and> reent_depth s t = 0" for t
    using reent_inv_at [OF inv, of t] that by (simp_all add: reent_thread_def ReentrantMutex_unlock_def reent_go_def)
qed

definition sample_reentrant :: "reentrant_pc \<Rightarrow> ReentrantMutex \<Rightarrow> nat \<Rightarrow> reentrant_state" where
  "sample_reentrant p m d = \<lparr>reent = m, reent_at = (\<lambda>_. RIdle)(1 := p), reent_depth = (\<lambda>_. 0)(1 := d)\<rparr>"

lemma sample_reentrant_start: "reent_start (sample_reentrant RIdle ReentrantMutex_new 0)"
  by (simp add: reent_start_def sample_reentrant_def)

lemma sample_reentrant_reachable:
  "reent_steps\<^sup>*\<^sup>* (sample_reentrant RIdle ReentrantMutex_new 0)
     (sample_reentrant RIdle \<lparr>reent_owner = Some 1, reent_count = 1, reent_mtx = Some 1\<rparr> 1)"
proof -
  let ?R = "reent_steps\<^sup>*\<^sup>* (sample_reentrant RIdle ReentrantMutex_new 0)"
  have run: "?R s'" if "?R s" "reent_step 1 s s'" for s s'
    using that(1) by (rule rtranclp.rtrancl_into_rtrancl) (use that(2) in \<open>auto simp: reent_steps_def\<close>)
  note go = sample_reentrant_def reent_go_def ReentrantMutex_new_def
  have "?R (sample_reentrant (RLoaded None) ReentrantMutex_new 0)"
    by (rule run) (use reent_step.load [of "sample_reentrant RIdle ReentrantMutex_new 0" 1] in \<open>simp_all add: go\<close>)
  then have "?R (sample_reentrant RLocking ReentrantMutex_new 0)"
    by (rule run) (use reent_step.not_owner [of "sample_reentrant (RLoaded None) ReentrantMutex_new 0" 1] in \<open>simp_all add: go\<close>)
  then have "?R (sample_reentrant RLocked (ReentrantMutex_new\<lparr>reent_mtx := Some 1\<rparr>) 0)"
    by (rule run) (use reent_step.lock [of "sample_reentrant RLocking ReentrantMutex_new 0" 1] in \<open>simp_all add: go\<close>)
  then have "?R (sample_reentrant ROwned \<lparr>reent_owner = Some 1, reent_count = 0, reent_mtx = Some 1\<rparr> 0)"
    by (rule run) (use reent_step.own [of "sample_reentrant RLocked (ReentrantMutex_new\<lparr>reent_mtx := Some 1\<rparr>) 0" 1] in \<open>simp_all add: go\<close>)
  then show ?thesis
    by (rule run) (use reent_step.count [of "sample_reentrant ROwned \<lparr>reent_owner = Some 1, reent_count = 0, reent_mtx = Some 1\<rparr> 0" 1] in
        \<open>simp_all add: go\<close>)
qed

theorem reentrant_mutex_exclusive_witness:
  "let s = sample_reentrant RIdle \<lparr>reent_owner = Some 1, reent_count = 1, reent_mtx = Some 1\<rparr> 1 in
     reent_count (reent s) = reent_depth s 1 \<and> reent_at (ReentrantMutex_unlock 2 s) 2 = RPanicked"
proof -
  let ?s = "sample_reentrant RIdle \<lparr>reent_owner = Some 1, reent_count = 1, reent_mtx = Some 1\<rparr> 1"
  have "0 < reent_depth ?s 1" "reent_at ?s 2 = RIdle \<and> reent_depth ?s 2 = 0" by (simp_all add: sample_reentrant_def)
  then have "reent_count (reent ?s) = reent_depth ?s 1" "reent_at (ReentrantMutex_unlock 2 ?s) 2 = RPanicked"
    using reentrant_mutex_exclusive [OF sample_reentrant_start sample_reentrant_reachable] by blast+
  then show ?thesis unfolding Let_def by blast
qed

text \<open>At most one thread is inside a spin lock, its nesting depth is the count, and it is the owner.\<close>

lemma spin_lock_exclusive:
  assumes "spin_start s0" "spin_steps\<^sup>*\<^sup>* s0 s"
  shows "(\<forall>t u. 0 < spin_depth s t \<and> 0 < spin_depth s u \<longrightarrow> t = u) \<and>
    (\<forall>t. 0 < spin_depth s t \<longrightarrow> spin_owner (spin_lock s) = t \<and> spin_count (spin_lock s) = spin_depth s t)"
proof (intro conjI allI impI)
  have inv: "spin_inv s" using spin.inv_reachable [OF assms] .
  show "t = u" if "0 < spin_depth s t \<and> 0 < spin_depth s u" for t u
    using spin.exclusive_reachable [OF assms, of t u] that by (simp add: spin_inside_def)
  show "spin_owner (spin_lock s) = t" "spin_count (spin_lock s) = spin_depth s t" if "0 < spin_depth s t" for t
    using spin_inv_at [OF inv, of t] that by (simp_all add: spin_thread_def)
qed

end
