(* ===== verification/Safepoint.thy ===== *)
theory Safepoint
  imports Allocation Locks
begin

text \<open>
  Threads and safepoints (\<open>src/threading.rs\<close>, \<open>src/safepoint.rs\<close>, the handler of \<open>src/signals/unix.rs\<close>, and the parts of
  \<open>collect_internal\<close> in \<open>src/lib.rs\<close> that start and end a cycle), in the default build with the feature \<open>threaded\<close> and
  without \<open>willdebug\<close>.

  The first part has the functions, the second their interleavings: a step is one access of a thread to the shared state. The two locks
  \<open>SAFEPOINT_LOCK\<close> and \<open>THREADS\<close> of the crate \<open>parking_lot\<close> are their holders, and are only taken when nobody holds them.
  A thread that waits in a spinning loop makes no step.
\<close>

section \<open>State\<close>

datatype protection = PROT_READ | PROT_WRITE

definition GC_STATE_WAITING :: int where
  "GC_STATE_WAITING = 1"

definition GC_STATE_SAFE :: int where
  "GC_STATE_SAFE = 2"

text \<open>
  Where a thread is. A number is the \<open>old_state\<close> of the enclosing call.

  \<^item> \<open>Running\<close>: outside of the library.
  \<^item> \<open>Yielding\<close>: before the store to the safepoint page. \<open>Trapped\<close> and \<open>TrapResume\<close>: in \<open>set_gc_and_wait\<close>, called by the signal handler.
    \<open>Crashed\<close>: after a fault that is not a safepoint.
  \<^item> \<open>StartGc\<close> to \<open>Enabling\<close>: in \<open>safepoint_start_gc\<close>; \<open>GiveUp\<close>: another thread was first.
  \<^item> \<open>WaitWorld\<close> to \<open>InspectAgain\<close>: in \<open>safepoint_wait_for_the_world\<close>, with the threads still to look at.
  \<^item> \<open>Collecting\<close>: the cycle itself.
  \<^item> \<open>Ending\<close>, \<open>EndLocked\<close>: in \<open>safepoint_end_gc\<close>. \<open>DropThreads\<close>, \<open>Restore\<close>: the end of \<open>collect_internal\<close>.
  \<^item> \<open>Registering\<close>, \<open>Unregistering\<close>: before \<open>THREADS\<close> is locked.
\<close>

datatype safepoint_pc =
    Running
  | Yielding
  | Trapped int
  | TrapResume int
  | Crashed
  | StartGc int
  | StartLocked int
  | Enabling int
  | GiveUp int
  | WaitWorld int
  | Inspect int "thread_id list"
  | InspectAgain int "thread_id list"
  | Collecting int
  | Ending int
  | EndLocked int
  | DropThreads int
  | Restore int
  | Registering usize
  | Unregistering

record world =
  SAFEPOINT_PAGE :: usize
  page_prot :: "protection set"
  GC_RUNNING :: bool
  SAFEPOINT_LOCK :: "thread_id option"
  THREADS_LOCK :: "thread_id option"
  THREADS :: "thread_id list"
  tls_of :: "thread_id \<Rightarrow> TLSState"
  at_pc :: "thread_id \<Rightarrow> safepoint_pc"

abbreviation gc_state_of :: "world \<Rightarrow> thread_id \<Rightarrow> int" where
  "gc_state_of w t \<equiv> gc_state (tls_of w t)"

definition goto :: "thread_id \<Rightarrow> safepoint_pc \<Rightarrow> world \<Rightarrow> world" where
  "goto t p w = w\<lparr>at_pc := (at_pc w)(t := p)\<rparr>"

definition put_tls :: "thread_id \<Rightarrow> TLSState \<Rightarrow> world \<Rightarrow> world" where
  "put_tls t x w = w\<lparr>tls_of := (tls_of w)(t := x)\<rparr>"

definition TLS_initial :: TLSState where
  "TLS_initial = \<lparr>safepoint = 0, gc_state = 0, current_block = None, current_ovf_block = None, stack_bottom = 0, stack_end = 0\<rparr>"

section \<open>The safepoint page\<close>

definition enable_safepoint :: "world \<Rightarrow> world" where
  "enable_safepoint w = w\<lparr>page_prot := {PROT_READ, PROT_WRITE}\<rparr>"

definition disable_safepoint :: "world \<Rightarrow> world" where
  "disable_safepoint w = w\<lparr>page_prot := {PROT_READ, PROT_WRITE} \<union> {PROT_WRITE}\<rparr>"

text \<open>\<open>mapped\<close> is the result of \<open>mmap\<close>, \<open>None\<close> for \<open>MAP_FAILED\<close>.\<close>

definition safepoint_alloc_page :: "usize option \<Rightarrow> usize option" where
  "safepoint_alloc_page mapped = (case mapped of None \<Rightarrow> None | Some addr \<Rightarrow> if addr = 0 then None else Some addr)"

definition safepoint_init :: "usize option \<Rightarrow> world \<Rightarrow> world option" where
  "safepoint_init mapped w = (case mapped of None \<Rightarrow> None
     | Some addr \<Rightarrow> if addr = 0 then None else Some (w\<lparr>SAFEPOINT_PAGE := addr, page_prot := {PROT_READ, PROT_WRITE}\<rparr>))"

definition addr_in_safepoint :: "usize \<Rightarrow> world \<Rightarrow> bool" where
  "addr_in_safepoint addr w \<longleftrightarrow> addr = SAFEPOINT_PAGE w"

section \<open>The state of a thread\<close>

text \<open>\<open>yieldpoint\<close> up to the store to the page; \<open>sp\<close> is the stack pointer.\<close>

definition TLSState_yieldpoint :: "usize \<Rightarrow> thread_id \<Rightarrow> world \<Rightarrow> world" where
  "TLSState_yieldpoint sp t w = goto t Yielding (put_tls t ((tls_of w t)\<lparr>stack_end := sp\<rparr>) w)"

definition gc_state_set :: "usize \<Rightarrow> int \<Rightarrow> int \<Rightarrow> thread_id \<Rightarrow> world \<Rightarrow> int \<times> world" where
  "gc_state_set sp state old_state t w =
     (let w = goto t Running (put_tls t ((tls_of w t)\<lparr>gc_state := state\<rparr>) w)
      in (old_state, if old_state \<noteq> 0 \<and> state = 0 then TLSState_yieldpoint sp t w else w))"

definition gc_state_save_and_set :: "usize \<Rightarrow> int \<Rightarrow> thread_id \<Rightarrow> world \<Rightarrow> int \<times> world" where
  "gc_state_save_and_set sp state t w = gc_state_set sp state (gc_state_of w t) t w"

definition immix_unsafe_enter :: "usize \<Rightarrow> thread_id \<Rightarrow> world \<Rightarrow> int \<times> world" where
  "immix_unsafe_enter sp t w = gc_state_save_and_set sp 0 t w"

definition immix_unsafe_leave :: "usize \<Rightarrow> int \<Rightarrow> thread_id \<Rightarrow> world \<Rightarrow> int \<times> world" where
  "immix_unsafe_leave sp state t w = gc_state_set sp state 0 t w"

definition immix_safe_enter :: "usize \<Rightarrow> thread_id \<Rightarrow> world \<Rightarrow> int \<times> world" where
  "immix_safe_enter sp t w = gc_state_save_and_set sp GC_STATE_SAFE t w"

definition immix_safe_leave :: "usize \<Rightarrow> int \<Rightarrow> thread_id \<Rightarrow> world \<Rightarrow> int \<times> world" where
  "immix_safe_leave sp state t w = gc_state_set sp state GC_STATE_SAFE t w"

definition immix_mutator_yieldpoint :: "usize \<Rightarrow> thread_id \<Rightarrow> world \<Rightarrow> world" where
  "immix_mutator_yieldpoint sp t w = TLSState_yieldpoint sp t w"

text \<open>\<open>set_gc_and_wait\<close> up to the wait.\<close>

definition set_gc_and_wait :: "thread_id \<Rightarrow> world \<Rightarrow> world" where
  "set_gc_and_wait t w = goto t (Trapped (gc_state_of w t)) (put_tls t ((tls_of w t)\<lparr>gc_state := GC_STATE_WAITING\<rparr>) w)"

text \<open>The yieldpoint of a build with the feature \<open>willdebug\<close>.\<close>

definition slow_yieldpoint :: "usize \<Rightarrow> thread_id \<Rightarrow> world \<Rightarrow> world" where
  "slow_yieldpoint sp t w =
     (let w = put_tls t ((tls_of w t)\<lparr>stack_end := sp\<rparr>) w in if GC_RUNNING w then set_gc_and_wait t w else w)"

text \<open>The handler of \<open>SIGSEGV\<close> for a fault at \<open>addr\<close>.\<close>

definition segv_handler :: "usize \<Rightarrow> thread_id \<Rightarrow> world \<Rightarrow> world" where
  "segv_handler addr t w = (if addr_in_safepoint addr w then set_gc_and_wait t w else goto t Crashed w)"

text \<open>The store of the yieldpoint: it faults if the page cannot be written; an unprepared thread has a null pointer.\<close>

definition yieldpoint_store :: "thread_id \<Rightarrow> world \<Rightarrow> world" where
  "yieldpoint_store t w =
     (let addr = safepoint (tls_of w t)
      in if addr = SAFEPOINT_PAGE w \<and> PROT_WRITE \<in> page_prot w then goto t Running w else segv_handler addr t w)"

text \<open>\<open>immix_prepare_thread\<close>, where \<open>origin\<close> is the start of the thread's stack, and the registration of threads.\<close>

definition immix_prepare_thread :: "usize \<Rightarrow> thread_id \<Rightarrow> world \<Rightarrow> bool \<times> world" where
  "immix_prepare_thread origin t w =
     (if safepoint (tls_of w t) \<noteq> 0 then (False, w)
      else (True, put_tls t ((tls_of w t)\<lparr>safepoint := SAFEPOINT_PAGE w, stack_bottom := origin\<rparr>) w))"

definition immix_register_thread :: "usize \<Rightarrow> thread_id \<Rightarrow> world \<Rightarrow> world" where
  "immix_register_thread origin t w =
     (let (fresh, w) = immix_prepare_thread origin t w
      in if fresh then w\<lparr>THREADS := vec_push (THREADS w) t\<rparr> else w)"

definition immix_unregister_thread :: "thread_id \<Rightarrow> world \<Rightarrow> world" where
  "immix_unregister_thread t w = w\<lparr>THREADS := filter (\<lambda>x. x \<noteq> t) (THREADS w)\<rparr>"

section \<open>Starting and ending a cycle\<close>

text \<open>The beginning of \<open>collect_internal\<close>.\<close>

definition begin_collect :: "usize \<Rightarrow> thread_id \<Rightarrow> world \<Rightarrow> world" where
  "begin_collect sp t w =
     (let x = tls_of w t
      in goto t (StartGc (gc_state x)) (put_tls t (x\<lparr>stack_end := sp, gc_state := GC_STATE_WAITING\<rparr>) w))"

text \<open>\<open>safepoint_start_gc\<close>: after the exchange succeeded or failed, and the rest after it succeeded.\<close>

definition start_gc_exchange :: "bool \<Rightarrow> int \<Rightarrow> thread_id \<Rightarrow> world \<Rightarrow> world" where
  "start_gc_exchange ok old t w =
     (if ok then goto t (Enabling old) (w\<lparr>GC_RUNNING := True\<rparr>) else goto t (GiveUp old) (w\<lparr>SAFEPOINT_LOCK := None\<rparr>))"

definition start_gc_enable :: "int \<Rightarrow> thread_id \<Rightarrow> world \<Rightarrow> world" where
  "start_gc_enable old t w = goto t (WaitWorld old) ((enable_safepoint w)\<lparr>SAFEPOINT_LOCK := None\<rparr>)"

text \<open>One iteration of the loop of \<open>safepoint_wait_for_the_world\<close> over the threads: the first and the second load.\<close>

definition inspect_thread :: "int \<Rightarrow> thread_id list \<Rightarrow> thread_id \<Rightarrow> world \<Rightarrow> world" where
  "inspect_thread old ths t w =
     (case ths of
        [] \<Rightarrow> goto t (Collecting old) w
      | u # us \<Rightarrow>
          if u = t then goto t (Inspect old us) w
          else if gc_state_of w u = 0 then w else goto t (InspectAgain old ths) w)"

definition inspect_again :: "int \<Rightarrow> thread_id list \<Rightarrow> thread_id \<Rightarrow> world \<Rightarrow> world" where
  "inspect_again old ths t w = goto t (Inspect old (if gc_state_of w (hd ths) = 0 then ths else tl ths)) w"

text \<open>\<open>safepoint_end_gc\<close> with its lock taken.\<close>

definition safepoint_end_gc :: "int \<Rightarrow> thread_id \<Rightarrow> world \<Rightarrow> world" where
  "safepoint_end_gc old t w = goto t (DropThreads old) ((disable_safepoint w)\<lparr>GC_RUNNING := False, SAFEPOINT_LOCK := None\<rparr>)"

text \<open>The end of \<open>collect_internal\<close>, after \<open>THREADS\<close> is unlocked.\<close>

definition end_collect :: "usize \<Rightarrow> int \<Rightarrow> thread_id \<Rightarrow> world \<Rightarrow> world" where
  "end_collect sp old t w = snd (gc_state_set sp old GC_STATE_WAITING t w)"

section \<open>Interleavings\<close>

inductive world_step :: "thread_id \<Rightarrow> world \<Rightarrow> world \<Rightarrow> bool" for t :: thread_id and w :: world where
  yieldpoint: "world_step t w (immix_mutator_yieldpoint sp t w)" if "at_pc w t = Running"
| store: "world_step t w (yieldpoint_store t w)" if "at_pc w t = Yielding"
| trap_wait: "world_step t w (goto t (TrapResume state) w)" if "at_pc w t = Trapped state" "\<not> GC_RUNNING w"
| trap_resume: "world_step t w (goto t Yielding (put_tls t ((tls_of w t)\<lparr>gc_state := state\<rparr>) w))" if "at_pc w t = TrapResume state"
| unsafe_enter: "world_step t w (snd (immix_unsafe_enter sp t w))" if "at_pc w t = Running"
| unsafe_leave: "world_step t w (snd (immix_unsafe_leave sp state t w))" if "at_pc w t = Running" "state \<in> {0, GC_STATE_SAFE}"
| safe_enter: "world_step t w (snd (immix_safe_enter sp t w))" if "at_pc w t = Running"
| safe_leave: "world_step t w (snd (immix_safe_leave sp state t w))" if "at_pc w t = Running" "state \<in> {0, GC_STATE_SAFE}"
| collect: "world_step t w (begin_collect sp t w)" if "at_pc w t = Running"
| start_lock: "world_step t w (goto t (StartLocked old) (w\<lparr>SAFEPOINT_LOCK := Some t\<rparr>))"
    if "at_pc w t = StartGc old" "SAFEPOINT_LOCK w = None"
| start_exchange: "world_step t w (start_gc_exchange ok old t w)" if "at_pc w t = StartLocked old" "ok \<longrightarrow> \<not> GC_RUNNING w"
| start_enable: "world_step t w (start_gc_enable old t w)" if "at_pc w t = Enabling old" "THREADS_LOCK w = None"
| give_up: "world_step t w (goto t (Restore old) w)" if "at_pc w t = GiveUp old" "\<not> GC_RUNNING w"
| wait_lock: "world_step t w (goto t (Inspect old (THREADS w)) (w\<lparr>THREADS_LOCK := Some t\<rparr>))"
    if "at_pc w t = WaitWorld old" "THREADS_LOCK w = None"
| inspect: "world_step t w (inspect_thread old ths t w)" if "at_pc w t = Inspect old ths"
| inspect_again: "world_step t w (inspect_again old ths t w)" if "at_pc w t = InspectAgain old ths"
| collected: "world_step t w (goto t (Ending old) w)" if "at_pc w t = Collecting old"
| end_lock: "world_step t w (goto t (EndLocked old) (w\<lparr>SAFEPOINT_LOCK := Some t\<rparr>))"
    if "at_pc w t = Ending old" "SAFEPOINT_LOCK w = None"
| end_gc: "world_step t w (safepoint_end_gc old t w)" if "at_pc w t = EndLocked old"
| drop_threads: "world_step t w (goto t (Restore old) (w\<lparr>THREADS_LOCK := None\<rparr>))" if "at_pc w t = DropThreads old"
| restore: "world_step t w (end_collect sp old t w)" if "at_pc w t = Restore old"
| register_call: "world_step t w (goto t (Registering origin) w)" if "at_pc w t = Running"
| register: "world_step t w (goto t Running (immix_register_thread origin t w))" if "at_pc w t = Registering origin" "THREADS_LOCK w = None"
| unregister_call: "world_step t w (goto t Unregistering w)" if "at_pc w t = Running"
| unregister: "world_step t w (goto t Running (immix_unregister_thread t w))" if "at_pc w t = Unregistering" "THREADS_LOCK w = None"

definition world_steps :: "world \<Rightarrow> world \<Rightarrow> bool" where
  "world_steps w w' \<longleftrightarrow> (\<exists>t. world_step t w w')"

text \<open>After \<open>safepoint_init\<close>, before any thread is registered.\<close>

definition world_start :: "world \<Rightarrow> bool" where
  "world_start w \<longleftrightarrow> (\<exists>w0 addr. safepoint_init (Some addr) w0 = Some w) \<and> \<not> GC_RUNNING w \<and> SAFEPOINT_LOCK w = None \<and>
     THREADS_LOCK w = None \<and> THREADS w = [] \<and> (\<forall>t. tls_of w t = TLS_initial \<and> at_pc w t = Running)"

section \<open>The invariant\<close>

text \<open>The positions at which a thread runs the cycle, holds a lock, or has said that it waits.\<close>

fun in_cycle :: "safepoint_pc \<Rightarrow> bool" where
  "in_cycle (Enabling _) = True" | "in_cycle (WaitWorld _) = True" | "in_cycle (Inspect _ _) = True"
| "in_cycle (InspectAgain _ _) = True" | "in_cycle (Collecting _) = True" | "in_cycle (Ending _) = True"
| "in_cycle (EndLocked _) = True" | "in_cycle _ = False"

fun holds_safepoint_lock :: "safepoint_pc \<Rightarrow> bool" where
  "holds_safepoint_lock (StartLocked _) = True" | "holds_safepoint_lock (Enabling _) = True"
| "holds_safepoint_lock (EndLocked _) = True" | "holds_safepoint_lock _ = False"

fun holds_threads :: "safepoint_pc \<Rightarrow> bool" where
  "holds_threads (Inspect _ _) = True" | "holds_threads (InspectAgain _ _) = True" | "holds_threads (Collecting _) = True"
| "holds_threads (Ending _) = True" | "holds_threads (EndLocked _) = True" | "holds_threads (DropThreads _) = True"
| "holds_threads _ = False"

fun says_waiting :: "safepoint_pc \<Rightarrow> bool" where
  "says_waiting (StartGc _) = True" | "says_waiting (StartLocked _) = True" | "says_waiting (GiveUp _) = True"
| "says_waiting (DropThreads _) = True" | "says_waiting (Restore _) = True" | "says_waiting p = in_cycle p"

fun stopped_by_trap :: "safepoint_pc \<Rightarrow> bool" where
  "stopped_by_trap (Trapped _) = True" | "stopped_by_trap (TrapResume _) = True" | "stopped_by_trap _ = False"

definition world_thread :: "world \<Rightarrow> thread_id \<Rightarrow> bool" where
  "world_thread w t \<longleftrightarrow>
     (SAFEPOINT_LOCK w = Some t \<longleftrightarrow> holds_safepoint_lock (at_pc w t)) \<and> (THREADS_LOCK w = Some t \<longleftrightarrow> holds_threads (at_pc w t)) \<and>
     (says_waiting (at_pc w t) \<longrightarrow> gc_state_of w t = GC_STATE_WAITING) \<and> \<not> stopped_by_trap (at_pc w t) \<and>
     safepoint (tls_of w t) \<in> {0, SAFEPOINT_PAGE w}"

definition cycle_threads :: "world \<Rightarrow> thread_id set" where
  "cycle_threads w = {t. in_cycle (at_pc w t)}"

definition world_inv :: "world \<Rightarrow> bool" where
  "world_inv w \<longleftrightarrow> PROT_WRITE \<in> page_prot w \<and> SAFEPOINT_PAGE w \<noteq> 0 \<and> (\<forall>t. world_thread w t) \<and>
     (GC_RUNNING w \<longleftrightarrow> cycle_threads w \<noteq> {}) \<and> (\<forall>t \<in> cycle_threads w. \<forall>u \<in> cycle_threads w. t = u)"

text \<open>A step of \<open>t\<close> changes no other thread, takes the locks only from itself or nobody, and enters or leaves the cycle together with
  the flag.\<close>

lemma world_inv_move:
  assumes inv: "world_inv w"
    and others: "\<forall>u. u \<noteq> t \<longrightarrow> at_pc w' u = at_pc w u \<and> tls_of w' u = tls_of w u"
    and page: "SAFEPOINT_PAGE w' = SAFEPOINT_PAGE w" "PROT_WRITE \<in> page_prot w'"
    and locks: "SAFEPOINT_LOCK w' = SAFEPOINT_LOCK w \<or> {SAFEPOINT_LOCK w, SAFEPOINT_LOCK w'} \<subseteq> {None, Some t}"
      "THREADS_LOCK w' = THREADS_LOCK w \<or> {THREADS_LOCK w, THREADS_LOCK w'} \<subseteq> {None, Some t}"
    and cycle: "in_cycle (at_pc w' t) = in_cycle (at_pc w t) \<and> GC_RUNNING w' = GC_RUNNING w \<or>
      in_cycle (at_pc w' t) \<and> \<not> GC_RUNNING w \<and> GC_RUNNING w' \<or> \<not> in_cycle (at_pc w' t) \<and> in_cycle (at_pc w t) \<and> \<not> GC_RUNNING w'"
    and t: "world_thread w' t"
  shows "world_inv w'"
proof -
  have "world_thread w' u" for u
  proof (cases "u = t")
    case False
    have "SAFEPOINT_LOCK w' = Some u \<longleftrightarrow> SAFEPOINT_LOCK w = Some u" "THREADS_LOCK w' = Some u \<longleftrightarrow> THREADS_LOCK w = Some u"
      using locks False by auto
    moreover have "world_thread w u" using inv by (simp add: world_inv_def)
    ultimately show ?thesis using False others page(1) by (simp add: world_thread_def)
  qed (simp add: t)
  moreover have cyc: "cycle_threads w' = (if in_cycle (at_pc w' t) then insert t (cycle_threads w) else cycle_threads w - {t})"
    using others by (auto simp: cycle_threads_def split: if_splits)
  moreover have run: "GC_RUNNING w \<longleftrightarrow> cycle_threads w \<noteq> {}" "\<forall>t \<in> cycle_threads w. \<forall>u \<in> cycle_threads w. t = u"
    "t \<in> cycle_threads w \<longleftrightarrow> in_cycle (at_pc w t)" using inv by (simp_all add: world_inv_def cycle_threads_def)
  have "(GC_RUNNING w' \<longleftrightarrow> cycle_threads w' \<noteq> {}) \<and> (\<forall>t \<in> cycle_threads w'. \<forall>u \<in> cycle_threads w'. t = u)"
    using cycle
  proof (elim disjE)
    assume c: "in_cycle (at_pc w' t) = in_cycle (at_pc w t) \<and> GC_RUNNING w' = GC_RUNNING w"
    then have "cycle_threads w' = cycle_threads w" using cyc run(3) by auto
    then show ?thesis using c run(1,2) by simp
  next
    assume c: "in_cycle (at_pc w' t) \<and> \<not> GC_RUNNING w \<and> GC_RUNNING w'"
    then have "cycle_threads w' = {t}" using cyc run(1) by simp
    then show ?thesis using c by simp
  next
    assume c: "\<not> in_cycle (at_pc w' t) \<and> in_cycle (at_pc w t) \<and> \<not> GC_RUNNING w'"
    then have "cycle_threads w' = {}" using cyc run(2,3) by auto
    then show ?thesis using c by simp
  qed
  ultimately show ?thesis using inv page by (simp add: world_inv_def)
qed

lemmas world_defs = goto_def put_tls_def TLSState_yieldpoint_def gc_state_set_def gc_state_save_and_set_def immix_unsafe_enter_def
  immix_unsafe_leave_def immix_safe_enter_def immix_safe_leave_def begin_collect_def start_gc_exchange_def start_gc_enable_def
  enable_safepoint_def disable_safepoint_def inspect_thread_def inspect_again_def safepoint_end_gc_def immix_register_thread_def
  immix_unregister_thread_def immix_prepare_thread_def yieldpoint_store_def segv_handler_def addr_in_safepoint_def
  set_gc_and_wait_def end_collect_def immix_mutator_yieldpoint_def Let_def

lemma world_inv_step:
  assumes "world_step t w w'" "world_inv w"
  shows "world_inv w'"
proof -
  have t: "world_thread w t" and page: "PROT_WRITE \<in> page_prot w" "SAFEPOINT_PAGE w \<noteq> 0" using assms(2) by (simp_all add: world_inv_def)
  from assms(1) show ?thesis using t page
    by cases (rule world_inv_move [OF assms(2), of t]; auto simp: world_defs world_thread_def split: list.split)+
qed

interpretation cycles: exclusion_protocol world_steps world_start world_inv cycle_threads
proof
  show "world_inv w" if "world_start w" for w
    using that by (auto simp: world_start_def world_inv_def world_thread_def cycle_threads_def safepoint_init_def TLS_initial_def
        split: if_splits)
  show "world_inv w'" if "world_steps w w'" "world_inv w" for w w'
    using that world_inv_step by (auto simp: world_steps_def)
qed (simp add: world_inv_def)

text \<open>What a step leaves alone.\<close>

lemma world_step_others: "world_step t w w' \<Longrightarrow> u \<noteq> t \<Longrightarrow> at_pc w' u = at_pc w u \<and> tls_of w' u = tls_of w u"
  by (cases rule: world_step.cases) (auto simp: world_defs split: list.split)

lemma world_step_locked: "world_step t w w' \<Longrightarrow> THREADS_LOCK w \<noteq> None \<Longrightarrow> THREADS w' = THREADS w"
  by (cases rule: world_step.cases) (auto simp: world_defs split: list.split)

lemma world_inv_locked: "world_inv w \<Longrightarrow> holds_threads (at_pc w t) \<Longrightarrow> THREADS_LOCK w = Some t"
  by (simp add: world_inv_def world_thread_def)

section \<open>Waiting for the world\<close>

text \<open>A step in which the thread does not leave a safe or waiting state.\<close>

definition calm_step :: "world \<Rightarrow> world \<Rightarrow> bool" where
  "calm_step w w' \<longleftrightarrow> (\<exists>t. world_step t w w' \<and> (gc_state_of w t \<noteq> 0 \<longrightarrow> gc_state_of w' t \<noteq> 0))"

text \<open>The registered threads that the collector \<open>c\<close> still has to look at.\<close>

fun uninspected :: "safepoint_pc \<Rightarrow> thread_id set" where
  "uninspected (Inspect _ ths) = set ths" | "uninspected (InspectAgain _ ths) = set ths"
| "uninspected (Collecting _) = {}" | "uninspected (Ending _) = {}" | "uninspected (EndLocked _) = {}"
| "uninspected _ = UNIV"

definition inspected_safe :: "thread_id \<Rightarrow> world \<Rightarrow> bool" where
  "inspected_safe c w \<longleftrightarrow> (\<forall>u \<in> set (THREADS w). u = c \<or> u \<in> uninspected (at_pc w c) \<or> gc_state_of w u \<noteq> 0)"

lemma inspected_own_step:
  assumes "world_step c w w'" "inspected_safe c w"
  shows "inspected_safe c w'"
  using assms(1)
proof cases
  case (inspect_again old ths)
  then have "u \<in> set (THREADS w) \<Longrightarrow> u = c \<or> u \<in> set ths \<or> gc_state_of w u \<noteq> 0" for u
    using assms(2) by (auto simp: inspected_safe_def)
  then show ?thesis using inspect_again by (cases ths) (auto simp: inspected_safe_def world_defs)
qed (use assms(2) in \<open>auto simp: inspected_safe_def world_defs split: list.split if_splits\<close>)

lemma inspected_step:
  assumes "calm_step w w'" "world_inv w" "inspected_safe c w"
  shows "inspected_safe c w'"
proof -
  obtain t where t: "world_step t w w'" "gc_state_of w t \<noteq> 0 \<longrightarrow> gc_state_of w' t \<noteq> 0" using assms(1) by (auto simp: calm_step_def)
  show ?thesis
  proof (cases "t = c")
    case True
    then show ?thesis using inspected_own_step t(1) assms(3) by simp
  next
    case False
    note same = world_step_others [OF t(1)]
    have at: "at_pc w' c = at_pc w c" using same [of c] False by simp
    show ?thesis
    proof (cases "holds_threads (at_pc w c)")
      case True
      then have "THREADS w' = THREADS w" using world_step_locked [OF t(1)] world_inv_locked [OF assms(2)] by simp
      moreover have "gc_state_of w u \<noteq> 0 \<longrightarrow> gc_state_of w' u \<noteq> 0" for u using same [of u] t(2) by (cases "u = t") simp_all
      ultimately show ?thesis using assms(3) unfolding inspected_safe_def at by auto
    next
      case False
      then have "uninspected (at_pc w c) = UNIV" by (cases "at_pc w c") simp_all
      then show ?thesis by (simp add: inspected_safe_def at)
    qed
  qed
qed

lemma calm_run:
  assumes "calm_step\<^sup>*\<^sup>* w w'" "world_inv w" "inspected_safe c w"
  shows "world_inv w' \<and> inspected_safe c w'"
  using assms
proof (induction rule: rtranclp_induct)
  case (step w1 w2)
  then show ?case using inspected_step [of w1 w2 c] world_inv_step by (auto simp: calm_step_def)
qed simp

section \<open>A deadlock\<close>

definition unregister_stuck :: "thread_id \<Rightarrow> thread_id \<Rightarrow> world \<Rightarrow> bool" where
  "unregister_stuck c u w \<longleftrightarrow> u \<noteq> c \<and> (\<exists>old us. at_pc w c = Inspect old (u # us)) \<and> at_pc w u = Unregistering \<and> gc_state_of w u = 0"

lemma unregister_stuck_step:
  assumes "world_step t w w'" "world_inv w" "unregister_stuck c u w"
  shows "unregister_stuck c u w'"
proof -
  have lock: "THREADS_LOCK w = Some c"
    using world_inv_locked [OF assms(2), of c] assms(3) by (auto simp: unregister_stuck_def)
  consider "t = c" | "t = u" | "t \<noteq> c" "t \<noteq> u" by blast
  then show ?thesis
  proof cases
    case 1
    from assms(1) have "w' = w" unfolding 1 using assms(3) by cases (auto simp: unregister_stuck_def inspect_thread_def)
    then show ?thesis using assms(3) by simp
  next
    case 2
    from assms(1) show ?thesis unfolding 2 using assms(3) lock by cases (auto simp: unregister_stuck_def)
  next
    case 3
    then show ?thesis using world_step_others [OF assms(1), of c] world_step_others [OF assms(1), of u] assms(3)
      by (simp add: unregister_stuck_def)
  qed
qed

lemma unregister_stuck_run:
  assumes "world_steps\<^sup>*\<^sup>* w w'" "world_inv w" "unregister_stuck c u w"
  shows "unregister_stuck c u w'"
proof -
  have "world_inv w' \<and> unregister_stuck c u w'"
    using assms
  proof (induction rule: rtranclp_induct)
    case (step w1 w2)
    then show ?case using unregister_stuck_step world_inv_step by (auto simp: world_steps_def)
  qed simp
  then show ?thesis by simp
qed

section \<open>Sample runs\<close>

text \<open>The world of the witnesses: threads 1 and 2, each with its position, whether it has been prepared, and its \<open>gc_state\<close>.\<close>

definition sample_tls :: "bool \<Rightarrow> int \<Rightarrow> TLSState" where
  "sample_tls prepared state = TLS_initial\<lparr>safepoint := if prepared then 4096 else 0, gc_state := state\<rparr>"

definition sample_world ::
    "bool \<Rightarrow> thread_id option \<Rightarrow> thread_id option \<Rightarrow> thread_id list \<Rightarrow> safepoint_pc \<times> bool \<times> int \<Rightarrow> safepoint_pc \<times> bool \<times> int \<Rightarrow> world" where
  "sample_world running sl thl ths = (\<lambda>(p, b, x) (q, c, y).
     \<lparr>SAFEPOINT_PAGE = 4096, page_prot = {PROT_READ, PROT_WRITE}, GC_RUNNING = running, SAFEPOINT_LOCK = sl, THREADS_LOCK = thl,
      THREADS = ths, tls_of = (\<lambda>_. TLS_initial)(1 := sample_tls b x, 2 := sample_tls c y), at_pc = (\<lambda>_. Running)(1 := p, 2 := q)\<rparr>)"

abbreviation sample_start :: world where
  "sample_start \<equiv> sample_world False None None [] (Running, False, 0) (Running, False, 0)"

lemma sample_start_ok: "world_start sample_start"
proof -
  have "safepoint_init (Some 4096) sample_start = Some sample_start" by (simp add: safepoint_init_def sample_world_def)
  moreover have "tls_of sample_start t = TLS_initial" for t by (simp add: sample_world_def sample_tls_def TLS_initial_def)
  ultimately show ?thesis unfolding world_start_def by (auto simp: sample_world_def)
qed

lemma world_run: "world_steps\<^sup>*\<^sup>* w0 w \<Longrightarrow> world_step t w w' \<Longrightarrow> world_steps\<^sup>*\<^sup>* w0 w'"
  by (rule rtranclp.rtrancl_into_rtrancl) (auto simp: world_steps_def)

lemmas sample_defs = sample_world_def sample_tls_def world_defs fun_upd_twist TLS_initial_def vec_push_def

lemma sample_registered:
  "world_steps\<^sup>*\<^sup>* sample_start (sample_world False None None [1, 2] (Running, True, 0) (Running, True, 0))"
proof -
  let ?R = "world_steps\<^sup>*\<^sup>* sample_start"
  have "?R (sample_world False None None [] (Registering 0, False, 0) (Running, False, 0))"
    by (rule world_run [of _ sample_start 1]) (use world_step.register_call [of sample_start 1 0] in \<open>simp_all add: sample_defs\<close>)
  then have "?R (sample_world False None None [1] (Running, True, 0) (Running, False, 0))"
    by (rule world_run [of _ _ 1])
      (use world_step.register [of "sample_world False None None [] (Registering 0, False, 0) (Running, False, 0)" 1 0] in \<open>simp add: sample_defs\<close>)
  then have "?R (sample_world False None None [1] (Running, True, 0) (Registering 0, False, 0))"
    by (rule world_run [of _ _ 2])
      (use world_step.register_call [of "sample_world False None None [1] (Running, True, 0) (Running, False, 0)" 2 0] in \<open>simp add: sample_defs\<close>)
  then show ?thesis
    by (rule world_run [of _ _ 2])
      (use world_step.register [of "sample_world False None None [1] (Running, True, 0) (Registering 0, False, 0)" 2 0] in \<open>simp add: sample_defs\<close>)
qed

lemma sample_collect:
  assumes "world_steps\<^sup>*\<^sup>* sample_start (sample_world False None None [1, 2] (Running, True, 0) q)"
  shows "world_steps\<^sup>*\<^sup>* sample_start (sample_world True None None [1, 2] (WaitWorld 0, True, 1) q)"
proof -
  let ?R = "world_steps\<^sup>*\<^sup>* sample_start"
  obtain p2 b2 g2 where q: "q = (p2, b2, g2)" by (cases q)
  have "?R (sample_world False None None [1, 2] (StartGc 0, True, 1) q)" using assms
    by (rule world_run [of _ _ 1])
      (use world_step.collect [of "sample_world False None None [1, 2] (Running, True, 0) q" 1 0] in \<open>simp add: q sample_defs GC_STATE_WAITING_def\<close>)
  then have "?R (sample_world False (Some 1) None [1, 2] (StartLocked 0, True, 1) q)"
    by (rule world_run [of _ _ 1])
      (use world_step.start_lock [of "sample_world False None None [1, 2] (StartGc 0, True, 1) q" 1 0] in \<open>simp add: q sample_defs\<close>)
  then have "?R (sample_world True (Some 1) None [1, 2] (Enabling 0, True, 1) q)"
    by (rule world_run [of _ _ 1])
      (use world_step.start_exchange [of "sample_world False (Some 1) None [1, 2] (StartLocked 0, True, 1) q" 1 0 True] in \<open>simp add: q sample_defs\<close>)
  then show ?thesis
    by (rule world_run [of _ _ 1])
      (use world_step.start_enable [of "sample_world True (Some 1) None [1, 2] (Enabling 0, True, 1) q" 1 0] in \<open>simp add: q sample_defs\<close>)
qed

lemma sample_inspect:
  assumes "world_steps\<^sup>*\<^sup>* sample_start (sample_world True None None [1, 2] (WaitWorld 0, True, 1) q)"
  shows "world_steps\<^sup>*\<^sup>* sample_start (sample_world True None (Some 1) [1, 2] (Inspect 0 [2], True, 1) q)"
proof -
  let ?R = "world_steps\<^sup>*\<^sup>* sample_start"
  obtain p2 b2 g2 where q: "q = (p2, b2, g2)" by (cases q)
  have "?R (sample_world True None (Some 1) [1, 2] (Inspect 0 [1, 2], True, 1) q)" using assms
    by (rule world_run [of _ _ 1])
      (use world_step.wait_lock [of "sample_world True None None [1, 2] (WaitWorld 0, True, 1) q" 1 0] in \<open>simp add: q sample_defs\<close>)
  then show ?thesis
    by (rule world_run [of _ _ 1])
      (use world_step.inspect [of "sample_world True None (Some 1) [1, 2] (Inspect 0 [1, 2], True, 1) q" 1 0 "[1, 2]"] in \<open>simp add: q sample_defs\<close>)
qed

lemma sample_safe:
  "world_steps\<^sup>*\<^sup>* sample_start (sample_world True None None [1, 2] (WaitWorld 0, True, 1) (Running, True, 2))"
proof (rule sample_collect)
  show "world_steps\<^sup>*\<^sup>* sample_start (sample_world False None None [1, 2] (Running, True, 0) (Running, True, 2))"
    using sample_registered by (rule world_run [of _ _ 2])
      (use world_step.safe_enter [of "sample_world False None None [1, 2] (Running, True, 0) (Running, True, 0)" 2 0] in
        \<open>simp add: sample_defs GC_STATE_SAFE_def\<close>)
qed

lemma sample_calm:
  "calm_step\<^sup>*\<^sup>* (sample_world True None None [1, 2] (WaitWorld 0, True, 1) (Running, True, 2))
     (sample_world True None (Some 1) [1, 2] (Collecting 0, True, 1) (Running, True, 2))"
proof -
  let ?w = "\<lambda>l p. sample_world True None l [1, 2] (p, True, 1) (Running, True, 2)"
  have calm: "calm_step (?w l p) (?w l' p')" if "world_step 1 (?w l p) (?w l' p')" for l p l' p'
    using that by (auto simp: calm_step_def sample_world_def sample_tls_def intro!: exI [of _ 1])
  have "calm_step (?w None (WaitWorld 0)) (?w (Some 1) (Inspect 0 [1, 2]))"
    by (rule calm) (use world_step.wait_lock [of "?w None (WaitWorld 0)" 1 0] in \<open>simp add: sample_defs\<close>)
  moreover have "calm_step (?w (Some 1) (Inspect 0 [1, 2])) (?w (Some 1) (Inspect 0 [2]))"
    by (rule calm) (use world_step.inspect [of "?w (Some 1) (Inspect 0 [1, 2])" 1 0 "[1, 2]"] in \<open>simp add: sample_defs\<close>)
  moreover have "calm_step (?w (Some 1) (Inspect 0 [2])) (?w (Some 1) (InspectAgain 0 [2]))"
    by (rule calm) (use world_step.inspect [of "?w (Some 1) (Inspect 0 [2])" 1 0 "[2]"] in \<open>simp add: sample_defs\<close>)
  moreover have "calm_step (?w (Some 1) (InspectAgain 0 [2])) (?w (Some 1) (Inspect 0 []))"
    by (rule calm) (use world_step.inspect_again [of "?w (Some 1) (InspectAgain 0 [2])" 1 0 "[2]"] in \<open>simp add: sample_defs\<close>)
  moreover have "calm_step (?w (Some 1) (Inspect 0 [])) (?w (Some 1) (Collecting 0))"
    by (rule calm) (use world_step.inspect [of "?w (Some 1) (Inspect 0 [])" 1 0 "[]"] in \<open>simp add: sample_defs\<close>)
  ultimately show ?thesis by (meson converse_rtranclp_into_rtranclp rtranclp.rtrancl_refl)
qed

lemma calm_steps_world: "calm_step\<^sup>*\<^sup>* w w' \<Longrightarrow> world_steps\<^sup>*\<^sup>* w w'"
  by (rule mono_rtranclp [rule_format, of calm_step]) (auto simp: calm_step_def world_steps_def)

text \<open>In a build with \<open>willdebug\<close> a yieldpoint does stop the thread while a cycle runs, and does not otherwise.\<close>

lemma slow_yieldpoint_stops:
  "GC_RUNNING w \<Longrightarrow> at_pc (slow_yieldpoint sp t w) t = Trapped (gc_state_of w t) \<and> gc_state_of (slow_yieldpoint sp t w) t = GC_STATE_WAITING"
  "\<not> GC_RUNNING w \<Longrightarrow> at_pc (slow_yieldpoint sp t w) = at_pc w \<and> gc_state_of (slow_yieldpoint sp t w) t = gc_state_of w t"
  by (simp_all add: slow_yieldpoint_def set_gc_and_wait_def goto_def put_tls_def Let_def)

section \<open>Properties\<close>



text \<open>C23: The safepoint page is never protected, neither by \<open>enable_safepoint\<close> nor otherwise, so a yieldpoint never stops a thread: the store of a
  prepared thread goes through at once, even while a collection runs, and no thread ever waits in the signal handler. Leaving
  an unsafe region does not even reach a yieldpoint.\<close>

theorem yieldpoint_never_stops:
  assumes "world_start w0" "world_steps\<^sup>*\<^sup>* w0 w"
  shows "PROT_WRITE \<in> page_prot w \<and> \<not> stopped_by_trap (at_pc w t) \<and>
    (at_pc w t = Yielding \<and> safepoint (tls_of w t) \<noteq> 0 \<longrightarrow> yieldpoint_store t w = goto t Running w) \<and>
    at_pc (snd (immix_unsafe_leave sp state t w)) t = Running"
proof -
  have "world_inv w" using cycles.inv_reachable [OF assms] .
  then have "PROT_WRITE \<in> page_prot w" "world_thread w t" by (simp_all add: world_inv_def)
  then show ?thesis
    by (auto simp: world_thread_def yieldpoint_store_def Let_def immix_unsafe_leave_def gc_state_set_def goto_def put_tls_def)
qed

theorem yieldpoint_never_stops_witness:
  "let w = sample_world True None None [1, 2] (WaitWorld 0, True, 1) (Running, True, 2) in
     GC_RUNNING w \<and> PROT_WRITE \<in> page_prot w \<and> \<not> stopped_by_trap (at_pc w 2)"
  using yieldpoint_never_stops [OF sample_start_ok sample_safe, of 2 0 0] by (simp add: sample_world_def)

text \<open>C24: So the world is not stopped during a collection: in a run of two threads, thread 1 collects while the registered
  thread 2, which left a safe region meanwhile, runs managed code.\<close>

theorem world_not_stopped:
  "\<exists>w0 w. world_start w0 \<and> world_steps\<^sup>*\<^sup>* w0 w \<and> at_pc w 1 = Collecting 0 \<and> 2 \<in> set (THREADS w) \<and>
     at_pc w 2 = Running \<and> gc_state_of w 2 = 0"
proof -
  let ?w = "\<lambda>q. sample_world True None (Some 1) [1, 2] (Collecting 0, True, 1) q"
  have "world_steps\<^sup>*\<^sup>* sample_start (?w (Running, True, 2))" using sample_safe calm_steps_world [OF sample_calm] by simp
  then have "world_steps\<^sup>*\<^sup>* sample_start (?w (Yielding, True, 0))"
    by (rule world_run [of _ _ 2]) (use world_step.safe_leave [of "?w (Running, True, 2)" 2 0 0] in
        \<open>simp add: sample_defs GC_STATE_SAFE_def\<close>)
  then have "world_steps\<^sup>*\<^sup>* sample_start (?w (Running, True, 0))"
    by (rule world_run [of _ _ 2]) (use world_step.store [of "?w (Yielding, True, 0)" 2] in \<open>simp add: sample_defs\<close>)
  moreover have "at_pc (?w (Running, True, 0)) 1 = Collecting 0" "2 \<in> set (THREADS (?w (Running, True, 0)))"
    "at_pc (?w (Running, True, 0)) 2 = Running" "gc_state_of (?w (Running, True, 0)) 2 = 0"
    by (simp_all add: sample_world_def sample_tls_def TLS_initial_def)
  ultimately show ?thesis using sample_start_ok by blast
qed

text \<open>C11: What the wait for the world does ensure: if from the start of the wait no thread leaves a safe or waiting state, then when the
  collector is past it, every other registered thread is in such a state.\<close>

theorem calm_world_is_stopped:
  assumes "world_start w0" "world_steps\<^sup>*\<^sup>* w0 w1" "at_pc w1 c = WaitWorld old" "calm_step\<^sup>*\<^sup>* w1 w2" "at_pc w2 c = Collecting old'"
  shows "\<forall>u \<in> set (THREADS w2). u \<noteq> c \<longrightarrow> gc_state_of w2 u \<noteq> 0"
proof -
  have "world_inv w1" using cycles.inv_reachable [OF assms(1,2)] .
  moreover have "inspected_safe c w1" using assms(3) by (simp add: inspected_safe_def)
  ultimately have "inspected_safe c w2" using calm_run [OF assms(4)] by blast
  then show ?thesis using assms(5) by (auto simp: inspected_safe_def)
qed

theorem calm_world_is_stopped_witness:
  "gc_state_of (sample_world True None (Some 1) [1, 2] (Collecting 0, True, 1) (Running, True, 2)) 2 \<noteq> 0"
proof -
  have "at_pc (sample_world True None None [1, 2] (WaitWorld 0, True, 1) (Running, True, 2)) 1 = WaitWorld 0"
    "at_pc (sample_world True None (Some 1) [1, 2] (Collecting 0, True, 1) (Running, True, 2)) 1 = Collecting 0"
    "2 \<in> set (THREADS (sample_world True None (Some 1) [1, 2] (Collecting 0, True, 1) (Running, True, 2)))"
    by (simp_all add: sample_world_def)
  then show ?thesis using calm_world_is_stopped [OF sample_start_ok sample_safe _ sample_calm] by fastforce
qed

text \<open>C25: A thread that unregisters in managed state while a collector waits for it deadlocks with the collector: the collector
  holds the list of threads that the thread needs, and no step of any thread changes either of them again.\<close>

theorem unregister_deadlock:
  assumes "world_start w0" "world_steps\<^sup>*\<^sup>* w0 w" "at_pc w c = Inspect old (u # us)" "u \<noteq> c"
    and "at_pc w u = Unregistering" "gc_state_of w u = 0" and "world_steps\<^sup>*\<^sup>* w w'"
  shows "(\<exists>old us. at_pc w' c = Inspect old (u # us)) \<and> at_pc w' u = Unregistering"
  using unregister_stuck_run [OF assms(7) cycles.inv_reachable [OF assms(1,2)], of c u] assms(3-6)
  by (auto simp: unregister_stuck_def)

theorem unregister_deadlock_witness:
  "\<exists>w. world_steps\<^sup>*\<^sup>* sample_start w \<and> \<not> (\<exists>w'. world_steps\<^sup>*\<^sup>* w w' \<and> at_pc w' 2 \<noteq> Unregistering)"
proof -
  let ?w = "sample_world True None (Some 1) [1, 2] (Inspect 0 [2], True, 1) (Unregistering, True, 0)"
  have "world_steps\<^sup>*\<^sup>* sample_start (sample_world False None None [1, 2] (Running, True, 0) (Unregistering, True, 0))"
    using sample_registered by (rule world_run [of _ _ 2])
      (use world_step.unregister_call [of "sample_world False None None [1, 2] (Running, True, 0) (Running, True, 0)" 2] in
        \<open>simp add: sample_defs\<close>)
  then have run: "world_steps\<^sup>*\<^sup>* sample_start ?w" by (intro sample_inspect sample_collect)
  have "at_pc ?w 1 = Inspect 0 [2]" "at_pc ?w 2 = Unregistering" "gc_state_of ?w 2 = 0" "(2::thread_id) \<noteq> 1"
    by (simp_all add: sample_world_def sample_tls_def)
  then show ?thesis using unregister_deadlock [OF sample_start_ok run] run by blast
qed

text \<open>A thread that registers, unregisters and registers again is not in the list of threads: its stack is not scanned and no
  collector waits for it.\<close>

lemma second_registration_is_lost:
  assumes "SAFEPOINT_PAGE w \<noteq> 0"
  shows "t \<notin> set (THREADS (immix_register_thread b t (immix_unregister_thread t (immix_register_thread a t w))))"
  using assms by (simp add: immix_register_thread_def immix_unregister_thread_def immix_prepare_thread_def put_tls_def)

end
