(* ===== verification/Safepoint_Progress.thy ===== *)
theory Safepoint_Progress
  imports Safepoint
begin

text \<open>
  What every interleaving of the safepoint protocol keeps of the types of its data: the values of \<open>gc_state\<close> and the states that a thread saves,
  and the list of registered threads. And that a cycle ends: the collector that waits for the world comes back in a bounded number of
  its own steps when the other threads are in a safe or waiting state.
\<close>

section \<open>States and registered threads\<close>

text \<open>The state that a thread at this position will restore.\<close>

fun saved_state :: "safepoint_pc \<Rightarrow> int set" where
  "saved_state (Trapped n) = {n}" | "saved_state (TrapResume n) = {n}" | "saved_state (StartGc n) = {n}" | "saved_state (StartLocked n) = {n}"
| "saved_state (Enabling n) = {n}" | "saved_state (GiveUp n) = {n}" | "saved_state (WaitWorld n) = {n}" | "saved_state (Inspect n _) = {n}"
| "saved_state (InspectAgain n _) = {n}" | "saved_state (Collecting n) = {n}" | "saved_state (Ending n) = {n}" | "saved_state (EndLocked n) = {n}"
| "saved_state (DropThreads n) = {n}" | "saved_state (Restore n) = {n}" | "saved_state _ = {}"

definition typed_thread :: "world \<Rightarrow> thread_id \<Rightarrow> bool" where
  "typed_thread w t \<longleftrightarrow> saved_state (at_pc w t) \<subseteq> {0, GC_STATE_SAFE} \<and>
     (if says_waiting (at_pc w t) \<or> stopped_by_trap (at_pc w t) then gc_state_of w t = GC_STATE_WAITING
      else gc_state_of w t \<in> {0, GC_STATE_SAFE}) \<and>
     (t \<in> set (THREADS w) \<longrightarrow> safepoint (tls_of w t) = SAFEPOINT_PAGE w)"

definition world_typed :: "world \<Rightarrow> bool" where
  "world_typed w \<longleftrightarrow> SAFEPOINT_PAGE w \<noteq> 0 \<and> (\<forall>t. typed_thread w t) \<and> distinct (THREADS w)"

lemma world_step_threads:
  "world_step t w w' \<Longrightarrow> SAFEPOINT_PAGE w' = SAFEPOINT_PAGE w \<and> (\<forall>u. u \<noteq> t \<longrightarrow> (u \<in> set (THREADS w') \<longleftrightarrow> u \<in> set (THREADS w)))"
  by (cases rule: world_step.cases) (auto simp: world_defs vec_push_def split: list.splits if_splits)

lemma typed_step_thread:
  assumes "world_step t w w'" "typed_thread w t" "SAFEPOINT_PAGE w \<noteq> 0"
  shows "typed_thread w' t"
  using assms(1)
  by cases (use assms(2,3) in \<open>auto simp: world_defs typed_thread_def GC_STATE_WAITING_def GC_STATE_SAFE_def vec_push_def
      split: list.splits if_splits\<close>)

lemma typed_step_distinct:
  assumes "world_step t w w'" "typed_thread w t" "SAFEPOINT_PAGE w \<noteq> 0" "distinct (THREADS w)"
  shows "distinct (THREADS w')"
  using assms(1)
  by cases (use assms(2-4) in \<open>auto simp: world_defs typed_thread_def vec_push_def split: list.splits if_splits\<close>)

lemma typed_step:
  assumes "world_step t w w'" "world_typed w"
  shows "world_typed w'"
proof -
  have w: "SAFEPOINT_PAGE w \<noteq> 0" "\<And>u. typed_thread w u" "distinct (THREADS w)" using assms(2) by (simp_all add: world_typed_def)
  note same = world_step_threads [OF assms(1)]
  have "typed_thread w' u" for u
  proof (cases "u = t")
    case False
    then show ?thesis using world_step_others [OF assms(1) False] same w(2) [of u] by (auto simp: typed_thread_def)
  qed (simp add: typed_step_thread [OF assms(1) w(2,1)])
  then show ?thesis using same w(1) typed_step_distinct [OF assms(1) w(2,1,3)] by (simp add: world_typed_def)
qed

interpretation typed: step_protocol world_steps world_start world_typed
proof
  show "world_typed w" if "world_start w" for w
    using that by (auto simp: world_start_def world_typed_def typed_thread_def safepoint_init_def TLS_initial_def split: if_splits)
  show "world_typed w'" if "world_steps w w'" "world_typed w" for w w'
    using that typed_step by (auto simp: world_steps_def)
qed

section \<open>A cycle ends\<close>

lemma goto_goto [simp]: "goto t p (goto t q w) = goto t p w"
  by (simp add: goto_def)

lemma at_goto [simp]: "at_pc (goto t p w) t = p"
  by (simp add: goto_def)

lemma goto_same [simp]:
  "THREADS (goto t p w) = THREADS w" "THREADS_LOCK (goto t p w) = THREADS_LOCK w" "SAFEPOINT_LOCK (goto t p w) = SAFEPOINT_LOCK w"
  "GC_RUNNING (goto t p w) = GC_RUNNING w" "tls_of (goto t p w) = tls_of w" "page_prot (goto t p w) = page_prot w"
  "SAFEPOINT_PAGE (goto t p w) = SAFEPOINT_PAGE w"
  by (simp_all add: goto_def)

text \<open>The inspection of the threads takes at most two steps for each of them.\<close>

lemma inspect_ends:
  assumes "\<forall>u \<in> set ths. u \<noteq> c \<longrightarrow> gc_state_of w u \<noteq> 0"
  shows "\<exists>n \<le> 2 * length ths + 1. (world_step c ^^ n) (goto c (Inspect old ths) w) (goto c (Collecting old) w)"
  using assms
proof (induction ths)
  case Nil
  have "world_step c (goto c (Inspect old []) w) (goto c (Collecting old) w)"
    using world_step.inspect [of "goto c (Inspect old []) w" c old "[]"] by (simp add: inspect_thread_def)
  then show ?case by (intro exI [of _ 1]) auto
next
  case (Cons u us)
  then obtain n where n: "n \<le> 2 * length us + 1" "(world_step c ^^ n) (goto c (Inspect old us) w) (goto c (Collecting old) w)" by auto
  have "\<exists>k \<le> 2. (world_step c ^^ k) (goto c (Inspect old (u # us)) w) (goto c (Inspect old us) w)"
  proof (cases "u = c")
    case True
    then have "world_step c (goto c (Inspect old (u # us)) w) (goto c (Inspect old us) w)"
      using world_step.inspect [of "goto c (Inspect old (u # us)) w" c old "u # us"] by (simp add: inspect_thread_def)
    then show ?thesis by (intro exI [of _ 1]) auto
  next
    case False
    then have "world_step c (goto c (Inspect old (u # us)) w) (goto c (InspectAgain old (u # us)) w)"
      using world_step.inspect [of "goto c (Inspect old (u # us)) w" c old "u # us"] Cons.prems by (simp add: inspect_thread_def)
    moreover have "world_step c (goto c (InspectAgain old (u # us)) w) (goto c (Inspect old us) w)"
      using world_step.inspect_again [of "goto c (InspectAgain old (u # us)) w" c old "u # us"] Cons.prems False
      by (simp add: inspect_again_def)
    ultimately show ?thesis by (intro exI [of _ 2]) (auto simp: numeral_2_eq_2)
  qed
  then obtain k where "k \<le> 2" "(world_step c ^^ k) (goto c (Inspect old (u # us)) w) (goto c (Inspect old us) w)" by blast
  then show ?case using n relpowp_trans [of k "world_step c"] by (intro exI [of _ "k + n"]) auto
qed

lemma five_steps: "P a b \<Longrightarrow> P b c \<Longrightarrow> P c d \<Longrightarrow> P d e \<Longrightarrow> P e f \<Longrightarrow> (P ^^ 5) a f" for P :: "'s \<Rightarrow> 's \<Rightarrow> bool"
  by (simp add: numeral_eq_Suc) blast

text \<open>The end of a cycle, from the collection to the return of \<open>collect_internal\<close>.\<close>

lemma end_of_cycle:
  assumes at: "at_pc w c = Collecting old" and free: "SAFEPOINT_LOCK w = None"
    and page: "PROT_WRITE \<in> page_prot w" "safepoint (tls_of w c) = SAFEPOINT_PAGE w"
  shows "\<exists>n w'. n \<le> 6 \<and> (world_step c ^^ n) w w' \<and> at_pc w' c = Running \<and> \<not> GC_RUNNING w' \<and>
    SAFEPOINT_LOCK w' = None \<and> THREADS_LOCK w' = None \<and> THREADS w' = THREADS w \<and> gc_state_of w' c = old"
proof -
  define w1 where "w1 = goto c (DropThreads old) ((disable_safepoint (goto c (EndLocked old) (w\<lparr>SAFEPOINT_LOCK := Some c\<rparr>)))\<lparr>GC_RUNNING := False, SAFEPOINT_LOCK := None\<rparr>)"
  define w2 where "w2 = goto c (Restore old) (w1\<lparr>THREADS_LOCK := None\<rparr>)"
  have run: "(world_step c ^^ 5) w (end_collect 0 old c w2)"
  proof (rule five_steps)
    show "world_step c w (goto c (Ending old) w)" using world_step.collected [OF at] .
    show "world_step c (goto c (Ending old) w) (goto c (EndLocked old) (w\<lparr>SAFEPOINT_LOCK := Some c\<rparr>))"
      using world_step.end_lock [of "goto c (Ending old) w" c old] free by (simp add: goto_def)
    show "world_step c (goto c (EndLocked old) (w\<lparr>SAFEPOINT_LOCK := Some c\<rparr>)) w1"
      using world_step.end_gc [of "goto c (EndLocked old) (w\<lparr>SAFEPOINT_LOCK := Some c\<rparr>)" c old] by (simp add: w1_def safepoint_end_gc_def)
    show "world_step c w1 w2" using world_step.drop_threads [of w1 c old] by (simp add: w1_def w2_def)
    show "world_step c w2 (end_collect 0 old c w2)" using world_step.restore [of w2 c old 0] by (simp add: w2_def)
  qed
  have w2: "\<not> GC_RUNNING w2" "SAFEPOINT_LOCK w2 = None" "THREADS_LOCK w2 = None" "THREADS w2 = THREADS w"
    "PROT_WRITE \<in> page_prot w2" "safepoint (tls_of w2 c) = SAFEPOINT_PAGE w2"
    using page by (simp_all add: w2_def w1_def disable_safepoint_def goto_def)
  show ?thesis
  proof (cases "old = 0")
    case False
    then show ?thesis using run w2
      by (intro exI [of _ 5] exI [of _ "end_collect 0 old c w2"]) (simp add: end_collect_def gc_state_set_def put_tls_def goto_def)
  next
    case True
    let ?w = "end_collect 0 old c w2"
    have "world_step c ?w (yieldpoint_store c ?w)"
      using world_step.store [of ?w c] True by (simp add: end_collect_def gc_state_set_def TLSState_yieldpoint_def GC_STATE_WAITING_def)
    then have "(world_step c ^^ 6) w (yieldpoint_store c ?w)" using relpowp_Suc_I [OF run] by simp
    moreover have "yieldpoint_store c ?w = goto c Running ?w"
      using w2 True by (simp add: yieldpoint_store_def end_collect_def gc_state_set_def TLSState_yieldpoint_def GC_STATE_WAITING_def put_tls_def goto_def)
    ultimately show ?thesis using w2 True
      by (intro exI [of _ 6] exI [of _ "goto c Running ?w"])
        (simp add: end_collect_def gc_state_set_def TLSState_yieldpoint_def GC_STATE_WAITING_def put_tls_def goto_def)
  qed
qed

section \<open>Properties\<close>

text \<open>C13: The data of the protocol keep their types under every interleaving. A thread that waits for a cycle or runs one has the state
  \<open>GC_STATE_WAITING\<close>, any other thread is in managed or safe state, and the state that a thread will restore is one of these two. The list of threads
  has no duplicates, and every registered thread has the safepoint page.\<close>

theorem states_typed:
  assumes "world_start w0" "world_steps\<^sup>*\<^sup>* w0 w"
  shows "saved_state (at_pc w t) \<subseteq> {0, GC_STATE_SAFE} \<and>
    gc_state_of w t \<in> (if says_waiting (at_pc w t) then {GC_STATE_WAITING} else {0, GC_STATE_SAFE}) \<and>
    distinct (THREADS w) \<and> (t \<in> set (THREADS w) \<longrightarrow> safepoint (tls_of w t) = SAFEPOINT_PAGE w \<and> SAFEPOINT_PAGE w \<noteq> 0)"
proof -
  have "world_typed w" using typed.inv_reachable [OF assms] .
  moreover have "\<not> stopped_by_trap (at_pc w t)" using cycles.inv_reachable [OF assms] by (simp add: world_inv_def world_thread_def)
  ultimately show ?thesis by (auto simp: world_typed_def typed_thread_def split: if_splits)
qed

theorem states_typed_witness:
  "distinct (THREADS (sample_world True None None [1, 2] (WaitWorld 0, True, 1) (Running, True, 2))) \<and>
   saved_state (at_pc (sample_world True None None [1, 2] (WaitWorld 0, True, 1) (Running, True, 2)) 1) \<subseteq> {0, GC_STATE_SAFE}"
  using states_typed [OF sample_start_ok sample_safe, of 1] by blast

text \<open>C12: A cycle terminates: a registered collector that waits for the world, with the list of threads and the safepoint lock free and every other
  registered thread in a safe or waiting state, ends the cycle within \<open>2 n + 8\<close> of its own steps for \<open>n\<close> threads. It then runs again in the
  state it had before, the flag is cleared, both locks are free, and the list of threads is the same.\<close>

theorem cycle_terminates:
  assumes "world_start w0" "world_steps\<^sup>*\<^sup>* w0 w" "at_pc w c = WaitWorld old" "c \<in> set (THREADS w)"
    and "THREADS_LOCK w = None" "SAFEPOINT_LOCK w = None" "\<forall>u \<in> set (THREADS w). u \<noteq> c \<longrightarrow> gc_state_of w u \<noteq> 0"
  shows "\<exists>n w'. n \<le> 2 * length (THREADS w) + 8 \<and> (world_step c ^^ n) w w' \<and> at_pc w' c = Running \<and> gc_state_of w' c = old \<and>
    \<not> GC_RUNNING w' \<and> THREADS_LOCK w' = None \<and> SAFEPOINT_LOCK w' = None \<and> THREADS w' = THREADS w"
proof -
  let ?w = "w\<lparr>THREADS_LOCK := Some c\<rparr>"
  have page: "PROT_WRITE \<in> page_prot w" "safepoint (tls_of w c) = SAFEPOINT_PAGE w"
    using cycles.inv_reachable [OF assms(1,2)] typed.inv_reachable [OF assms(1,2)] assms(4)
    by (auto simp: world_inv_def world_typed_def typed_thread_def)
  obtain n where n: "n \<le> 2 * length (THREADS w) + 1" "(world_step c ^^ n) (goto c (Inspect old (THREADS w)) ?w) (goto c (Collecting old) ?w)"
    using inspect_ends [of "THREADS w" c ?w old] assms(7) by auto
  have "world_step c w (goto c (Inspect old (THREADS w)) ?w)" using world_step.wait_lock [OF assms(3,5)] .
  then have steps: "(world_step c ^^ Suc n) w (goto c (Collecting old) ?w)" using n(2) by (rule relpowp_Suc_I2)
  obtain k w' where k: "k \<le> 6" "(world_step c ^^ k) (goto c (Collecting old) ?w) w'" and w': "at_pc w' c = Running" "\<not> GC_RUNNING w'"
      "SAFEPOINT_LOCK w' = None" "THREADS_LOCK w' = None" "THREADS w' = THREADS w" "gc_state_of w' c = old"
    using end_of_cycle [of "goto c (Collecting old) ?w" c old] page assms(6) by auto
  have "(world_step c ^^ (Suc n + k)) w w'" using steps k(2) by (rule relpowp_trans)
  then show ?thesis using n(1) k(1) w' by (intro exI [of _ "Suc n + k"] exI [of _ w']) simp
qed

theorem cycle_terminates_witness:
  "\<exists>n w'. n \<le> 12 \<and> (world_step 1 ^^ n) (sample_world True None None [1, 2] (WaitWorld 0, True, 1) (Running, True, 2)) w' \<and>
     at_pc w' 1 = Running \<and> \<not> GC_RUNNING w'"
proof -
  let ?w = "sample_world True None None [1, 2] (WaitWorld 0, True, 1) (Running, True, 2)"
  have "at_pc ?w 1 = WaitWorld 0" "THREADS ?w = [1, 2]" "THREADS_LOCK ?w = None" "SAFEPOINT_LOCK ?w = None" "gc_state_of ?w 2 \<noteq> 0"
    by (simp_all add: sample_world_def sample_tls_def)
  then show ?thesis using cycle_terminates [OF sample_start_ok sample_safe, of 1 0] by auto
qed

end
