(* ===== verification/Bitmap_Race.thy ===== *)
theory Bitmap_Race
  imports Space_Bitmap Locks
begin

unbundle bit_operations_syntax

text \<open>
  The space bitmap under every interleaving of threads. \<open>modify\<close> of the threaded \<open>SpaceBitmap\<close> loads a word and stores it back, so two
  threads can lose an update; \<open>atomic_test_and_set\<close> exchanges the word in a loop. The bitmap behaves as an atomic set
  of cells when no thread uses \<open>modify\<close> in a block that another thread works in, which is how the allocators use it: the blocks
  of a thread are its own.
\<close>

section \<open>Loads and stores of a word\<close>

definition bitmap_load :: "usize \<Rightarrow> SpaceBitmap \<Rightarrow> usize \<Rightarrow> u64 option" where
  "bitmap_load al bm obj = do {
     offset \<leftarrow> usub obj (heap_begin bm);
     at_index (mem_map bm) (SpaceBitmap_offset_to_index al offset) }"

definition bitmap_store :: "usize \<Rightarrow> SpaceBitmap \<Rightarrow> usize \<Rightarrow> u64 \<Rightarrow> SpaceBitmap" where
  "bitmap_store al bm obj w =
     bm\<lparr>mem_map := (mem_map bm)[SpaceBitmap_offset_to_index al (obj - heap_begin bm) := w]\<rparr>"

abbreviation bitmap_mask :: "usize \<Rightarrow> SpaceBitmap \<Rightarrow> usize \<Rightarrow> u64" where
  "bitmap_mask al bm obj \<equiv> SpaceBitmap_offset_to_mask al (obj - heap_begin bm)"

text \<open>\<open>modify\<close> after its load.\<close>

definition modify_store :: "usize \<Rightarrow> bool \<Rightarrow> SpaceBitmap \<Rightarrow> usize \<Rightarrow> u64 \<Rightarrow> bool \<times> SpaceBitmap" where
  "modify_store al SET_BIT bm obj old_word =
     (let mask = bitmap_mask al bm obj
      in (old_word AND mask \<noteq> 0,
          if SET_BIT then if old_word AND mask = 0 then bitmap_store al bm obj (old_word OR mask) else bm
          else bitmap_store al bm obj (old_word AND NOT mask)))"

lemma modify_is_load_store:
  "SpaceBitmap_modify al x bm obj = do { old_word \<leftarrow> bitmap_load al bm obj; Some (modify_store al x bm obj old_word) }"
  unfolding SpaceBitmap_modify_def bitmap_load_def modify_store_def bitmap_store_def Let_def by (simp add: usub_def)

section \<open>Interleavings\<close>

text \<open>Where a thread is: outside of the bitmap, in \<open>modify\<close> after the load, or in \<open>atomic_test_and_set\<close> before and after the load.\<close>

datatype bitmap_pc = BIdle | ModifyLoaded bool usize u64 | TasEntered usize | TasLoaded usize u64

record bitmap_race =
  race_bitmap :: SpaceBitmap
  race_at :: "thread_id \<Rightarrow> bitmap_pc"

text \<open>The end of a call: \<open>Did x obj r\<close> has set (or cleared) the bit of \<open>obj\<close> and returns \<open>r\<close>.\<close>

datatype bitmap_event = Silent | Did bool usize bool

definition race_goto :: "thread_id \<Rightarrow> bitmap_pc \<Rightarrow> SpaceBitmap \<Rightarrow> bitmap_race \<Rightarrow> bitmap_race" where
  "race_goto t p bm s = s\<lparr>race_bitmap := bm, race_at := (race_at s)(t := p)\<rparr>"

text \<open>\<open>may k t obj\<close>: thread \<open>t\<close> may call \<open>modify\<close>, or \<open>atomic_test_and_set\<close> when \<open>k\<close> holds, on \<open>obj\<close>.\<close>

inductive bitmap_step ::
    "usize \<Rightarrow> (bool \<Rightarrow> thread_id \<Rightarrow> usize \<Rightarrow> bool) \<Rightarrow> thread_id \<Rightarrow> bitmap_race \<Rightarrow> bitmap_event \<Rightarrow> bitmap_race \<Rightarrow> bool"
  for al :: usize and may :: "bool \<Rightarrow> thread_id \<Rightarrow> usize \<Rightarrow> bool" and t :: thread_id and s :: bitmap_race where
  modify_load: "bitmap_step al may t s Silent (race_goto t (ModifyLoaded x obj old_word) (race_bitmap s) s)"
    if "race_at s t = BIdle" "may False t obj" "bitmap_load al (race_bitmap s) obj = Some old_word"
| modify_store: "bitmap_step al may t s (Did x obj r) (race_goto t BIdle bm s)"
    if "race_at s t = ModifyLoaded x obj old_word" "modify_store al x (race_bitmap s) obj old_word = (r, bm)"
| tas_enter: "bitmap_step al may t s Silent (race_goto t (TasEntered obj) (race_bitmap s) s)"
    if "race_at s t = BIdle" "may True t obj" "bitmap_load al (race_bitmap s) obj = Some w"
| tas_is_set: "bitmap_step al may t s (Did True obj True) (race_goto t BIdle (race_bitmap s) s)"
    if "race_at s t = TasEntered obj" "bitmap_load al (race_bitmap s) obj = Some old_word"
      "old_word AND bitmap_mask al (race_bitmap s) obj \<noteq> 0"
| tas_load: "bitmap_step al may t s Silent (race_goto t (TasLoaded obj old_word) (race_bitmap s) s)"
    if "race_at s t = TasEntered obj" "bitmap_load al (race_bitmap s) obj = Some old_word"
      "old_word AND bitmap_mask al (race_bitmap s) obj = 0"
| tas_exchange: "bitmap_step al may t s (Did True obj False)
      (race_goto t BIdle (bitmap_store al (race_bitmap s) obj (old_word OR bitmap_mask al (race_bitmap s) obj)) s)"
    if "race_at s t = TasLoaded obj old_word" "bitmap_load al (race_bitmap s) obj = Some old_word"
| tas_fails: "bitmap_step al may t s Silent (race_goto t (TasEntered obj) (race_bitmap s) s)" if "race_at s t = TasLoaded obj old_word"

definition bitmap_steps :: "usize \<Rightarrow> (bool \<Rightarrow> thread_id \<Rightarrow> usize \<Rightarrow> bool) \<Rightarrow> bitmap_race \<Rightarrow> bitmap_race \<Rightarrow> bool" where
  "bitmap_steps al may s s' \<longleftrightarrow> (\<exists>t e. bitmap_step al may t s e s')"

text \<open>The atomic set of cells that the bitmap should be.\<close>

definition race_cells :: "bitmap_race \<Rightarrow> nat set" where
  "race_cells s = {c. SpaceBitmap_marked (race_bitmap s) c}"

fun cells_spec :: "usize \<Rightarrow> usize \<Rightarrow> bitmap_event \<Rightarrow> nat set \<Rightarrow> nat set \<Rightarrow> bool" where
  "cells_spec al hb Silent C C' \<longleftrightarrow> C' = C"
| "cells_spec al hb (Did x obj r) C C' \<longleftrightarrow>
     (let c = (obj - hb) div al in (r \<longleftrightarrow> c \<in> C) \<and> C' = (if x then insert c C else C - {c}))"

section \<open>The invariant\<close>

text \<open>A thread in \<open>modify\<close> still sees the word that it loaded: nobody else writes it.\<close>

definition race_thread :: "usize \<Rightarrow> (bool \<Rightarrow> thread_id \<Rightarrow> usize \<Rightarrow> bool) \<Rightarrow> SpaceBitmap \<Rightarrow> thread_id \<Rightarrow> bitmap_pc \<Rightarrow> bool" where
  "race_thread al may bm t p \<longleftrightarrow>
     (case p of BIdle \<Rightarrow> True
      | ModifyLoaded x obj old_word \<Rightarrow> may False t obj \<and> bitmap_load al bm obj = Some old_word
      | TasEntered obj \<Rightarrow> may True t obj \<and> bitmap_load al bm obj \<noteq> None
      | TasLoaded obj old_word \<Rightarrow> may True t obj \<and> bitmap_load al bm obj \<noteq> None \<and> old_word AND bitmap_mask al bm obj = 0)"

definition race_inv :: "usize \<Rightarrow> (bool \<Rightarrow> thread_id \<Rightarrow> usize \<Rightarrow> bool) \<Rightarrow> usize \<Rightarrow> bitmap_race \<Rightarrow> bool" where
  "race_inv al may hb s \<longleftrightarrow> heap_begin (race_bitmap s) = hb \<and> (\<forall>t. race_thread al may (race_bitmap s) t (race_at s t))"

text \<open>Threads that use \<open>modify\<close> do not share words, as far as objects are above the start of the heap.\<close>

definition words_private :: "usize \<Rightarrow> (bool \<Rightarrow> thread_id \<Rightarrow> usize \<Rightarrow> bool) \<Rightarrow> usize \<Rightarrow> bool" where
  "words_private al may hb \<longleftrightarrow> (\<forall>t u k a b. t \<noteq> u \<and> may False t a \<and> may k u b \<and> hb \<le> a \<and> hb \<le> b \<longrightarrow>
     SpaceBitmap_offset_to_index al (a - hb) \<noteq> SpaceBitmap_offset_to_index al (b - hb))"

lemma bitmap_load_Some:
  "bitmap_load al bm obj = Some w \<longleftrightarrow> heap_begin bm \<le> obj \<and> SpaceBitmap_offset_to_index al (obj - heap_begin bm) < length (mem_map bm) \<and>
     w = mem_map bm ! SpaceBitmap_offset_to_index al (obj - heap_begin bm)"
  by (auto simp: bitmap_load_def usub_def at_index_def)

lemma bitmap_store_simps [simp]:
  "heap_begin (bitmap_store al bm obj w) = heap_begin bm" "length (mem_map (bitmap_store al bm obj w)) = length (mem_map bm)"
  by (simp_all add: bitmap_store_def)

lemma bitmap_load_store:
  assumes "SpaceBitmap_offset_to_index al (a - heap_begin bm) \<noteq> SpaceBitmap_offset_to_index al (b - heap_begin bm)"
  shows "bitmap_load al (bitmap_store al bm a w) b = bitmap_load al bm b"
  using assms by (simp add: bitmap_load_def bitmap_store_def usub_def at_index_def)

lemma bitmap_load_store_None: "bitmap_load al (bitmap_store al bm a w) b = None \<longleftrightarrow> bitmap_load al bm b = None"
  by (simp add: bitmap_load_def bitmap_store_def usub_def at_index_def)

lemma race_thread_store:
  assumes "race_thread al may bm u p" "words_private al may (heap_begin bm)" "u \<noteq> t" "may k t a" "bitmap_load al bm a \<noteq> None"
  shows "race_thread al may (bitmap_store al bm a w) u p"
proof (cases p)
  case (ModifyLoaded x b old_word)
  then have b: "may False u b" "bitmap_load al bm b = Some old_word" using assms(1) by (simp_all add: race_thread_def)
  then have "SpaceBitmap_offset_to_index al (b - heap_begin bm) \<noteq> SpaceBitmap_offset_to_index al (a - heap_begin bm)"
    using assms(2-5) unfolding words_private_def by (fastforce simp: bitmap_load_Some)
  then show ?thesis using ModifyLoaded b by (simp add: race_thread_def bitmap_load_store)
qed (use assms(1) in \<open>auto simp: race_thread_def bitmap_load_store_None\<close>)

lemma race_inv_goto:
  assumes "race_inv al may hb s" "heap_begin bm = hb" "race_thread al may bm t p"
    and "\<And>u. u \<noteq> t \<Longrightarrow> race_thread al may bm u (race_at s u)"
  shows "race_inv al may hb (race_goto t p bm s)"
  using assms by (auto simp: race_inv_def race_goto_def)

lemma race_inv_step:
  assumes "bitmap_step al may t s e s'" "race_inv al may hb s" "words_private al may hb"
  shows "race_inv al may hb s'"
proof -
  have hb: "heap_begin (race_bitmap s) = hb" and th: "\<And>u. race_thread al may (race_bitmap s) u (race_at s u)"
    using assms(2) by (simp_all add: race_inv_def)
  have store: "race_inv al may hb (race_goto t BIdle (bitmap_store al (race_bitmap s) obj w) s)"
    if "may k t obj" "bitmap_load al (race_bitmap s) obj \<noteq> None" for k obj w
    by (rule race_inv_goto [OF assms(2)])
      (use hb race_thread_store [OF th _ _ that] assms(3) in \<open>simp_all add: race_thread_def\<close>)
  have stay: "race_inv al may hb (race_goto t p (race_bitmap s) s)" if "race_thread al may (race_bitmap s) t p" for p
    by (rule race_inv_goto [OF assms(2) hb that th])
  from assms(1) show ?thesis
  proof cases
    case (modify_store x obj old_word r bm)
    then have "may False t obj" "bitmap_load al (race_bitmap s) obj \<noteq> None" using th [of t] by (auto simp: race_thread_def)
    then show ?thesis using modify_store store stay [of BIdle]
      by (auto simp: modify_store_def Let_def race_thread_def split: if_splits)
  next
    case (tas_exchange obj old_word)
    then show ?thesis using th [of t] store by (auto simp: race_thread_def)
  qed (use stay th [of t] in \<open>auto simp: race_thread_def\<close>)
qed

text \<open>What a store does to the cells.\<close>

lemma bitmap_store_cells:
  assumes "bitmap_load al bm obj = Some w"
  shows "SpaceBitmap_marked (bitmap_store al bm obj (w OR bitmap_mask al bm obj)) c
      \<longleftrightarrow> c = (obj - heap_begin bm) div al \<or> SpaceBitmap_marked bm c"
    and "SpaceBitmap_marked (bitmap_store al bm obj (w AND NOT (bitmap_mask al bm obj))) c
      \<longleftrightarrow> c \<noteq> (obj - heap_begin bm) div al \<and> SpaceBitmap_marked bm c"
    and "w AND bitmap_mask al bm obj \<noteq> 0 \<longleftrightarrow> SpaceBitmap_marked bm ((obj - heap_begin bm) div al)"
  using assms words_bit_or [of "(obj - heap_begin bm) div al" "mem_map bm" c]
    words_bit_and_not [of "(obj - heap_begin bm) div al" "mem_map bm" c]
  by (auto simp: bitmap_load_Some SpaceBitmap_marked_def bitmap_store_def bitmap_offset_defs words_bit_def and_mask_bit)

lemma modify_store_cells:
  assumes "bitmap_load al bm obj = Some w" "modify_store al x bm obj w = (r, bm')"
  shows "cells_spec al (heap_begin bm) (Did x obj r) {c. SpaceBitmap_marked bm c} {c. SpaceBitmap_marked bm' c}"
  using assms(2) bitmap_store_cells [OF assms(1)] by (auto simp: modify_store_def Let_def split: if_splits)

lemma race_step_spec:
  assumes "bitmap_step al may t s e s'" "race_inv al may hb s"
  shows "cells_spec al hb e (race_cells s) (race_cells s')"
proof -
  have hb: "heap_begin (race_bitmap s) = hb" and th: "race_thread al may (race_bitmap s) t (race_at s t)"
    using assms(2) by (simp_all add: race_inv_def)
  from assms(1) show ?thesis
  proof cases
    case (modify_store x obj old_word r bm)
    then show ?thesis using modify_store_cells [of al "race_bitmap s" obj old_word x r bm] th hb
      by (simp add: race_thread_def race_cells_def race_goto_def)
  next
    case (tas_is_set obj old_word)
    then show ?thesis using bitmap_store_cells(3) [of al "race_bitmap s" obj old_word] hb
      by (auto simp: race_cells_def race_goto_def Let_def)
  next
    case (tas_exchange obj old_word)
    then show ?thesis using bitmap_store_cells(1,3) [of al "race_bitmap s" obj old_word] th hb
      by (auto simp: race_thread_def race_cells_def race_goto_def Let_def)
  qed (simp_all add: race_cells_def race_goto_def)
qed

definition race_start :: "bitmap_race \<Rightarrow> bool" where
  "race_start s \<longleftrightarrow> (\<forall>t. race_at s t = BIdle)"

interpretation race: step_protocol "bitmap_steps al may" "\<lambda>s. race_start s \<and> heap_begin (race_bitmap s) = hb"
    "\<lambda>s. words_private al may hb \<longrightarrow> race_inv al may hb s" for al may hb
proof
  show "words_private al may hb \<longrightarrow> race_inv al may hb s" if "race_start s \<and> heap_begin (race_bitmap s) = hb" for s
    using that by (simp add: race_start_def race_inv_def race_thread_def)
  show "words_private al may hb \<longrightarrow> race_inv al may hb s'"
    if "bitmap_steps al may s s'" "words_private al may hb \<longrightarrow> race_inv al may hb s" for s s'
    using that race_inv_step unfolding bitmap_steps_def by blast
qed

text \<open>One word of the bitmap covers 1024 bytes, so the bits of different blocks are in different words.\<close>

definition blocks_private :: "(bool \<Rightarrow> thread_id \<Rightarrow> usize \<Rightarrow> bool) \<Rightarrow> bool" where
  "blocks_private may \<longleftrightarrow> (\<forall>t u k a b. t \<noteq> u \<and> may False t a \<and> may k u b \<longrightarrow> a div BLOCK_SIZE \<noteq> b div BLOCK_SIZE)"

lemma same_word_same_block:
  assumes "1024 dvd hb" "hb \<le> a" "hb \<le> b" "SpaceBitmap_offset_to_index 16 (a - hb) = SpaceBitmap_offset_to_index 16 (b - hb)"
  shows "a div BLOCK_SIZE = b div BLOCK_SIZE"
proof -
  have word: "x div 1024 = hb div 1024 + SpaceBitmap_offset_to_index 16 (x - hb)" if "hb \<le> x" for x
  proof -
    obtain k d where "hb = 1024 * k" "x = hb + d" using assms(1) \<open>hb \<le> x\<close> by (auto simp: le_iff_add)
    then show ?thesis by (simp add: SpaceBitmap_offset_to_index_def flip: div_mult2_eq)
  qed
  have "a div 1024 = b div 1024" unfolding word [OF assms(2)] word [OF assms(3)] using assms(4) by simp
  then have "a div 1024 div 32 = b div 1024 div 32" by simp
  then show ?thesis by (simp add: BLOCK_SIZE_def flip: div_mult2_eq)
qed

lemma blocks_words_private: "1024 dvd hb \<Longrightarrow> blocks_private may \<Longrightarrow> words_private 16 may hb"
  using same_word_same_block unfolding blocks_private_def words_private_def by blast

section \<open>Sample runs\<close>

text \<open>Two threads on a bitmap for a heap at 65536; its first word is \<open>v\<close> and its word for the address 98304 is \<open>w\<close>.\<close>

definition sample_race :: "u64 \<Rightarrow> u64 \<Rightarrow> bitmap_pc \<Rightarrow> bitmap_pc \<Rightarrow> bitmap_race" where
  "sample_race v w p q = \<lparr>race_bitmap = \<lparr>mem_map = v # replicate 31 0 @ [w], bitmap_size = 264, heap_begin = 65536, heap_limit = 99328\<rparr>,
     race_at = (\<lambda>_. BIdle)(2 := p, 3 := q)\<rparr>"

lemma sample_race_at [simp]: "race_at (sample_race v w p q) 2 = p" "race_at (sample_race v w p q) 3 = q"
  by (simp_all add: sample_race_def)

lemma sample_race_goto:
  "race_goto 2 p' (race_bitmap (sample_race v' w' p q)) (sample_race v w p q) = sample_race v' w' p' q"
  "race_goto 3 q' (race_bitmap (sample_race v' w' p q)) (sample_race v w p q) = sample_race v' w' p q'"
  by (simp_all add: sample_race_def race_goto_def fun_upd_twist)

lemma sample_race_modify:
  "bitmap_load 16 (race_bitmap (sample_race v w p q)) 65536 = Some v" "bitmap_load 16 (race_bitmap (sample_race v w p q)) 65552 = Some v"
  "bitmap_load 16 (race_bitmap (sample_race v w p q)) 98304 = Some w"
  "modify_store 16 True (race_bitmap (sample_race v w p q)) 65536 0 = (False, race_bitmap (sample_race 1 w p q))"
  "modify_store 16 True (race_bitmap (sample_race v w p q)) 65552 0 = (False, race_bitmap (sample_race 2 w p q))"
  by (simp_all add: sample_race_def bitmap_load_def bitmap_offset_defs at_index_def usub_def modify_store_def bitmap_store_def one_shl_def
      nth_append)

lemma sample_race_start: "race_start (sample_race v w BIdle BIdle)"
  by (simp add: race_start_def sample_race_def)

text \<open>Both threads load before one of them stores; the second one works at the address \<open>obj\<close>.\<close>

lemma sample_race_loads:
  assumes "may False 2 65536" "may False 3 obj" "bitmap_load 16 (race_bitmap (sample_race 0 0 (ModifyLoaded True 65536 0) BIdle)) obj = Some 0"
  shows "(bitmap_steps 16 may)\<^sup>*\<^sup>* (sample_race 0 0 BIdle BIdle) (sample_race 0 0 (ModifyLoaded True 65536 0) (ModifyLoaded True obj 0))"
proof -
  have "bitmap_step 16 may 2 (sample_race 0 0 BIdle BIdle) Silent (sample_race 0 0 (ModifyLoaded True 65536 0) BIdle)"
    using bitmap_step.modify_load [of "sample_race 0 0 BIdle BIdle" 2 may 65536 16 0 True] assms(1)
    by (simp add: sample_race_modify sample_race_goto)
  moreover have "bitmap_step 16 may 3 (sample_race 0 0 (ModifyLoaded True 65536 0) BIdle) Silent
      (sample_race 0 0 (ModifyLoaded True 65536 0) (ModifyLoaded True obj 0))"
    using bitmap_step.modify_load [of "sample_race 0 0 (ModifyLoaded True 65536 0) BIdle" 3 may obj 16 0 True] assms(2,3)
    by (simp add: sample_race_goto)
  ultimately have "bitmap_steps 16 may (sample_race 0 0 BIdle BIdle) (sample_race 0 0 (ModifyLoaded True 65536 0) BIdle)"
    "bitmap_steps 16 may (sample_race 0 0 (ModifyLoaded True 65536 0) BIdle) (sample_race 0 0 (ModifyLoaded True 65536 0) (ModifyLoaded True obj 0))"
    unfolding bitmap_steps_def by blast+
  then show ?thesis by (meson converse_rtranclp_into_rtranclp rtranclp.rtrancl_refl)
qed

lemma sample_race_store:
  "bitmap_step 16 may 2 (sample_race v w (ModifyLoaded True 65536 0) q) (Did True 65536 False) (sample_race 1 w BIdle q)"
  using bitmap_step.modify_store [OF sample_race_at(1) sample_race_modify(4), of may v w q]
  by (simp add: sample_race_goto)

text \<open>When two threads set different cells of one word, the first store can be lost.\<close>

lemma modify_loses_update:
  assumes "may False 2 65536" "may False 3 65552"
  shows "\<exists>s s' s''. (bitmap_steps 16 may)\<^sup>*\<^sup>* (sample_race 0 0 BIdle BIdle) s \<and>
    bitmap_step 16 may 2 s (Did True 65536 False) s' \<and> bitmap_step 16 may 3 s' (Did True 65552 False) s'' \<and> 0 \<notin> race_cells s''"
proof -
  have "bitmap_step 16 may 3 (sample_race 1 0 BIdle (ModifyLoaded True 65552 0)) (Did True 65552 False) (sample_race 2 0 BIdle BIdle)"
    using bitmap_step.modify_store [OF sample_race_at(2) sample_race_modify(5), of may 1 0 BIdle]
    by (simp add: sample_race_goto)
  moreover have "0 \<notin> race_cells (sample_race 2 0 BIdle BIdle)"
    by (simp add: race_cells_def sample_race_def SpaceBitmap_marked_def words_bit_def)
  ultimately show ?thesis using sample_race_loads [of may 65552] assms sample_race_modify(2) sample_race_store by blast
qed

section \<open>Properties\<close>

text \<open>C30: In a heap that starts at a page, let the threads work in different blocks wherever one of them calls the non-atomic \<open>modify\<close>.
  Then under every interleaving the bitmap is an atomic set of cells: each call of \<open>modify\<close> or \<open>atomic_test_and_set\<close> takes effect in
  one step, which adds or removes exactly its cell, and returns whether the cell was there in that step; no other
  step changes the set.\<close>

theorem concurrent_bitmap_atomic:
  assumes "4096 dvd heap_begin (race_bitmap s0)" "blocks_private may" and "race_start s0" "(bitmap_steps 16 may)\<^sup>*\<^sup>* s0 s"
    and "bitmap_step 16 may t s e s'"
  shows "cells_spec 16 (heap_begin (race_bitmap s0)) e (race_cells s) (race_cells s')"
proof -
  have "1024 dvd heap_begin (race_bitmap s0)" using assms(1) by (rule dvd_trans [rotated]) simp
  then have "race_inv 16 may (heap_begin (race_bitmap s0)) s"
    using race.inv_reachable [OF _ assms(4), of "heap_begin (race_bitmap s0)"] assms(3) blocks_words_private [OF _ assms(2)] by blast
  then show ?thesis by (rule race_step_spec [OF assms(5)])
qed

theorem concurrent_bitmap_atomic_witness:
  "race_cells (sample_race 1 0 BIdle (ModifyLoaded True 98304 0))
     = insert 0 (race_cells (sample_race 0 0 (ModifyLoaded True 65536 0) (ModifyLoaded True 98304 0)))"
proof -
  let ?may = "\<lambda>(k::bool) t a. (t = 2 \<and> a = 65536) \<or> (t = (3::thread_id) \<and> a = (98304::usize))"
  have "blocks_private ?may" by (auto simp: blocks_private_def BLOCK_SIZE_def)
  moreover have "4096 dvd heap_begin (race_bitmap (sample_race 0 0 BIdle BIdle))" "heap_begin (race_bitmap (sample_race 0 0 BIdle BIdle)) = 65536"
    by (simp_all add: sample_race_def)
  moreover have "(bitmap_steps 16 ?may)\<^sup>*\<^sup>* (sample_race 0 0 BIdle BIdle) (sample_race 0 0 (ModifyLoaded True 65536 0) (ModifyLoaded True 98304 0))"
    by (rule sample_race_loads) (simp_all add: sample_race_modify)
  ultimately show ?thesis
    using concurrent_bitmap_atomic [OF _ _ sample_race_start _ sample_race_store, of 0 0 ?may] by simp
qed

end
