(* ===== verification/Unsync_Bitmap.thy ===== *)
theory Unsync_Bitmap
  imports Space_Bitmap
begin

unbundle bit_operations_syntax

text \<open>
  \<open>SpaceBitmap\<close> of a build without the feature \<open>threaded\<close>, the module \<open>unsync\<close> of \<open>src/space_bitmap.rs\<close>: its words are reached through the raw
  pointer \<open>bitmap_begin\<close> and read and written in memory without a bounds check. Memory maps the address of a word to the word; \<open>map_ptr\<close> and
  \<open>map_len\<close> are the address and the number of bytes of the \<open>MmapMut\<close>. The functions on offsets and sizes are those of the threaded module,
  letter by letter. An address below the heap has an offset far outside every address space, so its access is \<open>None\<close>. It is a data refinement of the bitmap of the threaded build: wherever the operations of that one
  stay inside the mapping, these compute the same on the words in memory and touch no other word.
\<close>

type_synonym words = "usize \<Rightarrow> u64"

record UnsyncBitmap =
  map_ptr :: usize
  map_len :: usize
  u_bitmap_begin :: usize
  u_bitmap_size :: usize
  u_heap_begin :: usize
  u_heap_limit :: usize

section \<open>Operations\<close>

definition unsync_new :: "usize \<times> usize \<Rightarrow> usize \<Rightarrow> usize \<Rightarrow> usize \<Rightarrow> usize \<Rightarrow> UnsyncBitmap" where
  "unsync_new mmap bitmap_begin bsize begin_addr heap_capacity =
     \<lparr>map_ptr = fst mmap, map_len = snd mmap, u_bitmap_begin = bitmap_begin, u_bitmap_size = bsize, u_heap_begin = begin_addr,
      u_heap_limit = begin_addr + heap_capacity\<rparr>"

definition unsync_create_from_memmap :: "usize \<Rightarrow> usize \<times> usize \<Rightarrow> usize \<Rightarrow> usize \<Rightarrow> UnsyncBitmap" where
  "unsync_create_from_memmap al mmap begin_addr heap_capacity =
     (let bitmap_begin = fst mmap
      in \<lparr>map_ptr = fst mmap, map_len = snd mmap, u_bitmap_begin = bitmap_begin, u_bitmap_size = SpaceBitmap_compute_bitmap_size al heap_capacity,
          u_heap_begin = begin_addr, u_heap_limit = begin_addr + heap_capacity\<rparr>)"

text \<open>\<open>addr\<close> is the address of the anonymous mapping, which is filled with zeros.\<close>

definition unsync_create :: "usize \<Rightarrow> usize \<Rightarrow> usize \<Rightarrow> usize \<Rightarrow> words \<Rightarrow> UnsyncBitmap \<times> words" where
  "unsync_create al addr begin_addr heap_capacity m =
     (let bytes = SpaceBitmap_compute_bitmap_size al heap_capacity
      in (unsync_create_from_memmap al (addr, bytes) begin_addr heap_capacity,
          \<lambda>a. if addr \<le> a \<and> a < addr + bytes then 0 else m a))"

abbreviation unsync_word :: "usize \<Rightarrow> UnsyncBitmap \<Rightarrow> usize \<Rightarrow> usize" where
  "unsync_word al b offset \<equiv> u_bitmap_begin b + 8 * SpaceBitmap_offset_to_index al offset"

definition unsync_test :: "usize \<Rightarrow> UnsyncBitmap \<Rightarrow> words \<Rightarrow> usize \<Rightarrow> bool option" where
  "unsync_test al b m object = do {
     offset \<leftarrow> usub object (u_heap_begin b);
     Some (m (unsync_word al b offset) AND SpaceBitmap_offset_to_mask al offset \<noteq> 0) }"

definition unsync_modify :: "usize \<Rightarrow> bool \<Rightarrow> UnsyncBitmap \<Rightarrow> usize \<Rightarrow> words \<Rightarrow> (bool \<times> words) option" where
  "unsync_modify al SET_BIT b obj m = do {
     offset \<leftarrow> usub obj (u_heap_begin b);
     let entry = unsync_word al b offset;
     let mask = SpaceBitmap_offset_to_mask al offset;
     let old_word = m entry;
     let m' = (if SET_BIT then if old_word AND mask = 0 then m(entry := old_word OR mask) else m
               else m(entry := old_word AND NOT mask));
     Some (old_word AND mask \<noteq> 0, m') }"

definition unsync_clear :: "usize \<Rightarrow> UnsyncBitmap \<Rightarrow> usize \<Rightarrow> words \<Rightarrow> words option" where
  "unsync_clear al b obj m = map_option snd (unsync_modify al False b obj m)"

definition unsync_set :: "usize \<Rightarrow> UnsyncBitmap \<Rightarrow> usize \<Rightarrow> words \<Rightarrow> words option" where
  "unsync_set al b obj m = map_option snd (unsync_modify al True b obj m)"

definition unsync_set_heap_limit :: "usize \<Rightarrow> usize \<Rightarrow> UnsyncBitmap \<Rightarrow> UnsyncBitmap option" where
  "unsync_set_heap_limit al new_end b = do {
     len \<leftarrow> usub new_end (u_heap_begin b);
     let new_size = SpaceBitmap_offset_to_index al len * 8;
     let b = (if new_size < u_bitmap_size b then b\<lparr>u_bitmap_size := new_size\<rparr> else b);
     Some (b\<lparr>u_heap_limit := new_end\<rparr>) }"

definition unsync_set_heap_size :: "usize \<Rightarrow> usize \<Rightarrow> UnsyncBitmap \<Rightarrow> UnsyncBitmap" where
  "unsync_set_heap_size al bytes b =
     b\<lparr>u_heap_limit := u_heap_begin b + bytes, u_bitmap_size := SpaceBitmap_offset_to_index al bytes * 8\<rparr>"

text \<open>\<open>write_bytes\<close> of zeros, of whole words.\<close>

definition write_zeros :: "usize \<Rightarrow> usize \<Rightarrow> words \<Rightarrow> words" where
  "write_zeros start bytes m = (\<lambda>a. if start \<le> a \<and> a < start + bytes then 0 else m a)"

definition unsync_clear_to_zeros :: "UnsyncBitmap \<Rightarrow> words \<Rightarrow> words" where
  "unsync_clear_to_zeros b m = (if u_bitmap_begin b \<noteq> 0 then write_zeros (map_ptr b) (map_len b) m else m)"

partial_function (option) unsync_clear_low ::
    "usize \<Rightarrow> UnsyncBitmap \<Rightarrow> usize \<Rightarrow> usize \<Rightarrow> words \<Rightarrow> (usize \<times> words) option" where
  "unsync_clear_low al b begin_offset end_offset m =
     (if begin_offset < end_offset \<and> SpaceBitmap_offset_bit_index al begin_offset \<noteq> 0
      then do {
        m \<leftarrow> unsync_clear al b (u_heap_begin b + begin_offset) m;
        unsync_clear_low al b (begin_offset + al) end_offset m }
      else Some (begin_offset, m))"

partial_function (option) unsync_clear_high ::
    "usize \<Rightarrow> UnsyncBitmap \<Rightarrow> usize \<Rightarrow> usize \<Rightarrow> words \<Rightarrow> (usize \<times> words) option" where
  "unsync_clear_high al b begin_offset end_offset m =
     (if begin_offset < end_offset \<and> SpaceBitmap_offset_bit_index al end_offset \<noteq> 0
      then do {
        end_offset \<leftarrow> usub end_offset al;
        m \<leftarrow> unsync_clear al b (u_heap_begin b + end_offset) m;
        unsync_clear_high al b begin_offset end_offset m }
      else Some (end_offset, m))"

definition unsync_clear_range :: "usize \<Rightarrow> UnsyncBitmap \<Rightarrow> usize \<Rightarrow> usize \<Rightarrow> words \<Rightarrow> words option" where
  "unsync_clear_range al b begin_addr end_addr m = do {
     begin_offset \<leftarrow> usub begin_addr (u_heap_begin b);
     end_offset \<leftarrow> usub end_addr (u_heap_begin b);
     (begin_offset, m) \<leftarrow> unsync_clear_low al b begin_offset end_offset m;
     (end_offset, m) \<leftarrow> unsync_clear_high al b begin_offset end_offset m;
     let start_index = SpaceBitmap_offset_to_index al begin_offset;
     let end_index = SpaceBitmap_offset_to_index al end_offset;
     n \<leftarrow> usub end_index start_index;
     Some (write_zeros (u_bitmap_begin b + 8 * start_index) (n * 8) m) }"

section \<open>The words of the mapping\<close>

text \<open>The bitmap of the threaded build that the words in memory represent, and the words outside of the mapping.\<close>

definition unsync_abs :: "UnsyncBitmap \<Rightarrow> words \<Rightarrow> SpaceBitmap" where
  "unsync_abs b m = \<lparr>mem_map = map (\<lambda>i. m (u_bitmap_begin b + 8 * i)) [0..<map_len b div 8], bitmap_size = u_bitmap_size b,
     heap_begin = u_heap_begin b, heap_limit = u_heap_limit b\<rparr>"

definition same_outside :: "UnsyncBitmap \<Rightarrow> words \<Rightarrow> words \<Rightarrow> bool" where
  "same_outside b m m' \<longleftrightarrow> (\<forall>a. a < u_bitmap_begin b \<or> u_bitmap_begin b + map_len b \<le> a \<longrightarrow> m' a = m a)"

text \<open>The operation on memory does what the operation on the list of words does.\<close>

definition refines_to :: "UnsyncBitmap \<Rightarrow> words \<Rightarrow> SpaceBitmap \<Rightarrow> words \<Rightarrow> bool" where
  "refines_to b m bm' m' \<longleftrightarrow> unsync_abs b m' = bm' \<and> same_outside b m m'"

lemma unsync_abs_simps [simp]:
  "heap_begin (unsync_abs b m) = u_heap_begin b" "length (mem_map (unsync_abs b m)) = map_len b div 8"
  "i < map_len b div 8 \<Longrightarrow> mem_map (unsync_abs b m) ! i = m (u_bitmap_begin b + 8 * i)"
  by (simp_all add: unsync_abs_def)

lemma refines_refl [simp]: "refines_to b m (unsync_abs b m) m"
  by (simp add: refines_to_def same_outside_def)

lemma refines_trans: "refines_to b m bm m1 \<Longrightarrow> refines_to b m1 bm' m2 \<Longrightarrow> refines_to b m bm' m2"
  by (simp add: refines_to_def same_outside_def)

lemma refines_update:
  assumes "i < map_len b div 8"
  shows "refines_to b m ((unsync_abs b m)\<lparr>mem_map := (mem_map (unsync_abs b m))[i := w]\<rparr>) (m(u_bitmap_begin b + 8 * i := w))"
proof -
  have "8 * i + 8 \<le> map_len b" using assms by linarith
  moreover have "map (\<lambda>j. (m(u_bitmap_begin b + 8 * i := w)) (u_bitmap_begin b + 8 * j)) [0..<map_len b div 8]
      = (map (\<lambda>j. m (u_bitmap_begin b + 8 * j)) [0..<map_len b div 8])[i := w]"
    using assms by (intro nth_equalityI) (auto simp: nth_list_update)
  ultimately show ?thesis by (auto simp: refines_to_def unsync_abs_def same_outside_def)
qed

section \<open>Each operation refines that of the threaded build\<close>

lemma unsync_test_refines: "SpaceBitmap_test al (unsync_abs b m) obj = Some r \<Longrightarrow> unsync_test al b m obj = Some r"
  by (auto simp: SpaceBitmap_test_def unsync_test_def at_index_def split: Option.bind_splits if_splits)

lemma unsync_modify_refines:
  assumes "SpaceBitmap_modify al x (unsync_abs b m) obj = Some (r, bm')"
  shows "\<exists>m'. unsync_modify al x b obj m = Some (r, m') \<and> refines_to b m bm' m'"
proof -
  obtain off where off: "usub obj (u_heap_begin b) = Some off" "SpaceBitmap_offset_to_index al off < map_len b div 8"
    using assms by (auto simp: SpaceBitmap_modify_def at_index_def Let_def split: Option.bind_splits if_splits)
  show ?thesis
    using assms off refines_update [OF off(2), of m]
    by (auto simp: SpaceBitmap_modify_def unsync_modify_def at_index_def Let_def)
qed

lemma unsync_clear_refines:
  assumes "SpaceBitmap_clear al (unsync_abs b m) obj = Some bm'"
  shows "\<exists>m'. unsync_clear al b obj m = Some m' \<and> refines_to b m bm' m'"
  using assms unsync_modify_refines [of al False b m obj]
  by (fastforce simp: SpaceBitmap_clear_def unsync_clear_def)

lemma unsync_clear_low_refines:
  "clear_low_cells al bm i e = Some r \<Longrightarrow> unsync_abs b m = bm \<Longrightarrow>
    \<exists>m'. unsync_clear_low al b i e m = Some (fst r, m') \<and> refines_to b m (snd r) m'"
proof (induction arbitrary: m rule: clear_low_cells.raw_induct [rotated, consumes 1, case_names loop])
  case (loop rec al bm i e r)
  show ?case
  proof (cases "i < e \<and> SpaceBitmap_offset_bit_index al i \<noteq> 0")
    case True
    then obtain bm1 where bm1: "SpaceBitmap_clear al bm (heap_begin bm + i) = Some bm1" "rec al bm1 (i + al) e = Some r"
      using loop(2) by (auto split: Option.bind_splits)
    then obtain m1 where m1: "unsync_clear al b (u_heap_begin b + i) m = Some m1" "refines_to b m bm1 m1"
      using unsync_clear_refines [of al b m "u_heap_begin b + i" bm1] loop(3) by auto
    then obtain m2 where "unsync_clear_low al b (i + al) e m1 = Some (fst r, m2)" "refines_to b m1 (snd r) m2"
      using loop(1) [OF bm1(2), of m1] by (auto simp: refines_to_def)
    then show ?thesis using True m1 refines_trans [OF m1(2)]
      by (intro exI [of _ m2]) (subst unsync_clear_low.simps, simp)
  next
    case False
    then show ?thesis using loop(2,3) by (subst unsync_clear_low.simps) auto
  qed
qed

lemma unsync_clear_high_refines:
  "clear_high_cells al bm i e = Some r \<Longrightarrow> unsync_abs b m = bm \<Longrightarrow>
    \<exists>m'. unsync_clear_high al b i e m = Some (fst r, m') \<and> refines_to b m (snd r) m'"
proof (induction arbitrary: m rule: clear_high_cells.raw_induct [rotated, consumes 1, case_names loop])
  case (loop rec al bm i e r)
  show ?case
  proof (cases "i < e \<and> SpaceBitmap_offset_bit_index al e \<noteq> 0")
    case True
    then obtain e1 bm1 where bm1: "usub e al = Some e1" "SpaceBitmap_clear al bm (heap_begin bm + e1) = Some bm1" "rec al bm1 i e1 = Some r"
      using loop(2) by (auto split: Option.bind_splits)
    then obtain m1 where m1: "unsync_clear al b (u_heap_begin b + e1) m = Some m1" "refines_to b m bm1 m1"
      using unsync_clear_refines [of al b m "u_heap_begin b + e1" bm1] loop(3) by auto
    then obtain m2 where "unsync_clear_high al b i e1 m1 = Some (fst r, m2)" "refines_to b m1 (snd r) m2"
      using loop(1) [OF bm1(3), of m1] by (auto simp: refines_to_def)
    then show ?thesis using True m1 bm1(1) refines_trans [OF m1(2)]
      by (intro exI [of _ m2]) (subst unsync_clear_high.simps, simp)
  next
    case False
    then show ?thesis using loop(2,3) by (subst unsync_clear_high.simps) auto
  qed
qed

lemma write_zeros_refines:
  assumes "write_zero_words start n (mem_map (unsync_abs b m)) = Some ws"
  shows "refines_to b m ((unsync_abs b m)\<lparr>mem_map := ws\<rparr>) (write_zeros (u_bitmap_begin b + 8 * start) (n * 8) m)"
proof (cases "n = 0")
  case True
  then show ?thesis using assms by (auto simp: write_zero_words_def write_zeros_def refines_to_def unsync_abs_def same_outside_def)
next
  case False
  then have n: "start + n \<le> map_len b div 8" using assms by (auto simp: write_zero_words_def split: if_splits)
  then have "8 * start + n * 8 \<le> map_len b" by linarith
  moreover have "map (\<lambda>i. write_zeros (u_bitmap_begin b + 8 * start) (n * 8) m (u_bitmap_begin b + 8 * i)) [0..<map_len b div 8] = ws"
    using assms n by (intro nth_equalityI) (auto simp: write_zero_words_def unsync_abs_def write_zeros_def nth_append)
  ultimately show ?thesis by (auto simp: refines_to_def unsync_abs_def same_outside_def write_zeros_def)
qed

lemma unsync_clear_range_refines:
  assumes "SpaceBitmap_clear_range al (unsync_abs b m) from to = Some bm'"
  shows "\<exists>m'. unsync_clear_range al b from to m = Some m' \<and> refines_to b m bm' m'"
proof -
  obtain i e i' bm1 e' bm2 n ws where run: "usub from (u_heap_begin b) = Some i" "usub to (u_heap_begin b) = Some e"
      "clear_low_cells al (unsync_abs b m) i e = Some (i', bm1)" "clear_high_cells al bm1 i' e = Some (e', bm2)"
      "usub (SpaceBitmap_offset_to_index al e') (SpaceBitmap_offset_to_index al i') = Some n"
      "write_zero_words (SpaceBitmap_offset_to_index al i') n (mem_map bm2) = Some ws" "bm' = bm2\<lparr>mem_map := ws\<rparr>"
    using assms by (auto simp: SpaceBitmap_clear_range_def Let_def split: Option.bind_splits)
  obtain m1 where m1: "unsync_clear_low al b i e m = Some (i', m1)" "refines_to b m bm1 m1"
    using unsync_clear_low_refines [OF run(3) refl] by auto
  obtain m2 where m2: "unsync_clear_high al b i' e m1 = Some (e', m2)" "refines_to b m1 bm2 m2"
    using unsync_clear_high_refines [OF run(4), of b m1] m1(2) by (auto simp: refines_to_def)
  let ?m = "write_zeros (u_bitmap_begin b + 8 * SpaceBitmap_offset_to_index al i') (n * 8) m2"
  have "refines_to b m2 bm' ?m"
    using write_zeros_refines [of _ n b m2 ws] run(6,7) m2(2) by (simp add: refines_to_def)
  then have "refines_to b m bm' ?m" using m1(2) m2(2) refines_trans by blast
  then show ?thesis using run m1 m2 by (simp add: unsync_clear_range_def Let_def)
qed

lemma unsync_sizes_refine:
  "unsync_set_heap_limit al limit b = Some b' \<Longrightarrow> SpaceBitmap_set_heap_limit al (unsync_abs b m) limit = Some (unsync_abs b' m)"
  "SpaceBitmap_set_heap_size al (unsync_abs b m) bytes = unsync_abs (unsync_set_heap_size al bytes b) m"
  by (auto simp: unsync_set_heap_limit_def SpaceBitmap_set_heap_limit_def unsync_set_heap_size_def SpaceBitmap_set_heap_size_def
      unsync_abs_def Let_def split: Option.bind_splits)

lemma unsync_clear_to_zeros_refines:
  assumes "u_bitmap_begin b = map_ptr b" "u_bitmap_begin b \<noteq> 0"
  shows "refines_to b m (SpaceBitmap_clear_to_zeros (unsync_abs b m)) (unsync_clear_to_zeros b m)"
  using assms by (auto simp: refines_to_def same_outside_def SpaceBitmap_clear_to_zeros_def unsync_clear_to_zeros_def write_zeros_def unsync_abs_def)

lemma unsync_create_refines:
  assumes "unsync_create al addr start capacity m = (b, m')"
  shows "refines_to b m (SpaceBitmap_create al start capacity) m' \<and> u_bitmap_begin b = map_ptr b"
  using assms
  by (auto simp: refines_to_def same_outside_def unsync_create_def unsync_create_from_memmap_def SpaceBitmap_create_def
      SpaceBitmap_create_from_memmap_def unsync_abs_def Let_def map_replicate_const intro!: nth_equalityI)

section \<open>The words in memory as a set of cells\<close>

definition unsync_marked :: "UnsyncBitmap \<Rightarrow> words \<Rightarrow> nat \<Rightarrow> bool" where
  "unsync_marked b m = SpaceBitmap_marked (unsync_abs b m)"

definition unsync_test_cell :: "UnsyncBitmap \<Rightarrow> nat \<Rightarrow> words \<Rightarrow> bool option" where
  "unsync_test_cell b i m = unsync_test 16 b m (u_heap_begin b + i * 16)"

definition unsync_put_cell :: "UnsyncBitmap \<Rightarrow> bool \<Rightarrow> nat \<Rightarrow> words \<Rightarrow> words option" where
  "unsync_put_cell b x i m = map_option snd (unsync_modify 16 x b (u_heap_begin b + i * 16) m)"

lemma unsync_put_refines:
  assumes "bitmap_put_cell x i (unsync_abs b m) = Some bm'"
  shows "\<exists>m'. unsync_put_cell b x i m = Some m' \<and> unsync_abs b m' = bm'"
  using assms unsync_modify_refines [of 16 x b m "u_heap_begin b + i * 16"]
  by (fastforce simp: bitmap_put_cell_def unsync_put_cell_def refines_to_def)

text \<open>The laws of a bit table, carried over from the bitmap of the threaded build.\<close>

interpretation raw_cells: bit_table "\<lambda>_. True" "\<lambda>_. 64 * (map_len b div 8)" "unsync_marked b" "unsync_test_cell b" "unsync_put_cell b"
  for b
proof
  fix m m' :: words and i j x
  assume i: "i < 64 * (map_len b div 8)"
  then have ib: "i < bitmap_cells (unsync_abs b m)" by simp
  show "unsync_test_cell b i m = Some (unsync_marked b m i)"
    using cells.test_marked [OF _ ib] unsync_test_refines by (simp add: unsync_test_cell_def bitmap_test_cell_def unsync_marked_def)
  obtain bm' where bm': "bitmap_put_cell x i (unsync_abs b m) = Some bm'" using cells.put_total [OF _ ib] by blast
  then obtain m1 where m1: "unsync_put_cell b x i m = Some m1" "unsync_abs b m1 = bm'" using unsync_put_refines by blast
  then show "\<exists>m'. unsync_put_cell b x i m = Some m'" by blast
  assume "unsync_put_cell b x i m = Some m'"
  then show "unsync_marked b m' j = (if j = i then x else unsync_marked b m j)"
    using m1 cells.put_marked [OF _ ib bm'] by (simp add: unsync_marked_def)
qed simp_all

text \<open>Cells that are entered one after the other in a new bitmap are the ones it then holds.\<close>

lemma unsync_create_then_set:
  assumes "unsync_create 16 addr start capacity m = (b, m1)" "\<forall>i \<in> set is. i < 64 * (map_len b div 8)"
  shows "\<exists>m2. for_each (unsync_put_cell b True) is m1 = Some m2 \<and> Collect (unsync_marked b m2) = set is"
proof -
  have "unsync_marked b m1 i \<longleftrightarrow> False" for i
    using unsync_create_refines [OF assms(1)]
    by (auto simp: refines_to_def unsync_marked_def SpaceBitmap_marked_def SpaceBitmap_create_def SpaceBitmap_create_from_memmap_def
        words_bit_def Let_def)
  then show ?thesis using raw_cells.put_range [of "is" b True m1] assms(2) by (auto simp: set_eq_iff)
qed

section \<open>Properties\<close>

text \<open>C31: The bitmap of a build without threads is a data refinement of the bitmap of the threaded build. Wherever \<open>test\<close>, \<open>modify\<close> and \<open>clear_range\<close>
  of the latter stay inside the mapping, the operations on the words in memory return the same, without a panic or an endless loop,
  leave in the mapping the words of the other, and change no word outside of the mapping.\<close>

theorem unsync_bitmap_refines:
  shows "(SpaceBitmap_test al (unsync_abs b m) obj = Some r \<longrightarrow> unsync_test al b m obj = Some r) \<and>
    (SpaceBitmap_modify al x (unsync_abs b m) obj = Some (r, bm1) \<longrightarrow>
      (\<exists>m'. unsync_modify al x b obj m = Some (r, m') \<and> unsync_abs b m' = bm1 \<and>
        (\<forall>a. a < u_bitmap_begin b \<or> u_bitmap_begin b + map_len b \<le> a \<longrightarrow> m' a = m a))) \<and>
    (SpaceBitmap_clear_range al (unsync_abs b m) from to = Some bm2 \<longrightarrow>
      (\<exists>m'. unsync_clear_range al b from to m = Some m' \<and> unsync_abs b m' = bm2 \<and>
        (\<forall>a. a < u_bitmap_begin b \<or> u_bitmap_begin b + map_len b \<le> a \<longrightarrow> m' a = m a)))"
  using unsync_test_refines unsync_modify_refines [of al x b m obj r bm1] unsync_clear_range_refines [of al b m "from" to bm2]
  unfolding refines_to_def same_outside_def by blast

theorem unsync_bitmap_refines_witness:
  "\<exists>m'. unsync_modify 16 True \<lparr>map_ptr = 4096, map_len = 8, u_bitmap_begin = 4096, u_bitmap_size = 8, u_heap_begin = 0, u_heap_limit = 1024\<rparr>
     16 (\<lambda>_. 5) = Some (False, m') \<and> m' 4096 = 7 \<and> m' 4104 = 5"
proof -
  let ?b = "\<lparr>map_ptr = 4096, map_len = 8, u_bitmap_begin = 4096, u_bitmap_size = 8, u_heap_begin = 0, u_heap_limit = 1024\<rparr>"
  have "SpaceBitmap_modify 16 True (unsync_abs ?b (\<lambda>_. 5)) 16
      = Some (False, \<lparr>mem_map = [7], bitmap_size = 8, heap_begin = 0, heap_limit = 1024\<rparr>)"
    by code_simp
  then obtain m' where m': "unsync_modify 16 True ?b 16 (\<lambda>_. 5) = Some (False, m')"
      "unsync_abs ?b m' = \<lparr>mem_map = [7], bitmap_size = 8, heap_begin = 0, heap_limit = 1024\<rparr>"
      "\<forall>a. a < u_bitmap_begin ?b \<or> u_bitmap_begin ?b + map_len ?b \<le> a \<longrightarrow> m' a = 5"
    using unsync_bitmap_refines [of 16 ?b "\<lambda>_. 5" 16 False True] by blast
  from m'(2,3) have "m' 4096 = 7" "m' 4104 = 5" by (auto simp: unsync_abs_def)
  with m'(1) show ?thesis by blast
qed

end
