(* ===== verification/Mmap_Windows.thy ===== *)
theory Mmap_Windows
  imports Block_Allocator Locks
begin

text \<open>
  The windows variant of \<open>Mmap\<close>, the module \<open>_win\<close> of \<open>src/block_allocator.rs\<close>. Address space is reserved first; memory must be committed before it is
  used and can be decommitted. The mapping has the set of its committed bytes, the effect of \<open>VirtualAlloc\<close> and \<open>VirtualFree\<close> on whole pages;
  \<open>BlockAllocator\<close> is the same for both variants, so the calls it makes are those that its model lists in \<open>advice\<close>. At every moment the
  committed bytes are those of the blocks in use.
\<close>

section \<open>Operations\<close>

record WinMmap =
  win_start :: usize
  win_end :: usize
  win_size :: usize
  committed :: "usize set"
  released :: bool

text \<open>\<open>mapped\<close> is the result of \<open>VirtualAlloc\<close> with \<open>MEM_RESERVE\<close>, which is not compared with null.\<close>

definition WinMmap_new :: "usize \<Rightarrow> usize \<Rightarrow> WinMmap" where
  "WinMmap_new mapped sz = \<lparr>win_start = mapped, win_end = mapped + sz, win_size = sz, committed = {}, released = False\<rparr>"

definition WinMmap_aligned :: "WinMmap \<Rightarrow> usize" where
  "WinMmap_aligned m = (let offset = BLOCK_SIZE - win_start m mod BLOCK_SIZE in win_start m + offset)"

definition WinMmap_dontneed :: "usize \<Rightarrow> usize \<Rightarrow> WinMmap \<Rightarrow> WinMmap" where
  "WinMmap_dontneed page sz m = m\<lparr>committed := committed m - {page..<page + sz}\<rparr>"

definition WinMmap_commit :: "usize \<Rightarrow> usize \<Rightarrow> WinMmap \<Rightarrow> WinMmap" where
  "WinMmap_commit page sz m = m\<lparr>committed := committed m \<union> {page..<page + sz}\<rparr>"

text \<open>\<open>VirtualFree\<close> with \<open>MEM_RELEASE\<close> fails unless the size is 0, and then changes nothing; \<open>drop\<close> passes the size of the mapping.\<close>

definition VirtualFree_release :: "usize \<Rightarrow> WinMmap \<Rightarrow> WinMmap" where
  "VirtualFree_release sz m = (if sz = 0 then m\<lparr>committed := {}, released := True\<rparr> else m)"

definition WinMmap_drop :: "WinMmap \<Rightarrow> WinMmap" where
  "WinMmap_drop m = VirtualFree_release (win_size m) m"

section \<open>The calls of the block allocator\<close>

fun win_call :: "madvise \<Rightarrow> WinMmap \<Rightarrow> WinMmap" where
  "win_call (DontNeed page sz) m = WinMmap_dontneed page sz m"
| "win_call (Commit page sz) m = WinMmap_commit page sz m"

definition win_mapping :: "BlockAllocator \<Rightarrow> WinMmap" where
  "win_mapping ba = fold win_call (advice (mmap ba)) (WinMmap_new (mmap_start (mmap ba)) (mmap_size (mmap ba)))"

text \<open>Calls of the allocator; the collector returns blocks that are in use.\<close>

inductive block_call :: "BlockAllocator \<Rightarrow> BlockAllocator \<Rightarrow> bool" where
  get: "block_call ba ba'" if "BlockAllocator_get_block ba blocks = (r, ba', blocks')"
| give_back: "block_call ba (BlockAllocator_return_blocks bs ba)" if "set bs \<subseteq> used_blocks ba" "distinct bs"

inductive_cases block_callE: "block_call ba ba'"

definition new_allocator :: "BlockAllocator \<Rightarrow> bool" where
  "new_allocator ba \<longleftrightarrow> (\<exists>a sz. BLOCK_SIZE \<le> sz \<and> BlockAllocator_new (Some a) sz = Some ba)"

lemma win_call_fields [simp]:
  "win_start (win_call c m) = win_start m" "win_end (win_call c m) = win_end m" "win_size (win_call c m) = win_size m" "released (win_call c m) = released m"
  by (cases c; simp add: WinMmap_dontneed_def WinMmap_commit_def)+

lemma win_mapping_fields:
  "win_start (win_mapping ba) = mmap_start (mmap ba)" "win_size (win_mapping ba) = mmap_size (mmap ba)" "\<not> released (win_mapping ba)"
proof -
  have "win_start (fold win_call cs m) = win_start m \<and> win_size (fold win_call cs m) = win_size m \<and> released (fold win_call cs m) = released m" for cs m
    by (induction cs arbitrary: m) simp_all
  then show "win_start (win_mapping ba) = mmap_start (mmap ba)" "win_size (win_mapping ba) = mmap_size (mmap ba)" "\<not> released (win_mapping ba)"
    by (simp_all add: win_mapping_def WinMmap_new_def)
qed

lemma win_aligned_eq: "WinMmap_aligned (win_mapping ba) = Mmap_aligned (mmap ba)"
  by (simp add: WinMmap_aligned_def Mmap_aligned_def win_mapping_fields)

lemma committed_dontneed:
  "committed (fold win_call (map (\<lambda>b. DontNeed b BLOCK_SIZE) bs) m) = committed m - (\<Union>b \<in> set bs. block_bytes b)"
  by (induction bs arbitrary: m) (auto simp: WinMmap_dontneed_def)

section \<open>The committed memory\<close>

definition commit_inv :: "BlockAllocator \<Rightarrow> bool" where
  "commit_inv ba \<longleftrightarrow> block_allocator_ok ba \<and> committed (win_mapping ba) = (\<Union>b \<in> used_blocks ba. block_bytes b)"

lemma commit_inv_get:
  assumes "commit_inv ba" "BlockAllocator_get_block ba blocks = (r, ba', blocks')"
  shows "commit_inv ba'"
proof -
  have ok: "block_allocator_ok ba" using assms(1) by (simp add: commit_inv_def)
  have one: "commit_inv ba'" if "BlockAllocator_get_block ba blocks = (Some b, ba', blocks')"
      "mmap ba' = Mmap_commit b BLOCK_SIZE (mmap ba)" for b
    using get_block_spec [OF ok that(1)] assms(1) that(2)
    by (auto simp: commit_inv_def win_mapping_def Mmap_commit_def WinMmap_commit_def)
  show ?thesis
    using assms(2) one
    by (cases rule: get_block_cases [OF ok, of blocks, case_names free fresh none])
      (use assms(1) in \<open>auto simp: BlockAllocator_build_block_def Let_def split: if_splits\<close>)
qed

lemma commit_inv_return:
  assumes "commit_inv ba" "set bs \<subseteq> used_blocks ba" "distinct bs"
  shows "commit_inv (BlockAllocator_return_blocks bs ba)"
proof -
  have ok: "block_allocator_ok ba" using assms(1) by (simp add: commit_inv_def)
  have "block_bytes b \<inter> block_bytes c = {}" if "b \<in> used_blocks ba" "c \<in> used_blocks ba" "b \<noteq> c" for b c
    using blocks_disjoint [of b c] that by (simp add: used_blocks_def built_blocks_def)
  then have "(\<Union>b \<in> used_blocks ba. block_bytes b) - (\<Union>b \<in> set bs. block_bytes b) = (\<Union>b \<in> used_blocks ba - set bs. block_bytes b)"
    using assms(2) by (intro equalityI subsetI) (blast, fast)
  then show ?thesis
    using return_blocks_spec [OF ok assms(2,3)] assms(1) committed_dontneed
    by (simp add: commit_inv_def win_mapping_def return_blocks_eq)
qed

interpretation committing: step_protocol block_call new_allocator commit_inv
proof
  fix ba ba' assume "new_allocator ba"
  then obtain a sz where new: "BLOCK_SIZE \<le> sz" "BlockAllocator_new (Some a) sz = Some ba" by (auto simp: new_allocator_def)
  then have "advice (mmap ba) = []" by (auto simp: BlockAllocator_new_def Mmap_new_def)
  then show "commit_inv ba" using new_ok [OF new] by (simp add: commit_inv_def win_mapping_def WinMmap_new_def)
next
  fix ba ba' assume "block_call ba ba'" "commit_inv ba"
  then show "commit_inv ba'" by (auto elim!: block_callE intro: commit_inv_get commit_inv_return)
qed

text \<open>The mapping is never released by \<open>drop\<close>.\<close>

lemma windows_drop_keeps_mapping: "0 < win_size m \<Longrightarrow> WinMmap_drop m = m"
  by (simp add: WinMmap_drop_def VirtualFree_release_def)

text \<open>On windows, after any calls of \<open>get_block\<close> and \<open>return_blocks\<close> on a new allocator, the committed bytes of the mapping are exactly the bytes
  of the blocks in use: a block that is handed out can be used, and the memory of a returned block is given back.\<close>

lemma windows_commits_used_blocks:
  assumes "new_allocator ba0" "block_call\<^sup>*\<^sup>* ba0 ba"
  shows "committed (win_mapping ba) = (\<Union>b \<in> used_blocks ba. {b..<b + BLOCK_SIZE}) \<and>
    (BlockAllocator_get_block ba blocks = (Some b, ba', blocks') \<longrightarrow>
      {b..<b + BLOCK_SIZE} \<inter> committed (win_mapping ba) = {} \<and> {b..<b + BLOCK_SIZE} \<subseteq> committed (win_mapping ba'))"
proof (intro conjI impI)
  have inv: "commit_inv ba" using committing.inv_reachable [OF assms] .
  then show com: "committed (win_mapping ba) = (\<Union>b \<in> used_blocks ba. block_bytes b)" by (simp add: commit_inv_def)
  assume get: "BlockAllocator_get_block ba blocks = (Some b, ba', blocks')"
  have ok: "block_allocator_ok ba" using inv by (simp add: commit_inv_def)
  note spec = get_block_spec [OF ok get]
  show "block_bytes b \<subseteq> committed (win_mapping ba')"
    using commit_inv_get [OF inv get] spec by (auto simp: commit_inv_def)
  have "block_bytes b \<inter> block_bytes c = {}" if "c \<in> used_blocks ba" for c
  proof (rule blocks_disjoint)
    show "BLOCK_SIZE dvd b" "BLOCK_SIZE dvd c" using spec(6) that by (simp_all add: used_blocks_def built_blocks_def)
    show "b \<noteq> c" using spec(2) that by blast
  qed
  then show "block_bytes b \<inter> committed (win_mapping ba) = {}" unfolding com by blast
qed

end
