(* ===== verification/Statistics.thy ===== *)
theory Statistics
  imports Immix
begin

text \<open>
  The timers of \<open>src/util/timer.rs\<close> and the statistics of \<open>src/lib.rs\<close> that \<open>immix_dump_summary\<close> prints. The readings of the clock are arguments,
  in nanoseconds. The type \<open>f32\<close> and its operations are a parameter: no law of rounding is used, so what is shown holds of
  machine floats. A difference of readings that would be negative is a panic.
\<close>

record 'f f32_ops =
  f32_of :: "nat \<Rightarrow> 'f"
  f32_add :: "'f \<Rightarrow> 'f \<Rightarrow> 'f"
  f32_sub :: "'f \<Rightarrow> 'f \<Rightarrow> 'f"
  f32_mul :: "'f \<Rightarrow> 'f \<Rightarrow> 'f"
  f32_div :: "'f \<Rightarrow> 'f \<Rightarrow> 'f"
  f32_round :: "'f \<Rightarrow> 'f"
  f32_show :: "'f \<Rightarrow> string"

section \<open>\<open>Timer\<close>\<close>

record Timer =
  active :: bool
  timestamp :: nat

definition in_ms :: "'f f32_ops \<Rightarrow> nat \<Rightarrow> 'f" where
  "in_ms F ns = f32_div F (f32_div F (f32_of F ns) (f32_of F 1000)) (f32_of F 1000)"

definition Timer_new :: "bool \<Rightarrow> nat \<Rightarrow> Timer" where
  "Timer_new act now = \<lparr>active = act, timestamp = (if act then now else 0)\<rparr>"

definition Timer_stop :: "'f f32_ops \<Rightarrow> nat \<Rightarrow> Timer \<Rightarrow> ('f \<times> Timer) option" where
  "Timer_stop F now tm =
     (if \<not> active tm then None
      else do {
        diff \<leftarrow> usub now (timestamp tm);
        Some (in_ms F diff, tm\<lparr>timestamp := now\<rparr>) })"

text \<open>\<open>stop_with\<close> passes the time in milliseconds to its argument; the second component is what it passed.\<close>

definition Timer_stop_with :: "'f f32_ops \<Rightarrow> nat \<Rightarrow> Timer \<Rightarrow> (nat \<times> 'f option) option" where
  "Timer_stop_with F now tm =
     (if active tm then do {
        ts \<leftarrow> usub now (timestamp tm);
        Some (ts, Some (in_ms F ts)) }
      else Some (0, None))"

text \<open>\<open>Timer::ms\<close>, where the call of \<open>f\<close> happens between the readings \<open>before\<close> and \<open>after\<close>.\<close>

definition Timer_ms :: "'f f32_ops \<Rightarrow> bool \<Rightarrow> nat \<Rightarrow> nat \<Rightarrow> 'f option" where
  "Timer_ms F act before after =
     (if act then do { diff \<leftarrow> usub after before; Some (in_ms F diff) } else Some (f32_of F 0))"

text \<open>A timer that is stopped at each of a list of readings measures the times between them, which add up to the whole time.\<close>

fun Timer_laps :: "'f f32_ops \<Rightarrow> nat list \<Rightarrow> Timer \<Rightarrow> ('f list \<times> Timer) option" where
  "Timer_laps F [] tm = Some ([], tm)"
| "Timer_laps F (c # cs) tm = do {
     (x, tm) \<leftarrow> Timer_stop F c tm;
     (xs, tm) \<leftarrow> Timer_laps F cs tm;
     Some (x # xs, tm) }"

lemma Timer_laps_partition:
  assumes "active tm" "sorted (timestamp tm # cs)"
  shows "\<exists>ds. Timer_laps F cs tm = Some (map (in_ms F) ds, tm\<lparr>timestamp := last (timestamp tm # cs)\<rparr>) \<and>
    timestamp tm + sum_list ds = last (timestamp tm # cs)"
  using assms
proof (induction cs arbitrary: tm)
  case (Cons c cs)
  then have c: "timestamp tm \<le> c" and stop: "Timer_stop F c tm = Some (in_ms F (c - timestamp tm), tm\<lparr>timestamp := c\<rparr>)"
    by (simp_all add: Timer_stop_def usub_def)
  obtain ds where "Timer_laps F cs (tm\<lparr>timestamp := c\<rparr>) = Some (map (in_ms F) ds, tm\<lparr>timestamp := last (c # cs)\<rparr>)"
      "c + sum_list ds = last (c # cs)"
    using Cons.IH [of "tm\<lparr>timestamp := c\<rparr>"] Cons.prems by auto
  then show ?case using stop c by (intro exI [of _ "(c - timestamp tm) # ds"]) auto
qed simp

lemma Timer_stop_inactive: "\<not> active tm \<Longrightarrow> Timer_stop F c tm = None \<and> Timer_stop_with F c tm = Some (0, None)"
  by (simp add: Timer_stop_def Timer_stop_with_def)

section \<open>\<open>CollectionStats\<close>\<close>

record 'f CollectionStats =
  collections :: nat
  total_pause :: 'f
  pauses :: "'f list"

definition CollectionStats_new :: "'f f32_ops \<Rightarrow> 'f CollectionStats" where
  "CollectionStats_new F = \<lparr>collections = 0, total_pause = f32_of F 0, pauses = []\<rparr>"

definition CollectionStats_add :: "'f f32_ops \<Rightarrow> 'f \<Rightarrow> 'f CollectionStats \<Rightarrow> 'f CollectionStats" where
  "CollectionStats_add F p st =
     st\<lparr>collections := collections st + 1, total_pause := f32_add F (total_pause st) p, pauses := pauses st @ [p]\<rparr>"

definition CollectionStats_mutator :: "'f f32_ops \<Rightarrow> 'f \<Rightarrow> 'f CollectionStats \<Rightarrow> 'f" where
  "CollectionStats_mutator F runtime st = f32_sub F runtime (total_pause st)"

definition CollectionStats_percentage :: "'f f32_ops \<Rightarrow> 'f \<Rightarrow> 'f CollectionStats \<Rightarrow> 'f \<times> 'f" where
  "CollectionStats_percentage F runtime st =
     (let gc_percentage = f32_round F (f32_mul F (f32_div F (total_pause st) runtime) (f32_of F 100));
          mutator_percentage = f32_sub F (f32_of F 100) gc_percentage
      in (mutator_percentage, gc_percentage))"

text \<open>The printed form of \<open>AllNumbers\<close>; the loop carries whether the next number is the first one.\<close>

fun AllNumbers_fmt_loop :: "'f f32_ops \<Rightarrow> bool \<Rightarrow> 'f list \<Rightarrow> string" where
  "AllNumbers_fmt_loop F first [] = []"
| "AllNumbers_fmt_loop F first (num # nums) = (if first then [] else '','') @ f32_show F num @ AllNumbers_fmt_loop F False nums"

definition AllNumbers_fmt :: "'f f32_ops \<Rightarrow> 'f list \<Rightarrow> string" where
  "AllNumbers_fmt F nums = ''['' @ AllNumbers_fmt_loop F True nums @ '']''"

text \<open>What \<open>collect_internal\<close> adds to the statistics; \<open>start\<close> and \<open>now\<close> are the readings at its timer's start and stop.\<close>

definition record_cycle :: "'f f32_ops \<Rightarrow> GcStats \<Rightarrow> nat \<Rightarrow> nat \<Rightarrow> 'f CollectionStats \<Rightarrow> 'f CollectionStats option" where
  "record_cycle F level start now stats =
     (let timer = Timer_new (level \<noteq> StatsNone) start
      in if level \<noteq> StatsNone then do {
           (duration, timer) \<leftarrow> Timer_stop F now timer;
           Some (CollectionStats_add F duration stats) }
         else Some stats)"

text \<open>What \<open>immix_dump_summary\<close> prints; it also stops the timer of the collector.\<close>

record 'f Summary =
  sum_total :: 'f
  sum_mutator :: 'f
  sum_collection :: 'f
  sum_collections :: nat
  sum_percentage :: "'f \<times> 'f"

definition immix_dump_summary :: "'f f32_ops \<Rightarrow> nat \<Rightarrow> Timer \<times> 'f CollectionStats \<Rightarrow> ('f Summary \<times> Timer) option" where
  "immix_dump_summary F now = (\<lambda>(tm, stats). do {
     (runtime, tm) \<leftarrow> Timer_stop F now tm;
     Some (\<lparr>sum_total = runtime, sum_mutator = CollectionStats_mutator F runtime stats, sum_collection = total_pause stats,
            sum_collections = collections stats, sum_percentage = CollectionStats_percentage F runtime stats\<rparr>, tm) })"

text \<open>The statistics after any sequence of cycles: their number, the list of their pauses and the sum, added up in order.\<close>

lemma CollectionStats_run:
  "fold (CollectionStats_add F) ps st =
     \<lparr>collections = collections st + length ps, total_pause = foldl (f32_add F) (total_pause st) ps, pauses = pauses st @ ps\<rparr>"
  by (induction ps arbitrary: st) (simp_all add: CollectionStats_add_def)

lemma CollectionStats_pauses_count:
  "collections (fold (CollectionStats_add F) ps (CollectionStats_new F)) = length (pauses (fold (CollectionStats_add F) ps (CollectionStats_new F)))"
  by (simp add: CollectionStats_run CollectionStats_new_def)

text \<open>A cycle whose clock does not run backwards records its duration, or nothing without statistics; it never panics.\<close>

lemma record_cycle_eq:
  assumes "start \<le> now"
  shows "record_cycle F level start now stats =
    Some (if level = StatsNone then stats else CollectionStats_add F (in_ms F (now - start)) stats)"
  using assms by (simp add: record_cycle_def Timer_new_def Timer_stop_def)

text \<open>The timer is restarted by a summary, but the pauses are not: a second summary sets the pauses of the whole run against the time since
  the first one.\<close>

lemma second_summary_counts_all_pauses:
  assumes "active tm" "timestamp tm \<le> t1" "t1 \<le> t2"
  shows "\<exists>s1 tm1 s2 tm2. immix_dump_summary F t1 (tm, stats) = Some (s1, tm1) \<and> immix_dump_summary F t2 (tm1, stats) = Some (s2, tm2) \<and>
    sum_total s2 = in_ms F (t2 - t1) \<and> sum_mutator s2 = f32_sub F (in_ms F (t2 - t1)) (total_pause stats)"
  using assms by (simp add: immix_dump_summary_def Timer_stop_def CollectionStats_mutator_def)

text \<open>The printed numbers are separated by commas.\<close>

lemma AllNumbers_fmt_loop_commas:
  "AllNumbers_fmt_loop F False nums = concat (map (\<lambda>x. CHR '','' # f32_show F x) nums)"
  by (induction nums) simp_all

lemma AllNumbers_fmt_Cons:
  "AllNumbers_fmt F (x # xs) = CHR ''['' # f32_show F x @ concat (map (\<lambda>x. CHR '','' # f32_show F x) xs) @ '']''"
  by (simp add: AllNumbers_fmt_def AllNumbers_fmt_loop_commas)

end
