(* ===== verification/Runtime.thy ===== *)
theory Runtime
  imports Complex_Main Immix Safepoint
begin

text \<open>
  What connects the library with the operating system, the C library and the code of the user: the bounds of a stack (\<open>src/stack_bounds.rs\<close>), the
  allocator on top of \<open>malloc\<close> and the text of a size (\<open>src/util.rs\<close>), the signal handlers (\<open>src/signals\<close>), the tracers and handles that are
  passed to callbacks (\<open>src/object.rs\<close>), and the life of the global space in a build without threads (\<open>src/threading.rs\<close>). The results of the
  system calls are arguments.
\<close>

section \<open>Stack bounds\<close>

record StackBounds =
  origin :: usize
  bound :: usize

text \<open>The result of \<open>pthread_attr_getstack\<close> for the attributes of the thread: the lowest address and the size.\<close>

definition new_thread_stack_bounds :: "(nat \<Rightarrow> usize \<times> usize) \<Rightarrow> nat \<Rightarrow> StackBounds" where
  "new_thread_stack_bounds getstack thread =
     (let (bound_addr, stack_size) = getstack thread; origin_addr = bound_addr + stack_size
      in \<lparr>origin = origin_addr, bound = bound_addr\<rparr>)"

text \<open>macOS: \<open>pthread_get_stackaddr_np\<close> returns the upper end of the stack.\<close>

definition new_thread_stack_bounds_macos :: "(nat \<Rightarrow> usize) \<Rightarrow> (nat \<Rightarrow> usize) \<Rightarrow> nat \<Rightarrow> StackBounds" where
  "new_thread_stack_bounds_macos get_stackaddr get_stacksize thread =
     (let origin_addr = get_stackaddr thread; stack_size = get_stacksize thread
      in \<lparr>origin = origin_addr, bound = origin_addr + stack_size\<rparr>)"

text \<open>windows: \<open>VirtualQuery\<close> describes the region of an address; the first query is for a variable on the stack.\<close>

record MEMORY_BASIC_INFORMATION =
  BaseAddress :: usize
  AllocationBase :: usize
  RegionSize :: usize

definition current_thread_stack_bounds_internal :: "(usize \<Rightarrow> MEMORY_BASIC_INFORMATION) \<Rightarrow> usize \<Rightarrow> StackBounds" where
  "current_thread_stack_bounds_internal VirtualQuery local =
     (let stack_origin = VirtualQuery local;
          origin_addr = BaseAddress stack_origin + RegionSize stack_origin;
          uncommitted_memory = VirtualQuery (AllocationBase stack_origin);
          guard_page = VirtualQuery (BaseAddress uncommitted_memory + RegionSize uncommitted_memory);
          end_of_stack = AllocationBase stack_origin
      in \<lparr>origin = origin_addr, bound = end_of_stack + RegionSize guard_page\<rparr>)"

definition current_thread_stack_bounds :: "(nat \<Rightarrow> usize \<times> usize) \<Rightarrow> nat \<Rightarrow> StackBounds" where
  "current_thread_stack_bounds getstack thread_self = new_thread_stack_bounds getstack thread_self"

text \<open>A thread whose stack pointer is in its stack: on unix the scan from the origin, where \<open>immix_register_thread\<close> lets the stack begin, down to the
  stack pointer stays inside the stack and contains every used word.\<close>

lemma registered_stack_range:
  assumes "getstack t = (lo, n)" "lo \<le> sp" "sp < lo + n" "safepoint (tls_of w t) = 0"
    and "sb = current_thread_stack_bounds getstack t"
    and "w' = immix_register_thread (origin sb) t w"
  shows "t \<in> set (THREADS w') \<and> stack_bottom (tls_of w' t) = lo + n \<and> bound sb \<le> sp \<and> {sp..<stack_bottom (tls_of w' t)} \<subseteq> {lo..<lo + n}"
  using assms by (auto simp: immix_register_thread_def immix_prepare_thread_def current_thread_stack_bounds_def new_thread_stack_bounds_def
      put_tls_def vec_push_def)

text \<open>The three regions of a windows stack that the comment in the source describes, from low to high.\<close>

definition windows_stack :: "(usize \<Rightarrow> MEMORY_BASIC_INFORMATION) \<Rightarrow> usize \<Rightarrow> usize \<Rightarrow> usize \<Rightarrow> usize \<Rightarrow> bool" where
  "windows_stack VirtualQuery lo uncommitted guard committed_size \<longleftrightarrow>
     (\<forall>a. lo \<le> a \<and> a < lo + uncommitted \<longrightarrow> VirtualQuery a = \<lparr>BaseAddress = lo, AllocationBase = lo, RegionSize = uncommitted\<rparr>) \<and>
     (\<forall>a. lo + uncommitted \<le> a \<and> a < lo + uncommitted + guard \<longrightarrow>
        VirtualQuery a = \<lparr>BaseAddress = lo + uncommitted, AllocationBase = lo, RegionSize = guard\<rparr>) \<and>
     (\<forall>a. lo + uncommitted + guard \<le> a \<and> a < lo + uncommitted + guard + committed_size \<longrightarrow>
        VirtualQuery a = \<lparr>BaseAddress = lo + uncommitted + guard, AllocationBase = lo, RegionSize = committed_size\<rparr>)"

lemma windows_stack_bounds:
  assumes "windows_stack Q lo u g c" "0 < u" "0 < g" "lo + u + g \<le> local" "local < lo + u + g + c"
  shows "current_thread_stack_bounds_internal Q local = \<lparr>origin = lo + u + g + c, bound = lo + g\<rparr>"
proof -
  have "Q local = \<lparr>BaseAddress = lo + u + g, AllocationBase = lo, RegionSize = c\<rparr>"
    "Q lo = \<lparr>BaseAddress = lo, AllocationBase = lo, RegionSize = u\<rparr>" "Q (lo + u) = \<lparr>BaseAddress = lo + u, AllocationBase = lo, RegionSize = g\<rparr>"
    using assms unfolding windows_stack_def by auto
  then show ?thesis by (simp add: current_thread_stack_bounds_internal_def Let_def)
qed

text \<open>The bound that is computed on macOS lies above the stack, which grows downwards from the origin.\<close>

lemma macos_bound_above_stack:
  assumes "get_stackaddr t = hi" "get_stacksize t = n" "hi - n \<le> sp" "sp < hi"
  shows "sp < bound (new_thread_stack_bounds_macos get_stackaddr get_stacksize t) \<and>
    origin (new_thread_stack_bounds_macos get_stackaddr get_stacksize t) \<le> bound (new_thread_stack_bounds_macos get_stackaddr get_stacksize t)"
  using assms by (simp add: new_thread_stack_bounds_macos_def Let_def)

section \<open>The allocator on top of \<open>malloc\<close>\<close>

text \<open>The blocks that \<open>malloc\<close> has given out, with their sizes. The results of \<open>malloc\<close> and \<open>realloc\<close> are arguments, \<open>None\<close> for a null pointer;
  \<open>None\<close> as a result is \<open>AllocError\<close>.\<close>

type_synonym libc_heap = "usize \<rightharpoonup> usize"

record Layout =
  layout_size :: usize
  layout_align :: usize

definition libc_allocate :: "usize option \<Rightarrow> Layout \<Rightarrow> libc_heap \<Rightarrow> ((usize \<times> usize) \<times> libc_heap) option" where
  "libc_allocate raw_ptr layout h =
     (if layout_size layout = 0 then Some ((layout_align layout, 0), h)
      else do {
        ptr \<leftarrow> raw_ptr;
        Some ((ptr, layout_size layout), h(ptr \<mapsto> layout_size layout)) })"

definition libc_deallocate :: "usize \<Rightarrow> Layout \<Rightarrow> libc_heap \<Rightarrow> libc_heap" where
  "libc_deallocate ptr layout h = (if layout_size layout \<noteq> 0 then h(ptr := None) else h)"

definition libc_grow :: "usize option \<Rightarrow> usize option \<Rightarrow> usize \<Rightarrow> Layout \<Rightarrow> Layout \<Rightarrow> libc_heap \<Rightarrow> ((usize \<times> usize) \<times> libc_heap) option" where
  "libc_grow raw_ptr moved_ptr ptr old_layout new_layout h =
     (if layout_size old_layout = 0 then libc_allocate raw_ptr new_layout h
      else do {
        new_ptr \<leftarrow> moved_ptr;
        Some ((new_ptr, layout_size new_layout), (h(ptr := None))(new_ptr \<mapsto> layout_size new_layout)) })"

text \<open>Giving a block back with its layout restores the heap, and growing a block moves it and keeps the others.\<close>

lemma libc_allocate_deallocate:
  assumes "libc_allocate raw_ptr layout h = Some ((ptr, n), h')" "\<forall>p. raw_ptr = Some p \<longrightarrow> h p = None"
  shows "libc_deallocate ptr layout h' = h \<and> n = layout_size layout \<and> (0 < n \<longrightarrow> h' ptr = Some n)"
  using assms by (auto simp: libc_allocate_def libc_deallocate_def fun_eq_iff split: if_splits Option.bind_splits)

lemma libc_grow_moves:
  assumes "libc_grow raw_ptr moved_ptr ptr old_layout new_layout h = Some ((ptr', n), h')"
    and "layout_size old_layout \<noteq> 0" "\<forall>p. moved_ptr = Some p \<longrightarrow> p = ptr \<or> h p = None"
  shows "h' ptr' = Some (layout_size new_layout) \<and> dom h' = insert ptr' (dom h - {ptr}) \<and>
    (\<forall>p. p \<noteq> ptr \<and> p \<noteq> ptr' \<longrightarrow> h' p = h p)"
  using assms by (auto simp: libc_grow_def split: Option.bind_splits if_splits)

text \<open>A large object takes one block of the C heap, and \<open>destroy\<close> frees exactly that block: the base pointer and the size of the layout are those of
  \<open>try_create\<close>.\<close>

lemma large_object_block_round_trip:
  assumes "8 dvd r" "PreciseAllocation_try_create (Some r) n ix mh = Some (p, mh')" "h r = None"
    and "layout_size create_layout = PreciseAllocation_header_size + n + HALF_ALIGNMENT"
    and "layout_size destroy_layout = PreciseAllocation_header_size + cell_size (headers mh' p) + HALF_ALIGNMENT"
  shows "\<exists>h'. libc_allocate (Some r) create_layout h = Some ((r, layout_size create_layout), h') \<and> h' \<noteq> h \<and>
    PreciseAllocation_base_pointer p (headers mh' p) = Some r \<and> libc_deallocate r destroy_layout h' = h"
proof -
  have p: "p = header_place r" "headers mh' p = new_header r n ix"
    using assms(2) try_create_eq [OF assms(1), of n ix mh] by (auto split: if_splits)
  then have "PreciseAllocation_base_pointer p (headers mh' p) = Some r" "cell_size (headers mh' p) = n"
    using assms(1) by (auto simp: new_header_def header_place_def PreciseAllocation_base_pointer_def HALF_ALIGNMENT_def ALIGNMENT_def usub_def)
  then show ?thesis using assms(3-5)
    by (intro exI [of _ "h(r \<mapsto> layout_size create_layout)"])
      (auto simp: libc_allocate_def libc_deallocate_def fun_eq_iff intro!: exI [of _ r])
qed

section \<open>The text of a size\<close>

text \<open>The division by 1024 is exact in floating point, so the sizes are real numbers; the digits are arguments.\<close>

definition FormattedSize_fmt :: "(usize \<Rightarrow> string) \<Rightarrow> (real \<Rightarrow> string) \<Rightarrow> usize \<Rightarrow> string" where
  "FormattedSize_fmt digits one_digit sz =
     (let ksize = real sz / 1024 in
      if ksize < 1 then digits sz @ ''B''
      else let msize = ksize / 1024 in
      if msize < 1 then one_digit ksize @ ''K''
      else let gsize = msize / 1024 in
      if gsize < 1 then one_digit msize @ ''M'' else one_digit gsize @ ''G'')"

lemma FormattedSize_unit:
  "last (FormattedSize_fmt digits one_digit sz) =
    (if sz < 2 ^ 10 then CHR ''B'' else if sz < 2 ^ 20 then CHR ''K'' else if sz < 2 ^ 30 then CHR ''M'' else CHR ''G'')"
  by (simp add: FormattedSize_fmt_def Let_def)

section \<open>Tagged pointers that are read and changed atomically\<close>

text \<open>\<open>spurious\<close> says whether \<open>compare_exchange_weak\<close> fails although the values are the same.\<close>

definition TaggedPointer_compare_and_swap :: "bool \<Rightarrow> u64 \<Rightarrow> u64 \<Rightarrow> TaggedPointer \<Rightarrow> bool \<times> TaggedPointer" where
  "TaggedPointer_compare_and_swap spurious current other p =
     (if raw p = current \<and> \<not> spurious then (True, p\<lparr>raw := other\<rparr>) else (False, p))"

definition TaggedPointer_atomic_store :: "u64 \<Rightarrow> TaggedPointer \<Rightarrow> TaggedPointer" where
  "TaggedPointer_atomic_store other p = p\<lparr>raw := other\<rparr>"

definition TaggedPointer_atomic_load :: "TaggedPointer \<Rightarrow> u64" where
  "TaggedPointer_atomic_load p = raw p"

definition TaggedPointer_atomic_bit_is_set :: "nat \<Rightarrow> TaggedPointer \<Rightarrow> bool" where
  "TaggedPointer_atomic_bit_is_set b p = TaggedPointer_bit_is_set (TaggedPointer_new (TaggedPointer_atomic_load p)) b"

text \<open>The exchange replaces all bits, the tags too: it succeeds only for the tagged value, not for the pointer that \<open>untagged\<close> gives.\<close>

lemma compare_and_swap_tagged:
  assumes "TaggedPointer_compare_and_swap spurious (TaggedPointer_untagged p) other p = (True, p')"
  shows "\<not> TaggedPointer_atomic_bit_is_set 0 p \<and> \<not> TaggedPointer_atomic_bit_is_set 1 p \<and> TaggedPointer_atomic_load p' = other"
proof -
  have "raw p = untagged (raw p)" using assms by (auto simp: TaggedPointer_compare_and_swap_def TaggedPointer_untagged_def split: if_splits)
  moreover have "\<not> bit (untagged (raw p)) 0" "\<not> bit (untagged (raw p)) 1"
    using bit_untagged by simp_all
  ultimately have "\<not> bit (raw p) 0" "\<not> bit (raw p) 1" by simp_all
  then show ?thesis using assms
    by (auto simp: TaggedPointer_compare_and_swap_def TaggedPointer_atomic_bit_is_set_def TaggedPointer_atomic_load_def TaggedPointer_new_def
        TaggedPointer_bit_is_set_def split: if_splits)
qed

section \<open>Signals\<close>

datatype unix_signal = SIGSEGV | SIGBUS | SIGILL | Other_signal nat

datatype disposition = SIG_DFL | Segv_handler | Other_handler nat

record process =
  action :: "unix_signal \<Rightarrow> disposition"
  blocked :: "unix_signal set"
  raised :: "unix_signal list"

definition sigdie_handler :: "unix_signal \<Rightarrow> process \<Rightarrow> process" where
  "sigdie_handler sig p =
     (let p = p\<lparr>blocked := {}\<rparr>;
          p = p\<lparr>action := (action p)(sig := SIG_DFL)\<rparr>
      in if sig \<noteq> SIGSEGV \<and> sig \<noteq> SIGBUS \<and> sig \<noteq> SIGILL then p\<lparr>raised := vec_push (raised p) sig\<rparr> else p)"

text \<open>The whole handler, on the protocol of the safepoints and the process.\<close>

definition segv_handler_process :: "unix_signal \<Rightarrow> usize \<Rightarrow> thread_id \<Rightarrow> world \<times> process \<Rightarrow> world \<times> process" where
  "segv_handler_process sig si_addr t = (\<lambda>(w, p).
     if addr_in_safepoint si_addr w then (set_gc_and_wait t w, p) else (w, sigdie_handler sig p))"

text \<open>\<open>rc1\<close> and \<open>rc2\<close> are the results of \<open>sigaction\<close>; a negative one panics.\<close>

definition allocate_segv_handler :: "int \<Rightarrow> int \<Rightarrow> process \<Rightarrow> process option" where
  "allocate_segv_handler rc1 rc2 p =
     (if rc1 < 0 then None
      else let p = p\<lparr>action := (action p)(SIGSEGV := Segv_handler)\<rparr> in
      if rc2 < 0 then None
      else Some (p\<lparr>action := (action p)(SIGBUS := Segv_handler)\<rparr>))"

definition install_default_signal_handlers :: "int \<Rightarrow> int \<Rightarrow> process \<Rightarrow> process option" where
  "install_default_signal_handlers rc1 rc2 p = allocate_segv_handler rc1 rc2 p"

text \<open>An access that faults: the system delivers the signal, and the default action ends the process, \<open>None\<close>. Without that the access is repeated
  when the handler returns.\<close>

definition fault :: "unix_signal \<Rightarrow> usize \<Rightarrow> thread_id \<Rightarrow> world \<times> process \<Rightarrow> (world \<times> process) option" where
  "fault sig si_addr t s =
     (case action (snd s) sig of
        SIG_DFL \<Rightarrow> None
      | Segv_handler \<Rightarrow> Some (segv_handler_process sig si_addr t s)
      | Other_handler _ \<Rightarrow> Some s)"

text \<open>With the handlers installed a fault at the safepoint page stops the thread and keeps the handlers. A fault elsewhere leaves the world alone, and
  its repetition ends the process: the abstract handler of the protocol says \<open>Crashed\<close> for it.\<close>

lemma installed_handler_faults:
  assumes "install_default_signal_handlers rc1 rc2 p0 = Some p" "sig \<in> {SIGSEGV, SIGBUS}"
  shows "addr = SAFEPOINT_PAGE w \<Longrightarrow> fault sig addr t (w, p) = Some (segv_handler addr t w, p)"
    and "addr \<noteq> SAFEPOINT_PAGE w \<Longrightarrow> \<exists>p'. fault sig addr t (w, p) = Some (w, p') \<and> fault sig addr t (w, p') = None \<and> blocked p' = {} \<and>
      (\<forall>s. s \<noteq> sig \<longrightarrow> action p' s = action p s) \<and> at_pc (segv_handler addr t w) t = Crashed"
proof -
  have act: "action p SIGSEGV = Segv_handler" "action p SIGBUS = Segv_handler"
    using assms(1) by (auto simp: install_default_signal_handlers_def allocate_segv_handler_def Let_def split: if_splits)
  show "addr = SAFEPOINT_PAGE w \<Longrightarrow> fault sig addr t (w, p) = Some (segv_handler addr t w, p)"
    using act assms(2) by (auto simp: fault_def segv_handler_process_def segv_handler_def addr_in_safepoint_def)
  show "addr \<noteq> SAFEPOINT_PAGE w \<Longrightarrow> \<exists>p'. fault sig addr t (w, p) = Some (w, p') \<and> fault sig addr t (w, p') = None \<and> blocked p' = {} \<and>
      (\<forall>s. s \<noteq> sig \<longrightarrow> action p' s = action p s) \<and> at_pc (segv_handler addr t w) t = Crashed"
    using act assms(2) by (auto simp: fault_def segv_handler_process_def segv_handler_def addr_in_safepoint_def sigdie_handler_def goto_def)
qed

text \<open>windows: the exception filter, with the fields of the exception record that it reads.\<close>

datatype exception_result = EXCEPTION_CONTINUE_EXECUTION | EXCEPTION_CONTINUE_SEARCH

definition exception_handler :: "nat \<Rightarrow> bool \<Rightarrow> usize \<Rightarrow> thread_id \<Rightarrow> world \<Rightarrow> exception_result \<times> world" where
  "exception_handler flags access_violation information t w =
     (if flags = 0 then
        if access_violation then
          if information = SAFEPOINT_PAGE w then (EXCEPTION_CONTINUE_EXECUTION, set_gc_and_wait t w)
          else (EXCEPTION_CONTINUE_SEARCH, w)
        else (EXCEPTION_CONTINUE_SEARCH, w)
      else (EXCEPTION_CONTINUE_SEARCH, w))"

text \<open>Both systems stop a thread for the same faults.\<close>

lemma exception_handler_as_unix:
  "fst (exception_handler 0 True addr t w) = EXCEPTION_CONTINUE_EXECUTION \<longleftrightarrow> addr_in_safepoint addr w"
  "addr_in_safepoint addr w \<Longrightarrow> snd (exception_handler 0 True addr t w) = fst (segv_handler_process sig addr t (w, p))"
  by (auto simp: exception_handler_def addr_in_safepoint_def segv_handler_process_def)

section \<open>Handles, tracers and callbacks\<close>

definition RawGc_is_precise_allocation :: "usize \<Rightarrow> bool" where
  "RawGc_is_precise_allocation self = PreciseAllocation_is_precise self"

definition RawGc_precise_allocation :: "usize \<Rightarrow> usize option" where
  "RawGc_precise_allocation self = PreciseAllocation_from_cell self"

definition Gc_deref :: "usize \<Rightarrow> usize" where
  "Gc_deref gc_ptr = RawGc_data gc_ptr"

definition Gc_get_rtti :: "rtti_table \<Rightarrow> memory \<Rightarrow> usize \<Rightarrow> GCRTTI" where
  "Gc_get_rtti T m gc_ptr = RawGc_rtti T (RawGc_at m gc_ptr)"

definition immix_object_get_rtti :: "rtti_table \<Rightarrow> memory \<Rightarrow> usize \<Rightarrow> GCRTTI" where
  "immix_object_get_rtti T m object = RawGc_rtti T (RawGc_at m object)"

text \<open>The address of the value and that of the header determine each other, and the header of a large object leads to its allocation.\<close>

lemma Gc_round_trip:
  "Gc_from_raw (Gc_deref gc_ptr) = Some gc_ptr"
  "Gc_from_raw value_ptr = Some gc_ptr \<Longrightarrow> Gc_deref gc_ptr = value_ptr"
  by (auto simp: Gc_from_raw_def Gc_deref_def RawGc_data_def usub_def split: if_splits)

lemma precise_allocation_round_trip:
  assumes "8 dvd r" "PreciseAllocation_try_create (Some r) n ix mh = Some (p, mh')"
  shows "RawGc_is_precise_allocation (PreciseAllocation_cell p)" "RawGc_precise_allocation (PreciseAllocation_cell p) = Some p"
  using assms(2)
  by (auto simp: PreciseAllocation_try_create_def RawGc_is_precise_allocation_def RawGc_precise_allocation_def PreciseAllocation_from_cell_def
      usub_def Let_def split: if_splits Option.bind_splits)

text \<open>The tracers behind a \<open>TracerPtr\<close>: the one of a collection that collects the slots of the roots, and the visitor of marking.\<close>

datatype tracer = VisitRoots "usize list" | MarkVisitor bool bool "usize list" heap_state

fun TracerPtr_trace :: "rtti_table \<Rightarrow> usize \<Rightarrow> tracer \<Rightarrow> tracer option" where
  "TracerPtr_trace T reference (VisitRoots v) = Some (VisitRoots (vec_push v reference))"
| "TracerPtr_trace T reference (MarkVisitor next_live_mark defrag queue s) =
     map_option (\<lambda>(queue, s). MarkVisitor next_live_mark defrag queue s) (Visitor_trace T next_live_mark defrag reference (queue, s))"

definition tracer_trace :: "rtti_table \<Rightarrow> usize \<Rightarrow> tracer \<Rightarrow> tracer option" where
  "tracer_trace T gc_val p = TracerPtr_trace T gc_val p"

text \<open>A visitor that passes its slots to \<open>tracer_trace\<close> one after the other does what the loop of marking does for an object.\<close>

lemma tracer_trace_marks:
  "for_each (tracer_trace T) refs (MarkVisitor lm defrag queue s)
    = map_option (\<lambda>(queue, s). MarkVisitor lm defrag queue s) (for_each (Visitor_trace T lm defrag) refs (queue, s))"
proof (induction refs arbitrary: queue s)
  case (Cons ref refs)
  show ?case
    by (cases "Visitor_trace T lm defrag ref (queue, s)") (auto simp: tracer_trace_def [of T ref] Cons.IH)
qed (simp)

type_synonym ConservativeTracer = "(usize \<times> usize) list"

definition ConservativeTracer_add :: "usize \<Rightarrow> usize \<Rightarrow> ConservativeTracer \<Rightarrow> ConservativeTracer" where
  "ConservativeTracer_add start_addr end_addr roots = vec_push roots (start_addr, end_addr)"

definition conservative_roots_add :: "usize \<Rightarrow> usize \<Rightarrow> ConservativeTracer \<Rightarrow> ConservativeTracer" where
  "conservative_roots_add begin_addr end_addr tr = ConservativeTracer_add begin_addr end_addr tr"

text \<open>What a callback may call, and a callback that makes the calls \<open>calls m\<close> for the memory \<open>m\<close>.\<close>

datatype callback_call = Trace_slot usize | Add_range usize usize

fun callback_effect :: "rtti_table \<Rightarrow> callback_call \<Rightarrow> tracer \<times> ConservativeTracer \<Rightarrow> (tracer \<times> ConservativeTracer) option" where
  "callback_effect T (Trace_slot ref) (tr, cons) = map_option (\<lambda>tr. (tr, cons)) (tracer_trace T ref tr)"
| "callback_effect T (Add_range b e) (tr, cons) = Some (tr, conservative_roots_add b e cons)"

definition callback_of :: "(memory \<Rightarrow> callback_call list) \<Rightarrow> CollectRootsCallback" where
  "callback_of calls = (\<lambda>m. (concat (map (\<lambda>c. case c of Trace_slot a \<Rightarrow> [a] | Add_range _ _ \<Rightarrow> []) (calls m)),
                            concat (map (\<lambda>c. case c of Trace_slot _ \<Rightarrow> [] | Add_range b e \<Rightarrow> [(b, e)]) (calls m))))"

lemma callback_effects:
  "for_each (callback_effect T) cs (VisitRoots v, cons)
    = Some (VisitRoots (v @ fst (callback_of (\<lambda>_. cs) m)), cons @ snd (callback_of (\<lambda>_. cs) m))"
proof (induction cs arbitrary: v cons)
  case (Cons c cs)
  show ?case
    by (cases c) (simp_all add: Cons.IH tracer_trace_def conservative_roots_add_def ConservativeTracer_add_def vec_push_def callback_of_def)
qed (simp add: callback_of_def)

text \<open>All callbacks of a collection, one after the other on the same two vectors: the precise roots and the ranges are those of \<open>run_callbacks\<close>.\<close>

lemma callbacks_collect:
  "for_each (\<lambda>calls. for_each (callback_effect T) (calls m)) css (VisitRoots v, cons)
    = Some (VisitRoots (v @ fst (run_callbacks (map callback_of css) m)), cons @ snd (run_callbacks (map callback_of css) m))"
proof (induction css arbitrary: v cons)
  case (Cons calls css)
  have "for_each (callback_effect T) (calls m) (VisitRoots v, cons)
      = Some (VisitRoots (v @ fst (callback_of calls m)), cons @ snd (callback_of calls m))"
    using callback_effects [of T "calls m" v cons m] by (simp add: callback_of_def)
  then show ?case by (simp add: Cons.IH run_callbacks_def)
qed (simp add: run_callbacks_def)

section \<open>The life of the space\<close>

text \<open>The flag of \<open>immix_init\<close>, the global pointer and the memory it may name. In a build without threads \<open>immix_unregister_thread\<close> drops the
  space and frees it.\<close>

record globals =
  INIT :: bool
  SPACE_ptr :: usize
  live_memory :: "usize set"

definition immix_init_globals :: "bool \<Rightarrow> usize \<Rightarrow> globals \<Rightarrow> globals" where
  "immix_init_globals spurious raw_mem g =
     (if \<not> INIT g \<and> \<not> spurious
      then g\<lparr>INIT := True, SPACE_ptr := raw_mem, live_memory := insert raw_mem (live_memory g)\<rparr> else g)"

definition unsync_immix_unregister_thread :: "globals \<Rightarrow> globals" where
  "unsync_immix_unregister_thread g = g\<lparr>live_memory := live_memory g - {SPACE_ptr g}\<rparr>"

definition unsync_gc_state_set :: "int \<Rightarrow> int \<Rightarrow> int" where
  "unsync_gc_state_set state old_state = 0"

definition unsync_gc_state_save_and_set :: "int \<Rightarrow> int" where
  "unsync_gc_state_save_and_set state = 0"

definition unsync_immix_unsafe_enter :: int where
  "unsync_immix_unsafe_enter = 0"

definition unsync_immix_unsafe_leave :: "int \<Rightarrow> int" where
  "unsync_immix_unsafe_leave state = state"

definition unsync_immix_safe_enter :: int where
  "unsync_immix_safe_enter = 0"

definition unsync_immix_safe_leave :: "int \<Rightarrow> int" where
  "unsync_immix_safe_leave state = state"

text \<open>A thread that initialises, unregisters and initialises again is left with a pointer to freed memory; and the first initialisation has no
  effect when the weak exchange fails for no reason.\<close>

lemma unsync_init_again_dangles:
  assumes "\<not> INIT g"
  shows "SPACE_ptr (immix_init_globals False mem2 (unsync_immix_unregister_thread (immix_init_globals False mem1 g))) = mem1 \<and>
    mem1 \<notin> live_memory (immix_init_globals False mem2 (unsync_immix_unregister_thread (immix_init_globals False mem1 g))) \<and>
    immix_init_globals True mem1 g = g"
  using assms by (simp add: immix_init_globals_def unsync_immix_unregister_thread_def)

end
