(* ===== verification/Spec2Isabelle.thy ===== *)
theory Spec2Isabelle
  imports Cycle Safepoint_Progress Bitmap_Race Unsync_Bitmap Mmap_Windows Statistics Runtime
begin

text \<open>
  A verification of libimmixcons, a conservative mark-region garbage collector in Rust. Paths are relative to \<open>src/\<close> of the crate.

  \<^bold>\<open>The program.\<close> The heap is one mapping, cut into blocks of 32 KiB with 256 lines of 128 bytes each (\<open>block_allocator.rs\<close>, \<open>block.rs\<close>).
  Three allocators bump a cursor through the unmarked lines, the holes, of their blocks (\<open>allocation.rs\<close>): small objects, medium objects, and
  copies of evacuated objects. A bitmap with one bit per 16 bytes records where objects start (\<open>space_bitmap.rs\<close>). Objects of 8 KiB and more come
  from \<open>malloc\<close> (\<open>large_object_space.rs\<close>). A collection (\<open>collector.rs\<close>, \<open>lib.rs\<close>) stops the other threads (\<open>safepoint.rs\<close>, \<open>threading.rs\<close>,
  \<open>signals/\<close>), scans their stacks conservatively, marks objects and lines, evacuates objects out of fragmented blocks, and returns free
  blocks. The locks are in \<open>util/locks.rs\<close>.

  \<^bold>\<open>Conventions.\<close> The configuration is the default one: \<open>threaded\<close>, without \<open>willdebug\<close>, lines of 128 bytes, unix on x86-64; where a
  theory models another variant it says so. Addresses and
  \<open>usize\<close> are naturals, with the conversions to narrower types and the subtractions that can panic written out; header and bitmap words are
  64-bit words and lock bytes 8-bit words. A panic and an access outside of a table are \<open>None\<close>. Memory is a function from addresses to words.
  Loops that the source does not bound are defined with \<open>partial_function\<close>, and it is proved that they return; there is no fuel. Code outside of
  the crate is a parameter: the results of \<open>mmap\<close> and \<open>malloc\<close>, the type information of objects (sizes, references, finalizers),
  \<open>binary_search\<close>, the vector map of the histograms with its documented laws (\<open>VecMap_laws\<close>), the parking lot with its documented laws
  (\<open>parking_laws\<close>), clock readings and \<open>f32\<close>.

  \<^bold>\<open>Theories.\<close>
  \<^item> \<open>Prelude\<close>, \<open>Util\<close>: machine types, panicking operations, loops; the constants and \<open>util.rs\<close> (tagged pointers, rounding, addresses, regions).
  \<^item> \<open>Bit_Table\<close>: what the two bitmaps share, and the interface \<open>bit_table\<close> of a table of bits, interpreted by both.
  \<^item> \<open>Line_Map\<close>, \<open>Space_Bitmap\<close>: the bitmap of lines generated in \<open>util/bitmap_const.rs\<close> and the bitmap of objects. Both are sets of
    indices; clearing a range and walking are exact. The lemmas on \<open>sweep_walk\<close> and \<open>visit_marked_range\<close> say what these do instead of what they mean.
  \<^item> \<open>Object\<close>, \<open>Block\<close>: header words, sizes, and blocks. The search for a hole returns the first one, and a hole never meets a marked object.
  \<^item> \<open>Block_Allocator\<close>: the mapping and the list of free blocks, with the interface \<open>block_source\<close>; the compare-and-swap loop of \<open>build_block\<close> as
    a step relation.
  \<^item> \<open>Allocation\<close>, \<open>Allocators\<close>, \<open>Immix_Space\<close>: the trait \<open>Allocator\<close> as the locale \<open>allocator_contract\<close>, whose lemmas are proved once and
    interpreted for the three allocators; the space. The invariant \<open>immix_ok\<close> says that every block has one owner; an allocation takes only
    bytes that were available, and objects of a run are disjoint.
  \<^item> \<open>Large_Object_Space\<close>: headers behind \<open>malloc\<close>, lookup, sweep.
  \<^item> \<open>Collector\<close>, \<open>Marking\<close>, \<open>Evacuation\<close>: the tracing loop, the sweep, and the decision to evacuate. Marking ends and marks exactly
    the reachable objects; a collection keeps the invariant and what is reachable.
  \<^item> \<open>Immix\<close>, \<open>Cycle\<close>: the library interface of \<open>lib.rs\<close> and a whole cycle, from the stacks to finalization, over all the components above.
  \<^item> \<open>Locks\<close>: \<open>GCSpinLock\<close>, \<open>Mutex\<close> and \<open>ReentrantMutex\<close> as labelled step relations of any number of threads, with the locales
    \<open>step_protocol\<close> and \<open>exclusion_protocol\<close>. The mutex refines an abstract lock and loses no wakeup.
  \<^item> \<open>Bitmap_Race\<close>: the object bitmap under concurrent calls. It is an atomic set of cells when threads keep to their own blocks.
  \<^item> \<open>Unsync_Bitmap\<close>: the bitmap of a build without \<open>threaded\<close>, on words in memory behind a raw pointer. It is a data refinement of
    \<open>Space_Bitmap\<close> and the third interpretation of \<open>bit_table\<close>.
  \<^item> \<open>Mmap_Windows\<close>: the windows variant of the mapping. The committed memory is that of the blocks in use.
  \<^item> \<open>Safepoint\<close>, \<open>Safepoint_Progress\<close>: the registration of threads, yieldpoints, the signal handler and the protocol around a cycle, as
    interleavings of threads; the types of its data under every interleaving, and that a cycle ends within a bounded number of steps of the
    collector when the other threads are in safe states.
  \<^item> \<open>Runtime\<close>: stack bounds, the allocator on \<open>malloc\<close>, the signal handlers with the process around them, tracers and callbacks, handles, and the
    life of the global space in a build without \<open>threaded\<close>. Its lemmas justify what the other theories take for granted: that a crash follows a
    fault outside of the safepoint page, that callbacks are lists of slots and ranges, that visitors are lists of slots.
  \<^item> \<open>Statistics\<close>: timers and the summary of the cycles.

  Definitions have the names of the source, with the type in front of the name of a method. A step relation has one rule for each access to
  shared memory; the position of a thread is a datatype, and the pure part of each step is a definition of its own. Accesses are
  sequentially consistent.

  \<^bold>\<open>Properties.\<close> Each is a theorem after a text that starts with its number. They are of three kinds: what an operation does on every branch, what
  every sequence or interleaving of operations keeps, and, where the code does not do what it means to, a theorem that states what it does
  instead. Of the last kind are the sweep of the large objects, the order of their list, the repeated evacuation of an object, the sizes
  without the header, the count of holes, the safepoint page that is never protected, and the deadlock of unregistering. The theorems about
  safety of a cycle are therefore about collections that do not move objects, in a world that is stopped.

  \<^bold>\<open>Bounds.\<close> The heap is below \<open>2^63\<close> bytes, so that sums of addresses and sizes do not wrap. Offsets in a block are 16-bit numbers, with
  their truncation written out. The sample states of the witnesses are a heap of 16 blocks at address 65536 and two threads.

  \<^bold>\<open>Not modelled.\<close> A collection of the build without \<open>threaded\<close>, which has the stack of one thread in place of the list of threads; the OpenBSD
  variant of the stack bounds, which names a field that does not exist; the registration of the exception filter on windows, which only calls the
  system; \<open>get_sp!\<close> and \<open>save_regs\<close>, which are assembly; logging, the text of printed lines, and the tests; \<open>drop\<close> of the spaces, which only
  returns memory to the system; weak memory orders; the deadlock detector of the locks. What remains of the files are imports, re-exports,
  accessors, and implementations of \<open>Debug\<close>, \<open>Clone\<close> and \<open>Hash\<close>.
\<close>

end
